(* ===== verification/Prelude.thy ===== *)
theory Prelude
  imports Main "HOL-Library.Word"
begin

text \<open>
  Shared vocabulary of the willowOS development: the machine integers of the C
  sources, the byte memory of the kernel, the collections of simplification rules
  used by the components, and the list and word facts several components rely on.

  C functions that may not return (an \<open>assert\<close> spins forever, a NULL
  dereference page-faults and \<open>page_fault_handler\<close> halts the machine) have an
  \<open>option\<close> result throughout: \<open>None\<close> is ``does not return''.
\<close>

unbundle bit_operations_syntax

section \<open>Types\<close>

type_synonym u8 = "8 word"
type_synonym u16 = "16 word"
type_synonym u32 = "32 word"
type_synonym u64 = "64 word"
type_synonym mem = "u64 \<Rightarrow> u8"

abbreviation NULL :: u64 where
  "NULL \<equiv> 0"

abbreviation UINT64_MAX :: u64 where
  "UINT64_MAX \<equiv> - 1"

section \<open>Collections\<close>

named_theorems heap_simps \<open>facts on the heap node list\<close>
named_theorems word_facts \<open>conversions between machine words and natural numbers\<close>

section \<open>Lists\<close>

lemma nth_list_update_if:
  "k < length xs \<Longrightarrow> (xs[i := v]) ! k = (if i = k then v else xs ! k)"
  by simp

lemma find_upt_Some_iff:
  "find P [a..<b] = Some k \<longleftrightarrow> a \<le> k \<and> k < b \<and> P k \<and> (\<forall>j. a \<le> j \<and> j < k \<longrightarrow> \<not> P j)"
proof (induction "b - a" arbitrary: a)
  case (Suc d)
  hence ab: "a < b" and IH: "find P [Suc a..<b] = Some k \<longleftrightarrow>
      Suc a \<le> k \<and> k < b \<and> P k \<and> (\<forall>j. Suc a \<le> j \<and> j < k \<longrightarrow> \<not> P j)" by simp_all
  show ?case
    using ab IH by (auto simp: upt_conv_Cons Suc_le_eq) (metis le_neq_implies_less not_less)+
qed auto

lemma find_upt_None_iff: "find P [a..<b] = None \<longleftrightarrow> (\<forall>j. a \<le> j \<and> j < b \<longrightarrow> \<not> P j)"
  by (auto simp: find_None_iff)

lemma find_append:
  "find P (xs @ ys) = (case find P xs of None \<Rightarrow> find P ys | Some x \<Rightarrow> Some x)"
  by (induction xs) simp_all

lemma find_cong_set: "(\<And>x. x \<in> set xs \<Longrightarrow> P x = Q x) \<Longrightarrow> find P xs = find Q xs"
  by (induction xs) auto

section \<open>Words\<close>

lemma unat_of_nat_small [word_facts]:
  "n < 2 ^ LENGTH('a::len) \<Longrightarrow> unat (of_nat n :: 'a word) = n"
  by (simp add: unat_of_nat take_bit_nat_eq_self)

lemma unat_of_nat_u64 [word_facts]:
  "n < 2 ^ 64 \<Longrightarrow> unat (of_nat n :: u64) = n"
  by (rule unat_of_nat_small) simp

lemma of_nat_inj_u64:
  "a < 2 ^ 64 \<Longrightarrow> b < 2 ^ 64 \<Longrightarrow> (of_nat a :: u64) = of_nat b \<longleftrightarrow> a = b"
  by (metis unat_of_nat_u64)

lemma unat_add_no_wrap:
  fixes a b :: u64
  shows "unat a + unat b < 2 ^ 64 \<Longrightarrow> unat (a + b) = unat a + unat b"
  by (simp add: unat_word_ariths)

lemma unat_mult_no_wrap:
  fixes a b :: u64
  shows "unat a * unat b < 2 ^ 64 \<Longrightarrow> unat (a * b) = unat a * unat b"
  by (simp add: unat_word_ariths)

lemma unat_of_nat_mult:
  assumes "n * unat (b :: u64) < 2 ^ 64" "b \<noteq> 0"
  shows "unat (of_nat n * b) = n * unat b"
proof -
  have "n < 2 ^ 64"
    using assms unat_gt_0 [of b] by (cases "unat b") (auto intro: le_less_trans [of n "n * unat b"])
  hence "unat (of_nat n :: u64) = n" by (rule unat_of_nat_u64)
  thus ?thesis using assms(1) by (simp only: unat_mult_no_wrap)
qed

lemma unat_u64_bound [simp]: "unat (x :: u64) < 18446744073709551616"
  using unsigned_less [of x] by simp

lemma unat_u64_less: "18446744073709551616 \<le> n \<Longrightarrow> unat (x :: u64) < n"
  by (rule less_le_trans [OF unat_u64_bound])

lemma unat_succ:
  fixes a b :: u64
  assumes "unat a < unat b"
  shows "unat (a + 1) = unat a + 1"
proof -
  have "Suc (unat a) < 2 ^ 64" by (rule le_less_trans [OF Suc_leI [OF assms]]) simp
  thus ?thesis by (subst unat_add_no_wrap) simp_all
qed

lemma length_filter_update:
  "i < length xs \<Longrightarrow> length (filter P (xs[i := y])) + (if P (xs ! i) then 1 else 0) =
     length (filter P xs) + (if P y then 1 else 0)"
proof (induction xs arbitrary: i)
  case (Cons x xs)
  show ?case
  proof (cases i)
    case (Suc j)
    thus ?thesis using Cons.IH [of j] Cons.prems by (cases "P x") auto
  qed simp
qed simp

lemma unat_and_fff: "unat (x AND 0xfff :: u64) = unat x mod 4096"
proof -
  have "x AND 0xfff = take_bit 12 x" by (simp add: take_bit_eq_mask mask_eq_exp_minus_1)
  thus ?thesis by (simp add: take_bit_eq_mod unat_mod)
qed

lemma page_aligned_iff: "x AND 0xfff = (0 :: u64) \<longleftrightarrow> unat x mod 4096 = 0"
  by (metis unat_and_fff unat_eq_zero)

section \<open>Sources of fresh resources\<close>

text \<open>An allocator that hands out addresses from a set of available ones, 0 when there is
  none, and the result of calling it several times in a row.\<close>

primrec repeat_alloc :: "('s \<Rightarrow> u64 \<times> 's) \<Rightarrow> nat \<Rightarrow> 's \<Rightarrow> u64 list \<times> 's" where
  "repeat_alloc alloc 0 s = ([], s)"
| "repeat_alloc alloc (Suc n) s =
     (let (a, s1) = alloc s; (as, s2) = repeat_alloc alloc n s1 in (a # as, s2))"

locale fresh_source =
  fixes alloc :: "'s \<Rightarrow> u64 \<times> 's"
    and inv :: "'s \<Rightarrow> bool"
    and avail :: "'s \<Rightarrow> u64 set"
  assumes alloc_fresh: "inv s \<Longrightarrow> alloc s = (a, s') \<Longrightarrow> a \<noteq> 0 \<Longrightarrow>
      a \<in> avail s \<and> avail s' = avail s - {a} \<and> inv s'"
    and alloc_empty: "inv s \<Longrightarrow> fst (alloc s) = 0 \<Longrightarrow> avail s = {}"
begin

lemma repeat_fresh:
  assumes "inv s" "finite (avail s)" "n \<le> card (avail s)" "repeat_alloc alloc n s = (as, s')"
  shows "distinct as \<and> 0 \<notin> set as \<and> set as \<subseteq> avail s \<and> length as = n \<and>
         avail s' = avail s - set as \<and> inv s'"
  using assms
proof (induction n arbitrary: s as)
  case (Suc n)
  obtain a s1 where a: "alloc s = (a, s1)" by fastforce
  obtain bs where bs: "repeat_alloc alloc n s1 = (bs, s')" "as = a # bs"
    using Suc.prems(4) a by (auto split: prod.splits)
  have "avail s \<noteq> {}" using Suc.prems(3) by auto
  hence "a \<noteq> 0" using alloc_empty [OF Suc.prems(1)] a by auto
  note f = alloc_fresh [OF Suc.prems(1) a this]
  hence "n \<le> card (avail s1)" using Suc.prems(2,3) by simp
  from Suc.IH [OF _ _ this bs(1)] f Suc.prems(2) \<open>a \<noteq> 0\<close> show ?case
    by (auto simp: bs(2))
qed simp

end

end
