(* ===== verification/Kmem.thy ===== *)
theory Kmem
  imports Prelude
begin

text \<open>
  The part of the machine every component sees: the interrupt flag with
  \<open>irq_disable_save\<close> / \<open>irq_restore\<close> (kutils.c), and the byte memory with the four
  C library routines of main.c (\<open>memcpy\<close>, \<open>memset\<close>, \<open>memmove\<close>, \<open>memcmp\<close>).
  The lemmas give each routine its extensional effect on memory; the routines
  return their first argument in C, which is left out here.
\<close>

section \<open>Interrupt flag (kutils.c)\<close>

record machine =
  irq_enabled :: bool
  kmem :: mem

definition read_flags :: "'a machine_scheme \<Rightarrow> u64" where
  "read_flags s = (if irq_enabled s then 0x202 else 0x2)"

definition irq_disable_save :: "'a machine_scheme \<Rightarrow> bool \<times> 'a machine_scheme" where
  "irq_disable_save s = (read_flags s AND push_bit 9 1 \<noteq> 0, s\<lparr>irq_enabled := False\<rparr>)"

definition irq_restore :: "bool option \<Rightarrow> 'a machine_scheme \<Rightarrow> 'a machine_scheme" where
  "irq_restore status s =
     (case status of
        None \<Rightarrow> s\<lparr>irq_enabled := True\<rparr>
      | Some old \<Rightarrow> if old then s\<lparr>irq_enabled := True\<rparr> else s)"

section \<open>Memory routines (main.c)\<close>

fun memcpy_loop :: "u64 \<Rightarrow> u64 \<Rightarrow> nat \<Rightarrow> nat \<Rightarrow> mem \<Rightarrow> mem" where
  "memcpy_loop pdest psrc i 0 m = m"
| "memcpy_loop pdest psrc i (Suc k) m =
     memcpy_loop pdest psrc (Suc i) k (m(pdest + of_nat i := m (psrc + of_nat i)))"

definition memcpy :: "u64 \<Rightarrow> u64 \<Rightarrow> u64 \<Rightarrow> mem \<Rightarrow> mem" where
  "memcpy dest src n m = memcpy_loop dest src 0 (unat n) m"

fun memset_loop :: "u64 \<Rightarrow> u8 \<Rightarrow> nat \<Rightarrow> nat \<Rightarrow> mem \<Rightarrow> mem" where
  "memset_loop p c i 0 m = m"
| "memset_loop p c i (Suc k) m = memset_loop p c (Suc i) k (m(p + of_nat i := c))"

definition memset :: "u64 \<Rightarrow> u32 \<Rightarrow> u64 \<Rightarrow> mem \<Rightarrow> mem" where
  "memset s c n m = memset_loop s (ucast c) 0 (unat n) m"

fun memmove_down :: "u64 \<Rightarrow> u64 \<Rightarrow> nat \<Rightarrow> mem \<Rightarrow> mem" where
  "memmove_down pdest psrc 0 m = m"
| "memmove_down pdest psrc (Suc i) m =
     memmove_down pdest psrc i (m(pdest + of_nat i := m (psrc + of_nat i)))"

definition memmove :: "u64 \<Rightarrow> u64 \<Rightarrow> u64 \<Rightarrow> mem \<Rightarrow> mem" where
  "memmove dest src n m =
     (if src > dest then memcpy_loop dest src 0 (unat n) m
      else if src < dest then memmove_down dest src (unat n) m
      else m)"

fun memcmp_loop :: "mem \<Rightarrow> u64 \<Rightarrow> u64 \<Rightarrow> nat \<Rightarrow> nat \<Rightarrow> int" where
  "memcmp_loop m p1 p2 i 0 = 0"
| "memcmp_loop m p1 p2 i (Suc k) =
     (if m (p1 + of_nat i) \<noteq> m (p2 + of_nat i)
      then (if m (p1 + of_nat i) < m (p2 + of_nat i) then -1 else 1)
      else memcmp_loop m p1 p2 (Suc i) k)"

definition memcmp :: "mem \<Rightarrow> u64 \<Rightarrow> u64 \<Rightarrow> u64 \<Rightarrow> int" where
  "memcmp m s1 s2 n = memcmp_loop m s1 s2 0 (unat n)"

fun read_bytes :: "mem \<Rightarrow> u64 \<Rightarrow> nat \<Rightarrow> u8 list" where
  "read_bytes m p 0 = []"
| "read_bytes m p (Suc n) = m p # read_bytes m (p + 1) n"

definition store64 :: "u64 \<Rightarrow> u64 \<Rightarrow> mem \<Rightarrow> mem" where
  "store64 a v m = (\<lambda>x. if unat (x - a) < 8 then ucast (drop_bit (8 * unat (x - a)) v) else m x)"

definition load64 :: "mem \<Rightarrow> u64 \<Rightarrow> u64" where
  "load64 m a = foldr (\<lambda>i acc. ucast (m (a + of_nat i)) OR push_bit 8 acc) [0..<8] 0"

definition in_range :: "u64 \<Rightarrow> nat \<Rightarrow> u64 \<Rightarrow> bool" where
  "in_range p n a \<longleftrightarrow> unat (a - p) < n"

definition no_wrap :: "u64 \<Rightarrow> nat \<Rightarrow> bool" where
  "no_wrap p n \<longleftrightarrow> unat p + n \<le> 2 ^ 64"

definition disjoint_ranges :: "u64 \<Rightarrow> nat \<Rightarrow> u64 \<Rightarrow> nat \<Rightarrow> bool" where
  "disjoint_ranges p n q k \<longleftrightarrow> unat p + n \<le> unat q \<or> unat q + k \<le> unat p"

section \<open>Interrupt flag lemmas\<close>

lemma irq_disable_save_simp [simp]:
  "irq_disable_save s = (irq_enabled s, s\<lparr>irq_enabled := False\<rparr>)"
  by (simp add: irq_disable_save_def read_flags_def push_bit_eq_mult)

lemma irq_restore_None [simp]: "irq_restore None s = s\<lparr>irq_enabled := True\<rparr>"
  by (simp add: irq_restore_def)

lemma irq_restore_Some [simp]:
  "irq_restore (Some old) s = (if old then s\<lparr>irq_enabled := True\<rparr> else s)"
  by (simp add: irq_restore_def)

lemma irq_enabled_bracket:
  "irq_enabled (irq_restore (Some (irq_enabled s)) (t\<lparr>irq_enabled := False\<rparr>)) = irq_enabled s"
  by simp

section \<open>Address arithmetic\<close>

lemma unat_add_of_nat:
  assumes "no_wrap p n" "i < n"
  shows "unat (p + of_nat i) = unat p + i"
proof -
  have "unat (of_nat i :: u64) = i"
    using assms by (intro unat_of_nat_u64) (simp add: no_wrap_def)
  thus ?thesis
    using assms by (subst unat_add_no_wrap) (simp_all add: no_wrap_def)
qed

lemma in_range_iff:
  assumes "no_wrap p n"
  shows "in_range p n a \<longleftrightarrow> unat p \<le> unat a \<and> unat a < unat p + n"
proof (cases "p \<le> a")
  case True
  thus ?thesis
    by (auto simp: in_range_def unat_sub word_le_nat_alt)
next
  case False
  hence "unat a < unat p" by (simp add: word_le_nat_alt)
  hence "unat (a - p) = 2 ^ 64 - unat p + unat a"
    using unat_u64_bound [of p] by (simp add: unat_sub_if' less_imp_le)
  thus ?thesis
    using assms False \<open>unat a < unat p\<close> by (auto simp: in_range_def no_wrap_def)
qed

lemma in_range_of_nat: "i < n \<Longrightarrow> n \<le> 2 ^ 64 \<Longrightarrow> in_range p n (p + of_nat i)"
  by (simp add: in_range_def unat_of_nat_u64)

lemma in_rangeE:
  assumes "in_range p n a"
  obtains i where "i < n" "a = p + of_nat i"
proof
  show "unat (a - p) < n" using assms by (simp add: in_range_def)
  show "a = p + of_nat (unat (a - p))" by simp
qed

lemma in_range_Suc:
  assumes "Suc n \<le> 2 ^ 64"
  shows "in_range p (Suc n) a \<longleftrightarrow> a = p \<or> in_range (p + 1) n a"
proof (cases "a = p")
  case False
  hence "a - p \<noteq> 0" by simp
  hence "unat (a - (p + 1)) = unat (a - p) - 1"
    by (simp add: diff_diff_eq [symmetric] unat_minus_one)
  moreover have "0 < unat (a - p)"
    using \<open>a - p \<noteq> 0\<close> by (simp add: unat_gt_0)
  ultimately show ?thesis
    using False by (auto simp: in_range_def)
qed (simp add: in_range_def)

lemma in_range_0 [simp]: "\<not> in_range p 0 a"
  by (simp add: in_range_def)

lemma in_range_last:
  assumes "Suc n \<le> 2 ^ 64"
  shows "in_range p (Suc n) a \<longleftrightarrow> a = p + of_nat n \<or> in_range p n a"
proof -
  have "a = p + of_nat n \<longleftrightarrow> unat (a - p) = n"
  proof
    assume "unat (a - p) = n"
    hence "a - p = of_nat n" by auto
    thus "a = p + of_nat n" by (simp add: diff_eq_eq add.commute)
  qed (use assms in \<open>simp add: unat_of_nat_u64\<close>)
  thus ?thesis by (auto simp: in_range_def)
qed

section \<open>Copying and filling\<close>

lemma memcpy_loop_spec:
  assumes "i + k \<le> 2 ^ 64"
    and "\<And>x y. i \<le> x \<Longrightarrow> x < y \<Longrightarrow> y < i + k \<Longrightarrow> pdest + of_nat x \<noteq> psrc + of_nat y"
  shows "memcpy_loop pdest psrc i k m a =
           (if in_range (pdest + of_nat i) k a then m (psrc + (a - pdest)) else m a)"
  using assms
proof (induction k arbitrary: i m)
  case (Suc k)
  let ?m = "m(pdest + of_nat i := m (psrc + of_nat i))"
  have IH: "memcpy_loop pdest psrc (Suc i) k ?m a =
      (if in_range (pdest + of_nat (Suc i)) k a then ?m (psrc + (a - pdest)) else ?m a)"
    using Suc.prems by (intro Suc.IH) auto
  have keep: "?m (psrc + (a - pdest)) = m (psrc + (a - pdest))"
    if inr: "in_range (pdest + of_nat (Suc i)) k a"
  proof -
    obtain j where "j < k" and a: "a = pdest + of_nat (Suc i) + of_nat j"
      using inr by (rule in_rangeE)
    have "pdest + of_nat i \<noteq> psrc + of_nat (Suc i + j)"
      using \<open>j < k\<close> by (intro Suc.prems(2)) auto
    moreover have "psrc + (a - pdest) = psrc + of_nat (Suc i + j)"
      by (simp add: a)
    ultimately show ?thesis by simp
  qed
  have step: "in_range (pdest + of_nat i) (Suc k) a \<longleftrightarrow>
      a = pdest + of_nat i \<or> in_range (pdest + of_nat (Suc i)) k a"
    using in_range_Suc [of k "pdest + of_nat i" a] Suc.prems(1) by (simp add: algebra_simps)
  show ?case
    using IH keep unfolding step by (auto simp del: of_nat_Suc)
qed simp

lemma memmove_down_spec:
  assumes "k \<le> 2 ^ 64"
    and "\<And>x y. x < y \<Longrightarrow> y < k \<Longrightarrow> pdest + of_nat y \<noteq> psrc + of_nat x"
  shows "memmove_down pdest psrc k m a =
           (if in_range pdest k a then m (psrc + (a - pdest)) else m a)"
  using assms
proof (induction k arbitrary: m)
  case (Suc k)
  let ?m = "m(pdest + of_nat k := m (psrc + of_nat k))"
  have IH: "memmove_down pdest psrc k ?m a =
      (if in_range pdest k a then ?m (psrc + (a - pdest)) else ?m a)"
    using Suc.prems by (intro Suc.IH) auto
  have keep: "?m (psrc + (a - pdest)) = m (psrc + (a - pdest))" if inr: "in_range pdest k a"
  proof -
    obtain j where "j < k" and a: "a = pdest + of_nat j"
      using inr by (rule in_rangeE)
    have "pdest + of_nat k \<noteq> psrc + of_nat j"
      using \<open>j < k\<close> by (intro Suc.prems(2)) auto
    thus ?thesis by (simp add: a)
  qed
  show ?case
    using IH keep in_range_last [OF Suc.prems(1), of pdest a] by auto
qed simp

lemma memset_loop_spec:
  assumes "i + k \<le> 2 ^ 64"
  shows "memset_loop p c i k m a = (if in_range (p + of_nat i) k a then c else m a)"
  using assms
proof (induction k arbitrary: i m)
  case (Suc k)
  have "in_range (p + of_nat i) (Suc k) a \<longleftrightarrow>
      a = p + of_nat i \<or> in_range (p + of_nat (Suc i)) k a"
    using in_range_Suc [of k "p + of_nat i" a] Suc.prems by (simp add: algebra_simps)
  thus ?case
    using Suc.IH [of "Suc i"] Suc.prems by auto
qed simp

lemma memset_spec:
  "memset s c n m a = (if in_range s (unat n) a then ucast c else m a)"
  unfolding memset_def by (subst memset_loop_spec) (simp_all add: less_imp_le)

lemma memcpy_spec:
  assumes "disjoint_ranges dest (unat n) src (unat n)" "no_wrap dest (unat n)" "no_wrap src (unat n)"
  shows "memcpy dest src n m a = (if in_range dest (unat n) a then m (src + (a - dest)) else m a)"
proof -
  have "dest + of_nat x \<noteq> src + of_nat y" if "x < y" "y < unat n" for x y
  proof
    assume "dest + of_nat x = src + of_nat y"
    hence "unat (dest + of_nat x) = unat (src + of_nat y)" by (rule arg_cong)
    hence "unat dest + x = unat src + y"
      using that assms(2,3) by (simp add: unat_add_of_nat [where n = "unat n"])
    thus False
      using that assms(1) by (auto simp: disjoint_ranges_def)
  qed
  thus ?thesis
    unfolding memcpy_def by (subst memcpy_loop_spec) (simp_all add: less_imp_le)
qed

lemma memmove_spec:
  assumes wrap: "no_wrap dest (unat n)" "no_wrap src (unat n)"
  shows "memmove dest src n m a = (if in_range dest (unat n) a then m (src + (a - dest)) else m a)"
proof -
  have order: "unat dest + x = unat src + y"
    if "dest + of_nat x = src + of_nat y" "x < unat n" "y < unat n" for x y
    using arg_cong [OF that(1), of unat] that(2,3) wrap
    by (simp add: unat_add_of_nat [where n = "unat n"])
  consider "dest < src" | "src < dest" | "src = dest" by fastforce
  thus ?thesis
  proof cases
    case 1
    hence "dest + of_nat x \<noteq> src + of_nat y" if "x < y" "y < unat n" for x y
      using order [of x y] that by (auto simp: word_less_nat_alt)
    thus ?thesis
      using 1 unfolding memmove_def by (simp add: memcpy_loop_spec less_imp_le)
  next
    case 2
    hence "dest + of_nat y \<noteq> src + of_nat x" if "x < y" "y < unat n" for x y
      using order [of y x] that by (auto simp: word_less_nat_alt)
    thus ?thesis
      using 2 unfolding memmove_def by (simp add: memmove_down_spec less_imp_le less_not_sym)
  next
    case 3
    thus ?thesis by (simp add: memmove_def)
  qed
qed

lemma length_read_bytes [simp]: "length (read_bytes m p n) = n"
  by (induction n arbitrary: p) simp_all

lemma nth_read_bytes: "i < n \<Longrightarrow> read_bytes m p n ! i = m (p + of_nat i)"
proof (induction n arbitrary: p i)
  case (Suc n)
  thus ?case by (cases i) (simp_all add: algebra_simps)
qed simp

lemma take_read_bytes: "take i (read_bytes m p n) = read_bytes m p (min i n)"
  by (rule nth_equalityI) (simp_all add: nth_read_bytes)

lemma memcmp_loop_0_iff:
  "memcmp_loop m p1 p2 i k = 0 \<longleftrightarrow>
     read_bytes m (p1 + of_nat i) k = read_bytes m (p2 + of_nat i) k"
  by (induction k arbitrary: i) (simp_all add: algebra_simps)

lemma memcmp_0_iff:
  "memcmp m s1 s2 n = 0 \<longleftrightarrow> read_bytes m s1 (unat n) = read_bytes m s2 (unat n)"
  by (simp add: memcmp_def memcmp_loop_0_iff)

section \<open>Eight-byte accesses\<close>

lemma load64_unfold:
  "load64 m a = ucast (m a) OR push_bit 8 (ucast (m (a + 1))) OR push_bit 16 (ucast (m (a + 2))) OR
     push_bit 24 (ucast (m (a + 3))) OR push_bit 32 (ucast (m (a + 4))) OR
     push_bit 40 (ucast (m (a + 5))) OR push_bit 48 (ucast (m (a + 6))) OR
     push_bit 56 (ucast (m (a + 7)))"
  by (simp add: load64_def upt_rec ac_simps push_bit_or)

lemma store64_byte: "i < 8 \<Longrightarrow> store64 a v m (a + of_nat i) = ucast (drop_bit (8 * i) v)"
  by (simp add: store64_def unat_of_nat_u64)

lemma load64_store64_same [simp]: "load64 (store64 a v m) a = v"
proof -
  have byte: "store64 a v m a = ucast v" "store64 a v m (a + 1) = ucast (drop_bit 8 v)"
    "store64 a v m (a + 2) = ucast (drop_bit 16 v)" "store64 a v m (a + 3) = ucast (drop_bit 24 v)"
    "store64 a v m (a + 4) = ucast (drop_bit 32 v)" "store64 a v m (a + 5) = ucast (drop_bit 40 v)"
    "store64 a v m (a + 6) = ucast (drop_bit 48 v)" "store64 a v m (a + 7) = ucast (drop_bit 56 v)"
    by (simp_all add: store64_def)
  show ?thesis
    unfolding load64_unfold byte
  proof (rule bit_word_eqI)
    fix n :: nat
    assume "n < LENGTH(64)"
    hence "n < 8 \<or> 8 \<le> n \<and> n < 16 \<or> 16 \<le> n \<and> n < 24 \<or> 24 \<le> n \<and> n < 32 \<or>
        32 \<le> n \<and> n < 40 \<or> 40 \<le> n \<and> n < 48 \<or> 48 \<le> n \<and> n < 56 \<or> 56 \<le> n \<and> n < 64" by auto
    thus "bit (ucast (ucast v :: u8) OR push_bit 8 (ucast (ucast (drop_bit 8 v) :: u8)) OR
        push_bit 16 (ucast (ucast (drop_bit 16 v) :: u8)) OR
        push_bit 24 (ucast (ucast (drop_bit 24 v) :: u8)) OR
        push_bit 32 (ucast (ucast (drop_bit 32 v) :: u8)) OR
        push_bit 40 (ucast (ucast (drop_bit 40 v) :: u8)) OR
        push_bit 48 (ucast (ucast (drop_bit 48 v) :: u8)) OR
        push_bit 56 (ucast (ucast (drop_bit 56 v) :: u8)) :: u64) n = bit v n"
      unfolding bit_or_iff bit_push_bit_iff bit_unsigned_iff bit_drop_bit_eq o_def
      by (elim disjE conjE; simp add: less_diff_conv2)
  qed
qed

lemma load64_cong:
  "(\<And>i. i < 8 \<Longrightarrow> m (a + of_nat i) = m' (a + of_nat i)) \<Longrightarrow> load64 m a = load64 m' a"
  unfolding load64_def by (intro foldr_cong) auto

lemma load64_store64_other:
  assumes "8 \<le> unat (b - a)" "unat (b - a) \<le> 2 ^ 64 - 8"
  shows "load64 (store64 a v m) b = load64 m b"
proof (rule load64_cong)
  fix i :: nat
  assume "i < 8"
  hence "unat (b + of_nat i - a) = unat (b - a) + i"
    using assms unat_add_of_nat [of "b - a" 8 i] by (simp add: no_wrap_def algebra_simps)
  thus "store64 a v m (b + of_nat i) = m (b + of_nat i)"
    using assms by (simp add: store64_def)
qed

end
