(* ===== verification/Errno.thy ===== *)
theory Errno
  imports Prelude
begin

text \<open>
  The error numbers of errno.h, kept by name, and \<open>strerror\<close> of string.c.  The switch of
  \<open>strerror\<close> is the list of its case labels (with their values in errno.h) and messages in source
  order; the cases whose
  \<open>#ifdef\<close> fails with this errno.h are left out.
\<close>

section \<open>Error numbers\<close>

definition errno_table :: "(string \<times> int) list" where
  "errno_table = [
     (''EPERM'', 1), (''ENOENT'', 2), (''ESRCH'', 3), (''EINTR'', 4), (''EIO'', 5),
     (''ENXIO'', 6), (''E2BIG'', 7), (''ENOEXEC'', 8), (''EBADF'', 9), (''ECHILD'', 10),
     (''EAGAIN'', 11), (''ENOMEM'', 12), (''EACCES'', 13), (''EFAULT'', 14), (''ENOTBLK'', 15),
     (''EBUSY'', 16), (''EEXIST'', 17), (''EXDEV'', 18), (''ENODEV'', 19), (''ENOTDIR'', 20),
     (''EISDIR'', 21), (''EINVAL'', 22), (''ENFILE'', 23), (''EMFILE'', 24), (''ENOTTY'', 25),
     (''ETXTBSY'', 26), (''EFBIG'', 27), (''ENOSPC'', 28), (''ESPIPE'', 29), (''EROFS'', 30),
     (''EMLINK'', 31), (''EPIPE'', 32), (''EDOM'', 33), (''ERANGE'', 34), (''EDEADLK'', 35),
     (''ENAMETOOLONG'', 36), (''ENOLCK'', 37), (''ENOSYS'', 38), (''ENOTEMPTY'', 39),
     (''ELOOP'', 40), (''EWOULDBLOCK'', 11), (''ENOMSG'', 42), (''EIDRM'', 43), (''ECHRNG'', 44),
     (''EL2NSYNC'', 45), (''EL3HLT'', 46), (''EL3RST'', 47), (''ELNRNG'', 48), (''EUNATCH'', 49),
     (''ENOCSI'', 50), (''EL2HLT'', 51), (''EBADE'', 52), (''EBADR'', 53), (''EXFULL'', 54),
     (''ENOANO'', 55), (''EBADRQC'', 56), (''EBADSLT'', 57), (''EDEADLOCK'', 35),
     (''EBFONT'', 59), (''ENOSTR'', 60), (''ENODATA'', 61), (''ETIME'', 62), (''ENOSR'', 63),
     (''ENONET'', 64), (''ENOPKG'', 65), (''EREMOTE'', 66), (''ENOLINK'', 67), (''EADV'', 68),
     (''ESRMNT'', 69), (''ECOMM'', 70), (''EPROTO'', 71), (''EMULTIHOP'', 72), (''EDOTDOT'', 73),
     (''EBADMSG'', 74), (''EOVERFLOW'', 75), (''ENOTUNIQ'', 76), (''EBADFD'', 77),
     (''EREMCHG'', 78), (''ELIBACC'', 79), (''ELIBBAD'', 80), (''ELIBSCN'', 81),
     (''ELIBMAX'', 82), (''ELIBEXEC'', 83), (''EILSEQ'', 84), (''ERESTART'', 85),
     (''ESTRPIPE'', 86), (''EUSERS'', 87), (''ENOTSOCK'', 88), (''EDESTADDRREQ'', 89),
     (''EMSGSIZE'', 90), (''EPROTOTYPE'', 91), (''ENOPROTOOPT'', 92), (''EPROTONOSUPPORT'', 93),
     (''ESOCKTNOSUPPORT'', 94), (''EOPNOTSUPP'', 95), (''EPFNOSUPPORT'', 96),
     (''EAFNOSUPPORT'', 97), (''EADDRINUSE'', 98), (''EADDRNOTAVAIL'', 99), (''ENETDOWN'', 100),
     (''ENETUNREACH'', 101), (''ENETRESET'', 102), (''ECONNABORTED'', 103),
     (''ECONNRESET'', 104), (''ENOBUFS'', 105), (''EISCONN'', 106), (''ENOTCONN'', 107),
     (''ESHUTDOWN'', 108), (''ETOOMANYREFS'', 109), (''ETIMEDOUT'', 110),
     (''ECONNREFUSED'', 111), (''EHOSTDOWN'', 112), (''EHOSTUNREACH'', 113), (''EALREADY'', 114),
     (''EINPROGRESS'', 115), (''ESTALE'', 116), (''EUCLEAN'', 117), (''ENOTNAM'', 118),
     (''ENAVAIL'', 119), (''EISNAM'', 120), (''EREMOTEIO'', 121), (''EDQUOT'', 122),
     (''ENOMEDIUM'', 123), (''EMEDIUMTYPE'', 124), (''ECANCELED'', 125), (''ENOKEY'', 126),
     (''EKEYEXPIRED'', 127), (''EKEYREVOKED'', 128), (''EKEYREJECTED'', 129),
     (''EOWNERDEAD'', 130), (''ENOTRECOVERABLE'', 131)]"

section \<open>Messages\<close>

definition strerror_cases_1 :: "(int \<times> string) list" where
  "strerror_cases_1 = [
     (0, ''Success''), (1, ''Not owner''),
     (2, ''No such file or directory''), (3, ''No such process''),
     (4, ''Interrupted system call''), (5, ''I/O error''),
     (6, ''No such device or address''), (7, ''Arg list too long''),
     (8, ''Exec format error''),
     (114, ''Socket already connected''), (9, ''Bad file number''),
     (10, ''No children''),
     (89, ''Destination address required''),
     (11, ''No more processes''), (12, ''Not enough space''),
     (13, ''Permission denied''), (14, ''Bad address''),
     (15, ''Block device required''),
     (16, ''Device or resource busy''), (17, ''File exists''),
     (18, ''Cross-device link''), (19, ''No such device''),
     (20, ''Not a directory''), (112, ''Host is down''),
     (115, ''Connection already in progress''),
     (21, ''Is a directory''), (22, ''Invalid argument''),
     (100, ''Network interface is not configured''),
     (102, ''Connection aborted by network'')]"

definition strerror_cases_2 :: "(int \<times> string) list" where
  "strerror_cases_2 = [
     (23, ''Too many open files in system''),
     (24, ''File descriptor value too large''),
     (25, ''Not a character device''), (26, ''Text file busy''),
     (27, ''File too large''), (113, ''Host is unreachable''),
     (28, ''No space left on device''), (29, ''Illegal seek''),
     (30, ''Read-only file system''), (31, ''Too many links''),
     (32, ''Broken pipe''),
     (33, ''Mathematics argument out of domain of function''),
     (34, ''Result too large''),
     (42, ''No message of desired type''),
     (43, ''Identifier removed''), (84, ''Illegal byte sequence''),
     (35, ''Deadlock''), (101, ''Network is unreachable''),
     (37, ''No lock''), (60, ''Not a stream''),
     (62, ''Stream ioctl timeout''), (63, ''No stream resources''),
     (64, ''Machine is not on the network''), (65, ''No package''),
     (66, ''Resource is remote''),
     (67, ''Virtual circuit is gone''), (68, ''Advertise error''),
     (69, ''Srmount error'')]"

definition strerror_cases_3 :: "(int \<times> string) list" where
  "strerror_cases_3 = [
     (70, ''Communication error''), (71, ''Protocol error''),
     (93, ''Unknown protocol''),
     (72, ''Multihop attempted''), (74, ''Bad message''),
     (79, ''Cannot access a needed shared library''),
     (80, ''Accessing a corrupted shared library''),
     (81, ''.lib section in a.out corrupted''),
     (82, ''Attempting to link in more shared libraries than system limit''),
     (83, ''Cannot exec a shared library directly''),
     (38, ''Function not implemented''),
     (39, ''Directory not empty''),
     (36, ''File or path name too long''),
     (40, ''Too many symbolic links''),
     (105, ''No buffer space available''), (61, ''No data''),
     (97, ''Address family not supported by protocol family''),
     (91, ''Protocol wrong type for socket''),
     (88, ''Socket operation on non-socket''),
     (92, ''Protocol not available''),
     (108, ''Can't send after socket shutdown''),
     (111, ''Connection refused''),
     (104, ''Connection reset by peer'')]"

definition strerror_cases_4 :: "(int \<times> string) list" where
  "strerror_cases_4 = [
     (98, ''Address already in use''),
     (99, ''Address not available''),
     (103, ''Software caused connection abort''),
     (107, ''Socket is not connected''),
     (94, ''Socket type not supported''),
     (106, ''Socket is already connected''),
     (125, ''Operation canceled''),
     (131, ''State not recoverable''),
     (130, ''Previous owner died''),
     (86, ''Streams pipe error''),
     (95, ''Operation not supported on socket''),
     (75, ''Value too large for defined data type''),
     (90, ''Message too long''), (110, ''Connection timed out'')]"

definition strerror_cases :: "(int \<times> string) list" where
  "strerror_cases = strerror_cases_1 @ strerror_cases_2 @ strerror_cases_3 @ strerror_cases_4"

definition strerror :: "int \<Rightarrow> string" where
  "strerror errnum =
     (case map_of strerror_cases errnum of Some error \<Rightarrow> error | None \<Rightarrow> ''unknown error'')"

section \<open>The switch is well formed\<close>

lemma strerror_labels_known: "set (map fst strerror_cases) \<subseteq> insert 0 (set (map snd errno_table))"
  by code_simp

lemma strerror_labels_distinct: "distinct (map fst strerror_cases)"
  by code_simp

lemma strerror_messages: "\<forall>(n, e)\<in>set strerror_cases. e \<noteq> [] \<and> e \<noteq> ''unknown error''"
  by code_simp

text \<open>\<open>strerror\<close> gives every case label its own message and every other number the text
  ``unknown error''; it never returns an empty string.\<close>
lemma strerror_complete:
  "(strerror n = e \<and> e \<noteq> ''unknown error'' \<longleftrightarrow> (n, e) \<in> set strerror_cases) \<and> strerror n \<noteq> []"
proof (cases "map_of strerror_cases n")
  case None
  hence "(n, e) \<notin> set strerror_cases" by (auto simp: map_of_eq_None_iff image_iff)
  thus ?thesis using None by (auto simp: strerror_def)
next
  case (Some e')
  hence e': "(n, e') \<in> set strerror_cases" by (rule map_of_SomeD)
  have "(n, e) \<in> set strerror_cases \<longleftrightarrow> e = e'"
    using Some map_of_eq_Some_iff [OF strerror_labels_distinct, of n e] e' by auto
  thus ?thesis using Some strerror_messages e' by (auto simp: strerror_def)
qed

end
