(* ===== verification/Cstring.thy ===== *)
theory Cstring
  imports Kmem Errno
begin

text \<open>
  The string routines of string.c over the byte memory.  Loops that run to a NUL byte are partial
  functions: they do not return when there is none.  The lemmas show that the routines that read
  eight bytes at a time agree with a scan byte by byte, through the carry argument behind
  \<open>HASZERO\<close>: the word test is nonzero exactly when one of the eight bytes is zero.
\<close>

section \<open>Word-at-a-time tests\<close>

definition ONES :: u64 where
  "ONES = 0x0101010101010101"

definition HIGHS :: u64 where
  "HIGHS = 0x8080808080808080"

definition HASZERO :: "u64 \<Rightarrow> u64" where
  "HASZERO x = (x - ONES) AND NOT x AND HIGHS"

definition DETECTNULL :: "u64 \<Rightarrow> u64" where
  "DETECTNULL x = (x - 0x0101010101010101) AND NOT x AND 0x8080808080808080"

section \<open>memchr\<close>

fun memchr_align :: "mem \<Rightarrow> u64 \<Rightarrow> u8 \<Rightarrow> nat \<Rightarrow> u64 \<times> nat" where
  "memchr_align m s c 0 = (s, 0)"
| "memchr_align m s c (Suc n) =
     (if s AND 7 \<noteq> 0 \<and> m s \<noteq> c then memchr_align m (s + 1) c n else (s, Suc n))"

function memchr_words :: "mem \<Rightarrow> u64 \<Rightarrow> u64 \<Rightarrow> nat \<Rightarrow> u64 \<times> nat" where
  "memchr_words m w k n =
     (if 8 \<le> n \<and> HASZERO (load64 m w XOR k) = 0 then memchr_words m (w + 8) k (n - 8) else (w, n))"
  by pat_completeness auto
termination by (relation "measure (\<lambda>(m, w, k, n). n)") auto

declare memchr_words.simps [simp del]

fun memchr_bytes :: "mem \<Rightarrow> u64 \<Rightarrow> u8 \<Rightarrow> nat \<Rightarrow> u64 \<times> nat" where
  "memchr_bytes m s c 0 = (s, 0)"
| "memchr_bytes m s c (Suc n) = (if m s \<noteq> c then memchr_bytes m (s + 1) c n else (s, Suc n))"

definition memchr :: "mem \<Rightarrow> u64 \<Rightarrow> u32 \<Rightarrow> u64 \<Rightarrow> u64" where
  "memchr m src c n =
     (let c' = ucast c :: u8;
          (s1, n1) = memchr_align m src c' (unat n);
          (s2, n2) = (if n1 \<noteq> 0 \<and> m s1 \<noteq> c' then memchr_words m s1 (ONES * ucast c') n1 else (s1, n1));
          (s3, n3) = memchr_bytes m s2 c' n2
      in if n3 \<noteq> 0 then s3 else NULL)"

section \<open>strlen\<close>

partial_function (option) strlen_align :: "mem \<Rightarrow> u64 \<Rightarrow> (u64 \<times> bool) option" where
  "strlen_align m str =
     (if str AND 7 \<noteq> 0 then if m str = 0 then Some (str, True) else strlen_align m (str + 1)
      else Some (str, False))"

partial_function (option) skip_words :: "mem \<Rightarrow> u64 \<Rightarrow> u64 option" where
  "skip_words m a = (if DETECTNULL (load64 m a) = 0 then skip_words m (a + 8) else Some a)"

partial_function (option) skip_bytes :: "mem \<Rightarrow> u64 \<Rightarrow> u64 option" where
  "skip_bytes m str = (if m str \<noteq> 0 then skip_bytes m (str + 1) else Some str)"

definition strlen :: "mem \<Rightarrow> u64 \<Rightarrow> u64 option" where
  "strlen m start =
     (case strlen_align m start of
        None \<Rightarrow> None
      | Some (str, True) \<Rightarrow> Some (str - start)
      | Some (str, False) \<Rightarrow>
          (case skip_words m str of
             None \<Rightarrow> None
           | Some a \<Rightarrow> map_option (\<lambda>e. e - start) (skip_bytes m a)))"

fun strnlen_loop :: "mem \<Rightarrow> u64 \<Rightarrow> nat \<Rightarrow> u64" where
  "strnlen_loop m str 0 = str"
| "strnlen_loop m str (Suc n) = (if m str \<noteq> 0 then strnlen_loop m (str + 1) n else str)"

definition strnlen :: "mem \<Rightarrow> u64 \<Rightarrow> u64 \<Rightarrow> u64" where
  "strnlen m str n = strnlen_loop m str (unat n) - str"

section \<open>Copying\<close>

definition strcpy :: "u64 \<Rightarrow> u64 \<Rightarrow> mem \<Rightarrow> mem option" where
  "strcpy dest src m =
     (case strlen m src of None \<Rightarrow> None | Some n \<Rightarrow> Some (memcpy dest src (n + 1) m))"

definition strcat :: "u64 \<Rightarrow> u64 \<Rightarrow> mem \<Rightarrow> mem option" where
  "strcat dest src m =
     (case strlen m dest of None \<Rightarrow> None | Some n \<Rightarrow> strcpy (dest + n) src m)"

fun strncat_loop :: "u64 \<Rightarrow> u64 \<Rightarrow> nat \<Rightarrow> mem \<Rightarrow> mem" where
  "strncat_loop s1 s2 0 m = m"
| "strncat_loop s1 s2 (Suc n) m =
     (let c = m s2; m1 = m(s1 := c) in
      if c = 0 then m1
      else strncat_loop (s1 + 1) (s2 + 1) n (if n = 0 then m1(s1 + 1 := 0) else m1))"

definition strncat :: "u64 \<Rightarrow> u64 \<Rightarrow> u64 \<Rightarrow> mem \<Rightarrow> mem option" where
  "strncat s1 s2 n m =
     (case (if s1 AND 7 = 0 then skip_words m s1 else Some s1) of
        None \<Rightarrow> None
      | Some a \<Rightarrow>
          (case skip_bytes m a of
             None \<Rightarrow> None
           | Some e \<Rightarrow> Some (strncat_loop e s2 (unat n) m)))"

function strncpy_words :: "u64 \<Rightarrow> u64 \<Rightarrow> nat \<Rightarrow> mem \<Rightarrow> u64 \<times> u64 \<times> nat \<times> mem" where
  "strncpy_words dst src n m =
     (if 8 \<le> n \<and> DETECTNULL (load64 m src) = 0
      then strncpy_words (dst + 8) (src + 8) (n - 8) (store64 dst (load64 m src) m)
      else (dst, src, n, m))"
  by pat_completeness auto
termination by (relation "measure (\<lambda>(dst, src, n, m). n)") auto

declare strncpy_words.simps [simp del]

fun strncpy_bytes :: "u64 \<Rightarrow> u64 \<Rightarrow> nat \<Rightarrow> mem \<Rightarrow> u64 \<times> nat \<times> mem" where
  "strncpy_bytes dst src 0 m = (dst, 0, m)"
| "strncpy_bytes dst src (Suc n) m =
     (let c = m src; m1 = m(dst := c) in
      if c = 0 then (dst + 1, n, m1) else strncpy_bytes (dst + 1) (src + 1) n m1)"

fun strncpy_pad :: "u64 \<Rightarrow> nat \<Rightarrow> mem \<Rightarrow> mem" where
  "strncpy_pad dst 0 m = m"
| "strncpy_pad dst (Suc n) m = strncpy_pad (dst + 1) n (m(dst := 0))"

definition strncpy :: "u64 \<Rightarrow> u64 \<Rightarrow> u64 \<Rightarrow> mem \<Rightarrow> mem" where
  "strncpy dst0 src0 count m =
     (let (dst, src, n, m1) =
            (if (src0 AND 7) OR (dst0 AND 7) = 0 \<and> 8 \<le> unat count
             then strncpy_words dst0 src0 (unat count) m else (dst0, src0, unat count, m));
          (dst2, n2, m2) = strncpy_bytes dst src n m1
      in strncpy_pad dst2 n2 m2)"

section \<open>Comparison\<close>

partial_function (option) strcmp :: "mem \<Rightarrow> u64 \<Rightarrow> u64 \<Rightarrow> int option" where
  "strcmp m l r =
     (if m l = m r \<and> m l \<noteq> 0 then strcmp m (l + 1) (r + 1)
      else Some (int (unat (m l)) - int (unat (m r))))"

definition strcoll :: "mem \<Rightarrow> u64 \<Rightarrow> u64 \<Rightarrow> int option" where
  "strcoll m s1 s2 = strcmp m s1 s2"

datatype strncmp_words_result = Words_Equal | Words_Rest u64 u64 nat

function strncmp_words :: "mem \<Rightarrow> u64 \<Rightarrow> u64 \<Rightarrow> nat \<Rightarrow> strncmp_words_result" where
  "strncmp_words m a1 a2 n =
     (if 8 \<le> n \<and> load64 m a1 = load64 m a2 then
        (if n - 8 = 0 \<or> DETECTNULL (load64 m a1) \<noteq> 0 then Words_Equal
         else strncmp_words m (a1 + 8) (a2 + 8) (n - 8))
      else Words_Rest a1 a2 n)"
  by pat_completeness auto
termination by (relation "measure (\<lambda>(m, a1, a2, n). n)") auto

declare strncmp_words.simps [simp del]

fun strncmp_bytes :: "mem \<Rightarrow> u64 \<Rightarrow> u64 \<Rightarrow> nat \<Rightarrow> int" where
  "strncmp_bytes m s1 s2 0 = int (unat (m s1)) - int (unat (m s2))"
| "strncmp_bytes m s1 s2 (Suc n) =
     (if m s1 = m s2 then
        (if n = 0 \<or> m s1 = 0 then 0 else strncmp_bytes m (s1 + 1) (s2 + 1) n)
      else int (unat (m s1)) - int (unat (m s2)))"

definition strncmp :: "mem \<Rightarrow> u64 \<Rightarrow> u64 \<Rightarrow> u64 \<Rightarrow> int" where
  "strncmp m s1 s2 n =
     (if n = 0 then 0
      else if (s1 AND 7) OR (s2 AND 7) = 0 then
        (case strncmp_words m s1 s2 (unat n) of
           Words_Equal \<Rightarrow> 0
         | Words_Rest a1 a2 n' \<Rightarrow> strncmp_bytes m a1 a2 n')
      else strncmp_bytes m s1 s2 (unat n))"

section \<open>Searching\<close>

text \<open>The alignment loop of \<open>__strchrnul\<close> tests the address modulo \<open>ALIGN\<close>, which this file
  defines as 7.\<close>

partial_function (option) strchrnul_align :: "mem \<Rightarrow> u64 \<Rightarrow> u8 \<Rightarrow> (u64 \<times> bool) option" where
  "strchrnul_align m s c =
     (if s mod 7 \<noteq> 0 then if m s = 0 \<or> m s = c then Some (s, True) else strchrnul_align m (s + 1) c
      else Some (s, False))"

partial_function (option) strchrnul_words :: "mem \<Rightarrow> u64 \<Rightarrow> u64 \<Rightarrow> u64 option" where
  "strchrnul_words m w k =
     (if HASZERO (load64 m w) = 0 \<and> HASZERO (load64 m w XOR k) = 0 then strchrnul_words m (w + 8) k
      else Some w)"

partial_function (option) strchrnul_bytes :: "mem \<Rightarrow> u64 \<Rightarrow> u8 \<Rightarrow> u64 option" where
  "strchrnul_bytes m s c = (if m s \<noteq> 0 \<and> m s \<noteq> c then strchrnul_bytes m (s + 1) c else Some s)"

definition strchrnul :: "mem \<Rightarrow> u64 \<Rightarrow> u32 \<Rightarrow> u64 option" where
  "strchrnul m s c =
     (let c' = ucast c :: u8 in
      if c' = 0 then map_option (\<lambda>n. s + n) (strlen m s)
      else
        (case strchrnul_align m s c' of
           None \<Rightarrow> None
         | Some (s1, True) \<Rightarrow> Some s1
         | Some (s1, False) \<Rightarrow>
             (case strchrnul_words m s1 (ONES * ucast c') of
                None \<Rightarrow> None
              | Some w \<Rightarrow> strchrnul_bytes m w c')))"

definition strchr :: "mem \<Rightarrow> u64 \<Rightarrow> u32 \<Rightarrow> u64 option" where
  "strchr m s c = map_option (\<lambda>r. if m r = ucast c then r else NULL) (strchrnul m s c)"

partial_function (option) strrchr_loop :: "mem \<Rightarrow> u64 \<Rightarrow> u8 \<Rightarrow> u64 \<Rightarrow> u64 option" where
  "strrchr_loop m s c found =
     (case strchr m s (ucast c) of
        None \<Rightarrow> None
      | Some r \<Rightarrow> if r = NULL then Some found else strrchr_loop m (r + 1) c r)"

definition strrchr :: "mem \<Rightarrow> u64 \<Rightarrow> u32 \<Rightarrow> u64 option" where
  "strrchr m s i =
     (let c = ucast i :: u8 in
      if c \<noteq> 0 then strrchr_loop m s c NULL else strchr m s (ucast c))"

definition byteset_add :: "u64 list \<Rightarrow> u8 \<Rightarrow> u64 list" where
  "byteset_add bs b =
     bs[unat b div 64 := (bs ! (unat b div 64)) OR push_bit (unat b mod 64) 1]"

definition byteset_has :: "u64 list \<Rightarrow> u8 \<Rightarrow> bool" where
  "byteset_has bs b \<longleftrightarrow> (bs ! (unat b div 64)) AND push_bit (unat b mod 64) 1 \<noteq> 0"

partial_function (option) strcspn_set :: "mem \<Rightarrow> u64 \<Rightarrow> u64 list \<Rightarrow> u64 list option" where
  "strcspn_set m c bs = (if m c \<noteq> 0 then strcspn_set m (c + 1) (byteset_add bs (m c)) else Some bs)"

partial_function (option) strcspn_scan :: "mem \<Rightarrow> u64 \<Rightarrow> u64 list \<Rightarrow> u64 option" where
  "strcspn_scan m s bs =
     (if m s \<noteq> 0 \<and> \<not> byteset_has bs (m s) then strcspn_scan m (s + 1) bs else Some s)"

definition strcspn :: "mem \<Rightarrow> u64 \<Rightarrow> u64 \<Rightarrow> u64 option" where
  "strcspn m s c =
     (if m c = 0 \<or> m (c + 1) = 0 then map_option (\<lambda>e. e - s) (strchrnul m s (ucast (m c)))
      else
        (case strcspn_set m c (replicate 4 0) of
           None \<Rightarrow> None
         | Some bs \<Rightarrow> map_option (\<lambda>e. e - s) (strcspn_scan m s bs)))"

text \<open>The inner loops of \<open>strpbrk\<close>, \<open>strspn\<close> and \<open>strtok_r\<close> look a byte up in a NUL-terminated
  set of bytes.\<close>

partial_function (option) in_bytes :: "mem \<Rightarrow> u64 \<Rightarrow> u8 \<Rightarrow> bool option" where
  "in_bytes m c x = (if m c \<noteq> 0 then if x = m c then Some True else in_bytes m (c + 1) x else Some False)"

partial_function (option) strpbrk :: "mem \<Rightarrow> u64 \<Rightarrow> u64 \<Rightarrow> u64 option" where
  "strpbrk m s1 s2 =
     (if m s1 \<noteq> 0 then
        (case in_bytes m s2 (m s1) of
           None \<Rightarrow> None
         | Some found \<Rightarrow> if found then Some s1 else strpbrk m (s1 + 1) s2)
      else Some NULL)"

partial_function (option) strspn_loop :: "mem \<Rightarrow> u64 \<Rightarrow> u64 \<Rightarrow> u64 option" where
  "strspn_loop m s1 s2 =
     (if m s1 \<noteq> 0 then
        (case in_bytes m s2 (m s1) of
           None \<Rightarrow> None
         | Some found \<Rightarrow> if found then strspn_loop m (s1 + 1) s2 else Some s1)
      else Some s1)"

definition strspn :: "mem \<Rightarrow> u64 \<Rightarrow> u64 \<Rightarrow> u64 option" where
  "strspn m s1 s2 = map_option (\<lambda>e. e - s1) (strspn_loop m s1 s2)"

section \<open>Tokens\<close>

partial_function (option) strtok_skip :: "mem \<Rightarrow> u64 \<Rightarrow> u64 \<Rightarrow> u64 option" where
  "strtok_skip m s delim =
     (case in_bytes m delim (m s) of
        None \<Rightarrow> None
      | Some found \<Rightarrow> if found then strtok_skip m (s + 1) delim else Some s)"

partial_function (option) strtok_scan :: "mem \<Rightarrow> u64 \<Rightarrow> u64 \<Rightarrow> u64 option" where
  "strtok_scan m s delim =
     (case in_bytes m delim (m s) of
        None \<Rightarrow> None
      | Some found \<Rightarrow> if found \<or> m s = 0 then Some s else strtok_scan m (s + 1) delim)"

definition strtok_r :: "u64 \<Rightarrow> u64 \<Rightarrow> u64 \<Rightarrow> mem \<Rightarrow> (u64 \<times> u64 \<times> mem) option" where
  "strtok_r s0 delim last_ptr m =
     (let s = (if s0 = NULL then last_ptr else s0) in
      if s = NULL then Some (NULL, last_ptr, m)
      else
        (case strtok_skip m s delim of
           None \<Rightarrow> None
         | Some tok \<Rightarrow>
             if m tok = 0 then Some (NULL, NULL, m)
             else
               (case strtok_scan m (tok + 1) delim of
                  None \<Rightarrow> None
                | Some e \<Rightarrow>
                    if m e = 0 then Some (tok, NULL, m)
                    else Some (tok, e + 1, m(e := 0)))))"

text \<open>\<open>strtok\<close> keeps its position in a static variable.\<close>

definition strtok :: "u64 \<Rightarrow> u64 \<Rightarrow> u64 \<Rightarrow> mem \<Rightarrow> (u64 \<times> u64 \<times> mem) option" where
  "strtok s delim static_last m = strtok_r s delim static_last m"

fun strxfrm_copy :: "u64 \<Rightarrow> u64 \<Rightarrow> nat \<Rightarrow> nat \<Rightarrow> mem \<Rightarrow> (u64 \<times> nat \<times> bool) \<times> mem" where
  "strxfrm_copy s1 s2 0 res m = ((s2, res, False), m)"
| "strxfrm_copy s1 s2 (Suc n) res m =
     (let m1 = m(s1 := m s2) in
      if m s2 \<noteq> 0 then strxfrm_copy (s1 + 1) (s2 + 1) n (Suc res) m1 else ((s2, res, True), m1))"

definition strxfrm :: "u64 \<Rightarrow> u64 \<Rightarrow> u64 \<Rightarrow> mem \<Rightarrow> (u64 \<times> mem) option" where
  "strxfrm s1 s2 n m =
     (let ((s2', res, done), m1) = strxfrm_copy s1 s2 (unat n) 0 m in
      if done then Some (of_nat res, m1)
      else map_option (\<lambda>e. (of_nat res + (e - s2'), m1)) (skip_bytes m1 s2'))"

section \<open>The word test finds a zero byte\<close>

fun bytes_int :: "int list \<Rightarrow> int" where
  "bytes_int [] = 0"
| "bytes_int (b # bs) = b + 256 * bytes_int bs"

fun repeat_int :: "int \<Rightarrow> nat \<Rightarrow> int" where
  "repeat_int b 0 = 0"
| "repeat_int b (Suc n) = b + 256 * repeat_int b n"

lemma bit_byte_cons:
  assumes "0 \<le> b" "b < 256"
  shows "bit (b + 256 * x :: int) k \<longleftrightarrow> (if k < 8 then bit b k else bit x (k - 8))"
proof -
  have "take_bit 8 b = b" using assms by (simp add: take_bit_int_eq_self)
  hence "b + 256 * x = concat_bit 8 b x" by (simp add: concat_bit_eq push_bit_eq_mult)
  thus ?thesis by (auto simp: bit_concat_bit_iff)
qed

lemma byte_top_bit:
  assumes "0 \<le> b" "b < 256"
  shows "bit (b :: int) 7 \<longleftrightarrow> 128 \<le> b"
proof -
  have "b div 128 = (if 128 \<le> b then 1 else 0)"
    using assms int_div_pos_eq [of b 128 1 "b - 128"] by simp
  thus ?thesis by (simp add: bit_iff_odd)
qed

lemma bit_128: "bit (128 :: int) k \<longleftrightarrow> k = 7"
  using bit_exp_iff [of 7 k, where 'a = int] by simp

lemma byte_step_zero: "(255 + 256 * y) AND NOT (256 * x) AND (128 + 256 * h) \<noteq> (0 :: int)"
proof -
  have "bit (255 + 256 * y) 7" "\<not> bit (0 + 256 * x) 7" "bit (128 + 256 * h) 7"
    by (simp_all only: bit_byte_cons) (simp_all add: byte_top_bit)
  hence "bit ((255 + 256 * y) AND NOT (256 * x) AND (128 + 256 * h)) 7"
    by (simp add: bit_and_iff bit_not_iff)
  thus ?thesis by (metis bit_0_eq bot_apply bot_bool_def)
qed

lemma byte_step_nonzero:
  fixes b x y h :: int
  assumes "0 < b" "b < 256"
  shows "((b - 1) + 256 * y) AND NOT (b + 256 * x) AND (128 + 256 * h) = 0 \<longleftrightarrow> y AND NOT x AND h = 0"
proof -
  let ?l = "((b - 1) + 256 * y) AND NOT (b + 256 * x) AND (128 + 256 * h)" and ?r = "y AND NOT x AND h"
  have low: "\<not> (bit (b - 1) k \<and> \<not> bit b k \<and> bit (128 :: int) k)" for k
    using assms byte_top_bit [of b] byte_top_bit [of "b - 1"] by (auto simp: bit_128)
  have cons: "bit ((b - 1) + 256 * y) k = (if k < 8 then bit (b - 1) k else bit y (k - 8))"
    "bit (b + 256 * x) k = (if k < 8 then bit b k else bit x (k - 8))"
    "bit (128 + 256 * h) k = (if k < 8 then bit (128 :: int) k else bit h (k - 8))" for k
    using assms by (simp_all only: bit_byte_cons)
  have l: "bit ?l k \<longleftrightarrow> 8 \<le> k \<and> bit ?r (k - 8)" for k
    using low [of k] by (simp add: bit_and_iff bit_not_iff cons not_le)
  show ?thesis
  proof
    assume "?l = 0"
    hence "\<not> bit ?r k" for k using l [of "k + 8"] by simp
    thus "?r = 0" by (simp add: bit_eq_iff)
  next
    assume "?r = 0"
    hence "\<not> bit ?l k" for k using l [of k] by simp
    thus "?l = 0" by (simp only: bit_eq_iff bit_0_eq bot_apply) simp
  qed
qed

lemma zero_byte_int:
  assumes "\<forall>b\<in>set bs. 0 \<le> b \<and> b < 256"
  shows "(bytes_int bs - repeat_int 1 (length bs)) AND NOT (bytes_int bs) AND repeat_int 128 (length bs) = 0 \<longleftrightarrow>
    0 \<notin> set bs"
  using assms
proof (induction bs)
  case (Cons b bs)
  let ?x = "bytes_int bs" and ?n = "length bs"
  let ?y = "?x - repeat_int 1 ?n" and ?h = "repeat_int 128 ?n"
  have IH: "?y AND NOT ?x AND ?h = 0 \<longleftrightarrow> 0 \<notin> set bs" using Cons by simp
  show ?case
  proof (cases "b = 0")
    case True
    have eq: "0 + 256 * ?x - (1 + 256 * repeat_int 1 ?n) = 255 + 256 * (?y - 1)" by simp
    have "(0 + 256 * ?x - (1 + 256 * repeat_int 1 ?n)) AND NOT (0 + 256 * ?x) AND (128 + 256 * ?h) \<noteq> 0"
      unfolding eq using byte_step_zero [of "?y - 1" ?x ?h] by (simp only: add_0) simp
    thus ?thesis
      using True by (simp only: bytes_int.simps repeat_int.simps length_Cons list.set insert_iff simp_thms)
  next
    case False
    hence "0 < b" "b < 256" using Cons.prems by auto
    moreover have "b + 256 * ?x - (1 + 256 * repeat_int 1 ?n) = (b - 1) + 256 * ?y" by simp
    ultimately show ?thesis
      using byte_step_nonzero [of b ?y ?x ?h] IH False
      by (simp only: bytes_int.simps repeat_int.simps length_Cons list.set insert_iff) simp
  qed
qed simp

lemma word_of_int_u64_eq_0: "0 \<le> z \<Longrightarrow> z < 2 ^ 64 \<Longrightarrow> (word_of_int z :: u64) = 0 \<longleftrightarrow> z = 0"
  by (subst word_uint_eq_iff) (simp add: uint_word_of_int_eq take_bit_int_eq_self)

lemma uint_u8_bound: "uint (b :: u8) < 256"
  using unsigned_less [of b, where 'a = int] by simp

lemma or_push_byte: "(ucast (b :: u8) :: u64) OR push_bit 8 acc = word_of_int (uint b) + 256 * acc"
proof -
  have "\<not> bit (ucast b :: u64) n \<or> \<not> bit (push_bit 8 acc) n" for n
    using bit_imp_le_length [of b n] by (cases "n < 8") (auto simp: bit_push_bit_iff bit_ucast_iff)
  hence "ucast b + push_bit 8 acc = (ucast b :: u64) OR push_bit 8 acc" by (rule disjunctive_add)
  moreover have "push_bit 8 acc = 256 * acc" by (simp add: push_bit_eq_mult)
  moreover have "(ucast b :: u64) = word_of_int (uint b)" by (rule ucast_eq)
  ultimately show ?thesis by (simp only:)
qed

lemma load64_bytes_int:
  "load64 m a = word_of_int (bytes_int (map (\<lambda>i. uint (m (a + of_nat i))) [0..<8]))"
proof -
  have "foldr (\<lambda>i acc. word_of_int (uint (f i)) + 256 * acc) xs (0 :: u64) =
      word_of_int (bytes_int (map (\<lambda>i. uint (f i)) xs))" for f :: "nat \<Rightarrow> u8" and xs
    by (induction xs) simp_all
  thus ?thesis by (simp only: load64_def or_push_byte)
qed

lemma HASZERO_load64:
  "HASZERO (load64 m a) = 0 \<longleftrightarrow> (\<forall>i<8. m (a + of_nat i) \<noteq> 0)"
proof -
  let ?bs = "map (\<lambda>i. uint (m (a + of_nat i))) [0..<8]"
  let ?z = "(bytes_int ?bs - repeat_int 1 8) AND NOT (bytes_int ?bs) AND repeat_int 128 8"
  have r: "repeat_int 1 8 = 0x0101010101010101" "repeat_int 128 8 = 0x8080808080808080"
    by (simp_all add: numeral_eq_Suc)
  have "HASZERO (load64 m a) = word_of_int ?z"
    unfolding HASZERO_def load64_bytes_int r ONES_def HIGHS_def
    by (simp add: of_int_and_eq of_int_not_eq)
  moreover have "0 \<le> ?z" "?z \<le> 0x8080808080808080"
    unfolding r by (simp_all add: AND_upper2)
  hence "(word_of_int ?z :: u64) = 0 \<longleftrightarrow> ?z = 0"
    by (intro word_of_int_u64_eq_0) (simp_all only: power_numeral_even, simp_all)
  moreover have "?z = 0 \<longleftrightarrow> 0 \<notin> set ?bs"
    using zero_byte_int [of ?bs] by (simp add: uint_u8_bound)
  moreover have "0 \<notin> set ?bs \<longleftrightarrow> (\<forall>i<8. m (a + of_nat i) \<noteq> 0)"
    by (fastforce simp: uint_0_iff)
  ultimately show ?thesis by (simp only:)
qed

lemma DETECTNULL_HASZERO: "DETECTNULL x = HASZERO x"
  by (simp add: DETECTNULL_def HASZERO_def ONES_def HIGHS_def)

lemma bit_or_push_byte:
  "bit (ucast (b :: u8) OR push_bit 8 acc :: u64) n \<longleftrightarrow> n < 64 \<and> (if n < 8 then bit b n else bit acc (n - 8))"
  using bit_imp_le_length [of b n]
  by (cases "n < 8") (auto simp: bit_or_iff bit_push_bit_iff bit_ucast_iff)

lemma bit_foldr_bytes:
  "length xs \<le> 8 \<Longrightarrow> bit (foldr (\<lambda>i acc. ucast (f i :: u8) OR push_bit 8 acc) xs (0 :: u64)) n \<longleftrightarrow>
     n < 8 * length xs \<and> bit (f (xs ! (n div 8))) (n mod 8)"
proof (induction xs arbitrary: n)
  case (Cons x xs)
  show ?case
  proof (cases "n < 8")
    case False
    then obtain k where "n = k + 8" using le_Suc_ex [of 8 n] by (auto simp: add.commute not_less)
    moreover have "(k + 8) div 8 - Suc 0 = k div 8" by simp
    ultimately show ?thesis using Cons.IH [of k] Cons.prems by (auto simp: bit_or_push_byte)
  qed (simp add: bit_or_push_byte)
qed simp

lemma bit_load64: "bit (load64 m a) n \<longleftrightarrow> n < 64 \<and> bit (m (a + of_nat (n div 8))) (n mod 8)"
  unfolding load64_def by (subst bit_foldr_bytes) auto

lemma load64_xor: "load64 m a XOR load64 m' a = load64 (\<lambda>x. m x XOR m' x) a"
  by (rule bit_eqI) (auto simp: bit_xor_iff bit_load64)

lemma load64_const: "load64 (\<lambda>_. c) a = ONES * ucast c"
proof -
  have "bytes_int (map (\<lambda>i. x) xs) = repeat_int 1 (length xs) * x" for x :: int and xs :: "nat list"
    by (induction xs) (simp_all add: algebra_simps)
  hence "load64 (\<lambda>_. c) a = word_of_int (repeat_int 1 8 * uint c)"
    unfolding load64_bytes_int by simp
  moreover have "repeat_int 1 8 = 0x0101010101010101" by (simp add: numeral_eq_Suc)
  ultimately have "load64 (\<lambda>_. c) a = word_of_int (0x0101010101010101) * word_of_int (uint c)"
    by (simp only: of_int_mult)
  moreover have "(ucast c :: u64) = word_of_int (uint c)" by (rule ucast_eq)
  ultimately show ?thesis by (simp only: ONES_def of_int_numeral)
qed

lemma xor_zero_iff: "(a :: u8) XOR b = 0 \<longleftrightarrow> a = b"
  by (metis xor.assoc xor.right_neutral xor_self_eq)

lemma HASZERO_xor:
  "HASZERO (load64 m a XOR (ONES * ucast c)) = 0 \<longleftrightarrow> (\<forall>i<8. m (a + of_nat i) \<noteq> c)"
  by (simp only: load64_const [of c a, symmetric] load64_xor HASZERO_load64 xor_zero_iff)

section \<open>Strings in memory\<close>

definition cstr :: "mem \<Rightarrow> u64 \<Rightarrow> nat \<Rightarrow> bool" where
  "cstr m p n \<longleftrightarrow> n < 2 ^ 64 \<and> (\<forall>i<n. m (p + of_nat i) \<noteq> 0) \<and> m (p + of_nat n) = 0"

lemma cstr_drop:
  assumes "cstr m p n" "k \<le> n"
  shows "cstr m (p + of_nat k) (n - k)"
proof -
  have eq: "p + of_nat k + of_nat i = p + of_nat (k + i)" for i by (simp add: add.assoc)
  show ?thesis
    unfolding cstr_def eq using assms by (auto simp: cstr_def simp del: of_nat_add)
qed

lemma cstr_end: "cstr m p 0 \<longleftrightarrow> m p = 0"
  by (simp add: cstr_def)

lemma cstr_Suc: "cstr m p (Suc n) \<Longrightarrow> m p \<noteq> 0 \<and> cstr m (p + 1) n"
  using cstr_drop [of m p "Suc n" 1] by (auto simp: cstr_def)

lemma skip_bytes_cstr: "cstr m p n \<Longrightarrow> skip_bytes m p = Some (p + of_nat n)"
proof (induction n arbitrary: p)
  case 0
  thus ?case by (subst skip_bytes.simps) (simp add: cstr_end)
next
  case (Suc n)
  note c = cstr_Suc [OF Suc.prems]
  thus ?case using Suc.IH [of "p + 1"] by (subst skip_bytes.simps) (simp add: add.assoc)
qed

lemma skip_words_cstr:
  assumes "cstr m p n"
  shows "\<exists>k\<le>n. skip_words m p = Some (p + of_nat k)"
  using assms
proof (induction n arbitrary: p rule: less_induct)
  case (less n)
  show ?case
  proof (cases "\<forall>i<8. m (p + of_nat i) \<noteq> 0")
    case True
    have "8 \<le> n"
    proof (rule ccontr)
      assume "\<not> 8 \<le> n"
      thus False using True less.prems by (auto simp: cstr_def)
    qed
    then obtain k where "k \<le> n - 8" "skip_words m (p + 8) = Some (p + 8 + of_nat k)"
      using less.IH [of "n - 8" "p + 8"] cstr_drop [OF less.prems, of 8] by auto
    thus ?thesis
      using True \<open>8 \<le> n\<close> by (subst skip_words.simps)
        (auto simp: DETECTNULL_HASZERO HASZERO_load64 intro!: exI [of _ "k + 8"])
  next
    case False
    thus ?thesis
      by (subst skip_words.simps) (auto simp: DETECTNULL_HASZERO HASZERO_load64 intro!: exI [of _ 0])
  qed
qed

lemma strlen_align_cstr:
  "cstr m p n \<Longrightarrow> strlen_align m p = Some (p + of_nat n, True) \<or>
     (\<exists>k\<le>n. strlen_align m p = Some (p + of_nat k, False))"
proof (induction n arbitrary: p)
  case 0
  thus ?case by (subst (1 2) strlen_align.simps) (simp add: cstr_end)
next
  case (Suc n)
  note c = cstr_Suc [OF Suc.prems]
  show ?case
  proof (cases "p AND 7 = 0")
    case True
    thus ?thesis by (subst (1 2) strlen_align.simps) (auto intro: exI [of _ 0])
  next
    case False
    hence eq: "strlen_align m p = strlen_align m (p + 1)" using c by (subst strlen_align.simps) simp
    have add: "p + 1 + of_nat k = p + of_nat (Suc k)" for k by (simp add: add.assoc)
    show ?thesis using Suc.IH [of "p + 1"] c unfolding eq add by (meson Suc_le_mono)
  qed
qed

lemma strlen_cstr:
  assumes "cstr m p n"
  shows "strlen m p = Some (of_nat n)"
  using strlen_align_cstr [OF assms]
proof (elim disjE exE conjE)
  fix k assume k: "k \<le> n" "strlen_align m p = Some (p + of_nat k, False)"
  have c: "cstr m (p + of_nat k) (n - k)" by (rule cstr_drop [OF assms k(1)])
  obtain j where j: "j \<le> n - k" "skip_words m (p + of_nat k) = Some (p + of_nat k + of_nat j)"
    using skip_words_cstr [OF c] by blast
  have "skip_bytes m (p + of_nat k + of_nat j) = Some (p + of_nat n)"
    using skip_bytes_cstr [OF cstr_drop [OF c j(1)]] k(1) j(1) by (simp add: of_nat_diff)
  thus ?thesis using k j by (simp add: strlen_def)
qed (simp add: strlen_def)

section \<open>Scanning for a byte\<close>

definition first_byte :: "mem \<Rightarrow> u64 \<Rightarrow> (u8 \<Rightarrow> bool) \<Rightarrow> nat \<Rightarrow> bool" where
  "first_byte m p Q n \<longleftrightarrow> (\<forall>i<n. \<not> Q (m (p + of_nat i))) \<and> Q (m (p + of_nat n))"

lemma first_byte_drop:
  assumes "first_byte m p Q n" "k \<le> n"
  shows "first_byte m (p + of_nat k) Q (n - k)"
proof -
  have eq: "p + of_nat k + of_nat i = p + of_nat (k + i)" for i by (simp add: add.assoc)
  show ?thesis unfolding first_byte_def eq using assms by (auto simp: first_byte_def simp del: of_nat_add)
qed

lemma first_byte_Suc: "first_byte m p Q (Suc n) \<Longrightarrow> \<not> Q (m p) \<and> first_byte m (p + 1) Q n"
  using first_byte_drop [of m p Q "Suc n" 1] by (auto simp: first_byte_def)

lemma first_byte_0: "first_byte m p Q 0 \<longleftrightarrow> Q (m p)"
  by (simp add: first_byte_def)

lemma add_Suc_word: "(p :: u64) + 1 + of_nat k = p + of_nat (Suc k)"
  by (simp add: add.assoc)

lemma strchrnul_bytes_scan:
  "first_byte m p (\<lambda>b. b = 0 \<or> b = c) n \<Longrightarrow> strchrnul_bytes m p c = Some (p + of_nat n)"
proof (induction n arbitrary: p)
  case 0
  thus ?case by (subst strchrnul_bytes.simps) (auto simp: first_byte_0)
next
  case (Suc n)
  note f = first_byte_Suc [OF Suc.prems]
  thus ?case using Suc.IH [of "p + 1"] by (subst strchrnul_bytes.simps) (simp add: add.assoc)
qed

lemma strchrnul_align_scan:
  "first_byte m p (\<lambda>b. b = 0 \<or> b = c) n \<Longrightarrow> strchrnul_align m p c = Some (p + of_nat n, True) \<or>
     (\<exists>k\<le>n. strchrnul_align m p c = Some (p + of_nat k, False))"
proof (induction n arbitrary: p)
  case 0
  thus ?case by (subst (1 2) strchrnul_align.simps) (auto simp: first_byte_0)
next
  case (Suc n)
  note f = first_byte_Suc [OF Suc.prems]
  show ?case
  proof (cases "p mod 7 = 0")
    case True
    thus ?thesis by (subst (1 2) strchrnul_align.simps) (auto intro: exI [of _ 0])
  next
    case False
    hence eq: "strchrnul_align m p c = strchrnul_align m (p + 1) c"
      using f by (subst strchrnul_align.simps) simp
    show ?thesis using Suc.IH [of "p + 1"] f unfolding eq add_Suc_word by (meson Suc_le_mono)
  qed
qed

lemma strchrnul_words_scan:
  assumes "first_byte m p (\<lambda>b. b = 0 \<or> b = c) n"
  shows "\<exists>k\<le>n. strchrnul_words m p (ONES * ucast c) = Some (p + of_nat k)"
  using assms
proof (induction n arbitrary: p rule: less_induct)
  case (less n)
  show ?case
  proof (cases "\<forall>i<8. m (p + of_nat i) \<noteq> 0 \<and> m (p + of_nat i) \<noteq> c")
    case True
    have "8 \<le> n"
    proof (rule ccontr)
      assume "\<not> 8 \<le> n"
      thus False using True less.prems by (auto simp: first_byte_def)
    qed
    then obtain k where k: "k \<le> n - 8" "strchrnul_words m (p + 8) (ONES * ucast c) = Some (p + 8 + of_nat k)"
      using less.IH [of "n - 8" "p + 8"] first_byte_drop [OF less.prems, of 8] by auto
    have "HASZERO (load64 m p) = 0" "HASZERO (load64 m p XOR (ONES * ucast c)) = 0"
      using True by (simp_all only: HASZERO_load64 HASZERO_xor) auto
    thus ?thesis
      using k \<open>8 \<le> n\<close> by (subst strchrnul_words.simps) (auto intro!: exI [of _ "k + 8"])
  next
    case False
    hence "\<not> (HASZERO (load64 m p) = 0 \<and> HASZERO (load64 m p XOR (ONES * ucast c)) = 0)"
      unfolding HASZERO_load64 HASZERO_xor by blast
    thus ?thesis by (subst strchrnul_words.simps) (auto intro!: exI [of _ 0])
  qed
qed

lemma strchrnul_first:
  assumes c: "(ucast c :: u8) = b" "b \<noteq> 0" and f: "first_byte m p (\<lambda>x. x = 0 \<or> x = b) n"
  shows "strchrnul m p c = Some (p + of_nat n)"
  using strchrnul_align_scan [OF f]
proof (elim disjE exE conjE)
  fix k assume k: "k \<le> n" "strchrnul_align m p b = Some (p + of_nat k, False)"
  have g: "first_byte m (p + of_nat k) (\<lambda>x. x = 0 \<or> x = b) (n - k)" by (rule first_byte_drop [OF f k(1)])
  obtain j where j: "j \<le> n - k"
    "strchrnul_words m (p + of_nat k) (ONES * ucast b) = Some (p + of_nat k + of_nat j)"
    using strchrnul_words_scan [OF g] by blast
  have "strchrnul_bytes m (p + of_nat k + of_nat j) b = Some (p + of_nat n)"
    using strchrnul_bytes_scan [OF first_byte_drop [OF g j(1)]] k(1) j(1) by (simp add: of_nat_diff)
  thus ?thesis using k j c by (simp add: strchrnul_def Let_def)
qed (use c in \<open>simp add: strchrnul_def Let_def\<close>)

section \<open>memchr\<close>

definition skipped :: "mem \<Rightarrow> u64 \<Rightarrow> u8 \<Rightarrow> nat \<Rightarrow> u64 \<times> nat \<Rightarrow> bool" where
  "skipped m p c n r \<longleftrightarrow>
     (\<exists>k\<le>n. r = (p + of_nat k, n - k) \<and> (\<forall>i<k. m (p + of_nat i) \<noteq> c))"

lemma skipped_refl: "skipped m p c n (p, n)"
  by (auto simp: skipped_def intro: exI [of _ 0])

lemma skipped_trans:
  assumes "skipped m p c n (q, k)" "skipped m q c k r"
  shows "skipped m p c n r"
proof -
  obtain i where i: "i \<le> n" "q = p + of_nat i" "k = n - i" "\<forall>j<i. m (p + of_nat j) \<noteq> c"
    using assms(1) by (auto simp: skipped_def)
  obtain i' where i': "i' \<le> k" "r = (q + of_nat i', k - i')" "\<forall>j<i'. m (q + of_nat j) \<noteq> c"
    using assms(2) by (auto simp: skipped_def)
  have "m (p + of_nat j) \<noteq> c" if "j < i + i'" for j
  proof (cases "j < i")
    case False
    have "q + of_nat (j - i) = p + of_nat j" using False i(2) by (simp add: of_nat_diff)
    moreover have "j - i < i'" using that False by simp
    hence "m (q + of_nat (j - i)) \<noteq> c" using i'(3) by blast
    ultimately show ?thesis by metis
  qed (use i(4) in simp)
  thus ?thesis
    using i i' by (auto simp: skipped_def add.assoc intro!: exI [of _ "i + i'"])
qed

lemma skipped_one: "m p \<noteq> c \<Longrightarrow> skipped m p c (Suc n) (p + 1, n)"
  by (auto simp: skipped_def intro!: exI [of _ 1])

lemma skipped_eight:
  "8 \<le> n \<Longrightarrow> \<forall>i<8. m (p + of_nat i) \<noteq> c \<Longrightarrow> skipped m p c n (p + 8, n - 8)"
  by (auto simp: skipped_def intro!: exI [of _ 8])

lemma memchr_align_skipped: "skipped m p c n (memchr_align m p c n)"
  by (induction m p c n rule: memchr_align.induct)
    (auto simp: skipped_refl intro: skipped_trans [OF skipped_one])

lemma memchr_words_skipped: "skipped m p c n (memchr_words m p (ONES * ucast c) n)"
proof (induction n arbitrary: p rule: less_induct)
  case (less n)
  show ?case
    using less [of "n - 8" "p + 8"]
    by (subst memchr_words.simps)
      (auto simp: skipped_refl HASZERO_xor intro: skipped_trans [OF skipped_eight])
qed

lemma memchr_bytes_skipped:
  "skipped m p c n (memchr_bytes m p c n) \<and>
   (snd (memchr_bytes m p c n) = 0 \<or> m (fst (memchr_bytes m p c n)) = c)"
  by (induction m p c n rule: memchr_bytes.induct)
    (auto simp: skipped_refl intro: skipped_trans [OF skipped_one])

lemma memchr_skipped:
  obtains e k where "skipped m src (ucast c) (unat n) (e, k)" "k = 0 \<or> m e = ucast c"
    "memchr m src c n = (if k \<noteq> 0 then e else NULL)"
proof -
  let ?c = "ucast c :: u8"
  obtain s1 n1 where 1: "memchr_align m src ?c (unat n) = (s1, n1)" by fastforce
  define w where "w = (if n1 \<noteq> 0 \<and> m s1 \<noteq> ?c then memchr_words m s1 (ONES * ucast ?c) n1 else (s1, n1))"
  obtain s2 n2 where 2: "w = (s2, n2)" by fastforce
  obtain e k where 3: "memchr_bytes m s2 ?c n2 = (e, k)" by fastforce
  have "skipped m src ?c (unat n) (s1, n1)" using memchr_align_skipped [of m src ?c "unat n"] 1 by simp
  moreover have "skipped m s1 ?c n1 w" by (simp add: w_def skipped_refl memchr_words_skipped)
  ultimately have "skipped m src ?c (unat n) (s2, n2)" using 2 skipped_trans by metis
  hence "skipped m src ?c (unat n) (e, k)" "k = 0 \<or> m e = ?c"
    using memchr_bytes_skipped [of m s2 ?c n2] 3 by (auto intro: skipped_trans)
  moreover have "memchr m src c n = (if k \<noteq> 0 then e else NULL)"
    using 1 2 3 by (simp add: memchr_def Let_def w_def)
  ultimately show ?thesis by (rule that)
qed

section \<open>strcmp and strncmp\<close>

lemma strcmp_cstr:
  "cstr m l a \<Longrightarrow> cstr m r b \<Longrightarrow>
   \<exists>d. strcmp m l r = Some d \<and> (d = 0 \<longleftrightarrow> read_bytes m l a = read_bytes m r b)"
proof (induction a arbitrary: l r b)
  case 0
  show ?case
  proof (cases b)
    case 0
    with 0 \<open>cstr m l 0\<close> \<open>cstr m r b\<close> show ?thesis by (subst strcmp.simps) (simp add: cstr_end)
  next
    case (Suc b')
    with \<open>cstr m l 0\<close> cstr_Suc [of m r b'] \<open>cstr m r b\<close> show ?thesis
      by (subst strcmp.simps) (auto simp: cstr_end uint_0_iff)
  qed
next
  case (Suc a)
  note l = cstr_Suc [OF Suc.prems(1)]
  show ?case
  proof (cases b)
    case 0
    with Suc.prems(2) l show ?thesis by (subst strcmp.simps) (auto simp: cstr_end uint_0_iff)
  next
    case (Suc b')
    note r = cstr_Suc [OF Suc.prems(2) [unfolded Suc]]
    show ?thesis
    proof (cases "m l = m r")
      case True
      thus ?thesis using Suc.IH [of "l + 1" "r + 1" b'] l r Suc by (subst strcmp.simps) simp
    next
      case False
      hence "uint (m l) \<noteq> uint (m r)" by (simp add: word_uint_eq_iff)
      thus ?thesis using False Suc by (subst strcmp.simps) simp
    qed
  qed
qed

lemma load64_eq_bytes:
  assumes "load64 m a = load64 m b" "i < 8"
  shows "m (a + of_nat i) = m (b + of_nat i)"
proof (rule bit_eqI)
  fix n assume n: "possible_bit TYPE(8 word) n"
  hence "n < 8" by (simp add: possible_bit_def)
  have "bit (load64 m a) (8 * i + n) = bit (load64 m b) (8 * i + n)" using assms(1) by simp
  thus "bit (m (a + of_nat i)) n = bit (m (b + of_nat i)) n"
    using assms(2) \<open>n < 8\<close> by (simp add: bit_load64)
qed

lemma strncmp_bytes_skip:
  assumes "k < n" "\<forall>i<k. m (s1 + of_nat i) = m (s2 + of_nat i) \<and> m (s1 + of_nat i) \<noteq> 0"
  shows "strncmp_bytes m s1 s2 n = strncmp_bytes m (s1 + of_nat k) (s2 + of_nat k) (n - k)"
  using assms
proof (induction k arbitrary: s1 s2 n)
  case (Suc k)
  obtain n' where n': "n = Suc n'" "k < n'" using Suc.prems(1) by (cases n) auto
  have h: "m s1 = m s2" "m s1 \<noteq> 0" using Suc.prems(2) [rule_format, of 0] by auto
  have "\<forall>i<k. m (s1 + 1 + of_nat i) = m (s2 + 1 + of_nat i) \<and> m (s1 + 1 + of_nat i) \<noteq> 0"
    using Suc.prems(2) by (auto simp only: add_Suc_word)
  from Suc.IH [OF n'(2) this] show ?case using n' h by (simp add: add.assoc)
qed simp

lemma strncmp_bytes_equal:
  assumes "k < n" "\<forall>i\<le>k. m (s1 + of_nat i) = m (s2 + of_nat i)" "m (s1 + of_nat k) = 0 \<or> Suc k = n"
  shows "strncmp_bytes m s1 s2 n = 0"
  using assms
proof (induction k arbitrary: s1 s2 n)
  case 0
  thus ?case by (cases n) auto
next
  case (Suc k)
  obtain n' where n': "n = Suc n'" "k < n'" using Suc.prems(1) by (cases n) auto
  have h: "m s1 = m s2" using Suc.prems(2) [rule_format, of 0] by simp
  have "strncmp_bytes m (s1 + 1) (s2 + 1) n' = 0"
    using Suc.prems n' by (intro Suc.IH) (auto simp only: add_Suc_word)
  thus ?case using n' h by simp
qed

lemma strncmp_words_bytes:
  assumes "n \<noteq> 0"
  shows "strncmp_bytes m a1 a2 n =
    (case strncmp_words m a1 a2 n of Words_Equal \<Rightarrow> 0 | Words_Rest b1 b2 k \<Rightarrow> strncmp_bytes m b1 b2 k)"
  using assms
proof (induction n arbitrary: a1 a2 rule: less_induct)
  case (less n)
  show ?case
  proof (cases "8 \<le> n \<and> load64 m a1 = load64 m a2")
    case eq: True
    hence b: "\<forall>i<8. m (a1 + of_nat i) = m (a2 + of_nat i)" using load64_eq_bytes by blast
    show ?thesis
    proof (cases "n - 8 = 0 \<or> DETECTNULL (load64 m a1) \<noteq> 0")
      case True
      have "strncmp_bytes m a1 a2 n = 0"
      proof (cases "DETECTNULL (load64 m a1) = 0")
        case False
        then obtain k where "k < 8" "m (a1 + of_nat k) = 0"
          by (auto simp: DETECTNULL_HASZERO HASZERO_load64)
        thus ?thesis using b eq by (intro strncmp_bytes_equal [of k]) auto
      next
        case nz: True
        thus ?thesis using True b eq by (intro strncmp_bytes_equal [of 7]) auto
      qed
      thus ?thesis using True eq by (subst strncmp_words.simps) auto
    next
      case False
      hence "\<forall>i<8. m (a1 + of_nat i) \<noteq> 0" by (simp add: DETECTNULL_HASZERO HASZERO_load64)
      hence "strncmp_bytes m a1 a2 n = strncmp_bytes m (a1 + 8) (a2 + 8) (n - 8)"
        using strncmp_bytes_skip [of 8 n m a1 a2] b False by simp
      thus ?thesis
        using less.IH [of "n - 8" "a1 + 8" "a2 + 8"] False eq by (subst strncmp_words.simps) auto
    qed
  qed (subst strncmp_words.simps, auto)
qed

section \<open>Properties\<close>

text \<open>C21: \<open>strlen\<close>, which aligns its pointer, skips eight bytes at a time while the word test finds
  no zero byte and then counts bytes, returns the number of bytes before the first NUL, for every
  alignment of the string.\<close>
theorem strlen_counts_bytes:
  assumes "\<forall>i<n. m (p + of_nat i) \<noteq> 0" "m (p + of_nat n) = 0" "n < 2 ^ 64"
  shows "strlen m p = Some (of_nat n)"
  using assms by (intro strlen_cstr) (simp add: cstr_def)

theorem strlen_counts_bytes_witness:
  "strlen (\<lambda>a. if a = 0x1003 \<or> a = 0x1004 then 65 else 0) 0x1003 = Some 2"
  using strlen_counts_bytes [of 2 "\<lambda>a. if a = 0x1003 \<or> a = 0x1004 then 65 else 0" "0x1003"]
  by (auto simp: less_2_cases_iff)

text \<open>\<open>memchr\<close>, which also reads whole words, returns the address of the first of the \<open>n\<close> bytes
  that equals the given one, and NULL when there is none.\<close>
lemma memchr_finds_first:
  "memchr m src c n =
     (case find (\<lambda>i. m (src + of_nat i) = ucast c) [0..<unat n] of
        None \<Rightarrow> NULL | Some i \<Rightarrow> src + of_nat i)"
proof -
  obtain e k where s: "skipped m src (ucast c) (unat n) (e, k)" "k = 0 \<or> m e = ucast c"
    "memchr m src c n = (if k \<noteq> 0 then e else NULL)"
    by (rule memchr_skipped)
  then obtain j where j: "j \<le> unat n" "e = src + of_nat j" "k = unat n - j"
    "\<forall>i<j. m (src + of_nat i) \<noteq> ucast c"
    by (auto simp: skipped_def)
  show ?thesis
  proof (cases "k = 0")
    case True
    hence "find (\<lambda>i. m (src + of_nat i) = ucast c) [0..<unat n] = None"
      using j by (auto simp: find_None_iff)
    thus ?thesis using True s(3) by simp
  next
    case False
    hence "find (\<lambda>i. m (src + of_nat i) = ucast c) [0..<unat n] = Some j"
      using j s(2) by (auto simp: find_upt_Some_iff)
    thus ?thesis using False s(3) j(2) by simp
  qed
qed

text \<open>Comparing a word at a time does not change \<open>strncmp\<close>: for every alignment of the two
  strings its result is that of the byte loop.\<close>
lemma strncmp_words_agree:
  "strncmp m s1 s2 n = (if n = 0 then 0 else strncmp_bytes m s1 s2 (unat n))"
  using strncmp_words_bytes [of "unat n" m s1 s2] by (simp add: strncmp_def unat_eq_zero split: strncmp_words_result.split)

end
