(* ===== verification/Strstr.thy ===== *)
theory Strstr
  imports Cstring
begin

text \<open>
  Substring search (\<open>strstr\<close> of string.c and the two-way matcher of str-two-way.h): rolling
  comparisons for needles of two to four bytes, Quick-Search up to 254 bytes, and the two-way
  algorithm beyond.  Index arithmetic is that of \<open>size_t\<close>: the two-way code uses \<open>SIZE_MAX\<close> as
  the index before the first byte and relies on \<open>SIZE_MAX + 1 = 0\<close>.
\<close>

section \<open>Needles of two to four bytes\<close>

partial_function (option) strstr2_loop :: "mem \<Rightarrow> u32 \<Rightarrow> u32 \<Rightarrow> u64 \<Rightarrow> (u32 \<times> u64) option" where
  "strstr2_loop m h1 h2 hs =
     (if h1 \<noteq> h2 \<and> m hs \<noteq> 0 then strstr2_loop m h1 (push_bit 16 h2 OR ucast (m hs)) (hs + 1)
      else Some (h2, hs))"

definition strstr2 :: "mem \<Rightarrow> u64 \<Rightarrow> u64 \<Rightarrow> u64 option" where
  "strstr2 m hs ne =
     (let h1 = push_bit 16 (ucast (m ne)) OR ucast (m (ne + 1)) in
      map_option (\<lambda>(h2, e). if h1 = h2 then e - 2 else NULL) (strstr2_loop m h1 0 hs))"

partial_function (option) strstr3_loop :: "mem \<Rightarrow> u32 \<Rightarrow> u32 \<Rightarrow> u64 \<Rightarrow> (u32 \<times> u64) option" where
  "strstr3_loop m h1 h2 hs =
     (if h1 \<noteq> h2 \<and> m hs \<noteq> 0 then strstr3_loop m h1 (push_bit 8 (h2 OR ucast (m hs))) (hs + 1)
      else Some (h2, hs))"

definition strstr3 :: "mem \<Rightarrow> u64 \<Rightarrow> u64 \<Rightarrow> u64 option" where
  "strstr3 m hs ne =
     (let h1 = push_bit 24 (ucast (m ne)) OR push_bit 16 (ucast (m (ne + 1))) OR
               push_bit 8 (ucast (m (ne + 2))) in
      map_option (\<lambda>(h2, e). if h1 = h2 then e - 3 else NULL) (strstr3_loop m h1 0 hs))"

partial_function (option) strstr4_loop :: "mem \<Rightarrow> u32 \<Rightarrow> u32 \<Rightarrow> u64 \<Rightarrow> (u32 \<times> u64) option" where
  "strstr4_loop m h1 h2 hs =
     (if m hs \<noteq> 0 \<and> h1 \<noteq> h2 then strstr4_loop m h1 (push_bit 8 h2 OR ucast (m hs)) (hs + 1)
      else Some (h2, hs))"

definition strstr4 :: "mem \<Rightarrow> u64 \<Rightarrow> u64 \<Rightarrow> u64 option" where
  "strstr4 m hs ne =
     (let h1 = push_bit 24 (ucast (m ne)) OR push_bit 16 (ucast (m (ne + 1))) OR
               push_bit 8 (ucast (m (ne + 2))) OR ucast (m (ne + 3)) in
      map_option (\<lambda>(h2, e). if h1 = h2 then e - 4 else NULL) (strstr4_loop m h1 0 hs))"

section \<open>Critical factorization\<close>

partial_function (option) max_suffix_loop ::
  "(u8 \<Rightarrow> u8 \<Rightarrow> bool) \<Rightarrow> mem \<Rightarrow> u64 \<Rightarrow> u64 \<Rightarrow> u64 \<Rightarrow> u64 \<Rightarrow> u64 \<Rightarrow> u64 \<Rightarrow> (u64 \<times> u64) option" where
  "max_suffix_loop smaller m needle needle_len max_suffix j k p =
     (if j + k < needle_len then
        (let a = m (needle + (j + k)); b = m (needle + (max_suffix + k)) in
         if smaller a b then
           max_suffix_loop smaller m needle needle_len max_suffix (j + k) 1 (j + k - max_suffix)
         else if a = b then
           (if k \<noteq> p then max_suffix_loop smaller m needle needle_len max_suffix j (k + 1) p
            else max_suffix_loop smaller m needle needle_len max_suffix (j + p) 1 p)
         else max_suffix_loop smaller m needle needle_len j (j + 1) 1 1)
      else Some (max_suffix, p))"

definition critical_factorization :: "mem \<Rightarrow> u64 \<Rightarrow> u64 \<Rightarrow> (u64 \<times> u64) option" where
  "critical_factorization m needle needle_len =
     (case max_suffix_loop (\<lambda>a b. a < b) m needle needle_len UINT64_MAX 0 1 1 of
        None \<Rightarrow> None
      | Some (max_suffix, period) \<Rightarrow>
          (case max_suffix_loop (\<lambda>a b. b < a) m needle needle_len UINT64_MAX 0 1 1 of
             None \<Rightarrow> None
           | Some (max_suffix_rev, p) \<Rightarrow>
               if max_suffix_rev + 1 < max_suffix + 1 then Some (max_suffix + 1, period)
               else Some (max_suffix_rev + 1, p)))"

section \<open>Two-way search\<close>

definition AVAILABLE :: "mem \<Rightarrow> u64 \<Rightarrow> u64 \<Rightarrow> u64 \<Rightarrow> u64 \<Rightarrow> bool \<times> u64" where
  "AVAILABLE m h h_l j n_l =
     (if j \<le> h_l - n_l then (True, h_l)
      else (let h_l' = h_l + strnlen m (h + h_l) (n_l OR 2048) in (j \<le> h_l' - n_l, h_l')))"

definition MAX_OF :: "u64 \<Rightarrow> u64 \<Rightarrow> u64" where
  "MAX_OF a b = (if a < b then b else a)"

partial_function (option) match_right :: "mem \<Rightarrow> u64 \<Rightarrow> u64 \<Rightarrow> u64 \<Rightarrow> u64 \<Rightarrow> u64 \<Rightarrow> u64 option" where
  "match_right m needle haystack j bound i =
     (if i < bound \<and> m (needle + i) = m (haystack + (i + j))
      then match_right m needle haystack j bound (i + 1) else Some i)"

partial_function (option) match_left :: "mem \<Rightarrow> u64 \<Rightarrow> u64 \<Rightarrow> u64 \<Rightarrow> u64 \<Rightarrow> u64 \<Rightarrow> u64 option" where
  "match_left m needle haystack j memory i =
     (if memory < i + 1 \<and> m (needle + i) = m (haystack + (i + j))
      then match_left m needle haystack j memory (i - 1) else Some i)"

partial_function (option) match_left_all :: "mem \<Rightarrow> u64 \<Rightarrow> u64 \<Rightarrow> u64 \<Rightarrow> u64 \<Rightarrow> u64 option" where
  "match_left_all m needle haystack j i =
     (if i \<noteq> UINT64_MAX \<and> m (needle + i) = m (haystack + (i + j))
      then match_left_all m needle haystack j (i - 1) else Some i)"

partial_function (option) short_periodic ::
  "mem \<Rightarrow> u64 \<Rightarrow> u64 \<Rightarrow> u64 \<Rightarrow> u64 \<Rightarrow> u64 \<Rightarrow> u64 \<Rightarrow> u64 \<Rightarrow> u64 \<Rightarrow> u64 option" where
  "short_periodic m haystack haystack_len needle needle_len suffix period memory j =
     (let (avail, hl) = AVAILABLE m haystack haystack_len j needle_len in
      if avail then
        (case match_right m needle haystack j needle_len (MAX_OF suffix memory) of
           None \<Rightarrow> None
         | Some i \<Rightarrow>
             if needle_len \<le> i then
               (case match_left m needle haystack j memory (suffix - 1) of
                  None \<Rightarrow> None
                | Some i' \<Rightarrow>
                    if i' + 1 < memory + 1 then Some (haystack + j)
                    else short_periodic m haystack hl needle needle_len suffix period
                           (needle_len - period) (j + period))
             else short_periodic m haystack hl needle needle_len suffix period 0 (j + (i - suffix + 1)))
      else Some NULL)"

partial_function (option) short_distinct ::
  "mem \<Rightarrow> u64 \<Rightarrow> u64 \<Rightarrow> u64 \<Rightarrow> u64 \<Rightarrow> u64 \<Rightarrow> u64 \<Rightarrow> u64 \<Rightarrow> u64 option" where
  "short_distinct m haystack haystack_len needle needle_len suffix period j =
     (let (avail, hl) = AVAILABLE m haystack haystack_len j needle_len in
      if avail then
        (case match_right m needle haystack j needle_len suffix of
           None \<Rightarrow> None
         | Some i \<Rightarrow>
             if needle_len \<le> i then
               (case match_left_all m needle haystack j (suffix - 1) of
                  None \<Rightarrow> None
                | Some i' \<Rightarrow>
                    if i' = UINT64_MAX then Some (haystack + j)
                    else short_distinct m haystack hl needle needle_len suffix period (j + period))
             else short_distinct m haystack hl needle needle_len suffix period (j + (i - suffix + 1)))
      else Some NULL)"

definition two_way_short_needle :: "mem \<Rightarrow> u64 \<Rightarrow> u64 \<Rightarrow> u64 \<Rightarrow> u64 \<Rightarrow> u64 option" where
  "two_way_short_needle m haystack haystack_len needle needle_len =
     (case critical_factorization m needle needle_len of
        None \<Rightarrow> None
      | Some (suffix, period) \<Rightarrow>
          if memcmp m needle (needle + period) suffix = 0
          then short_periodic m haystack haystack_len needle needle_len suffix period 0 0
          else short_distinct m haystack haystack_len needle needle_len suffix
                 (MAX_OF suffix (needle_len - suffix) + 1) 0)"

fun shift_table_fill :: "mem \<Rightarrow> u64 \<Rightarrow> u64 \<Rightarrow> nat \<Rightarrow> nat \<Rightarrow> u64 list \<Rightarrow> u64 list" where
  "shift_table_fill m needle needle_len i 0 tab = tab"
| "shift_table_fill m needle needle_len i (Suc k) tab =
     shift_table_fill m needle needle_len (Suc i) k
       (tab[unat (m (needle + of_nat i)) := needle_len - of_nat i - 1])"

partial_function (option) long_periodic ::
  "mem \<Rightarrow> u64 \<Rightarrow> u64 \<Rightarrow> u64 \<Rightarrow> u64 \<Rightarrow> u64 \<Rightarrow> u64 \<Rightarrow> u64 list \<Rightarrow> u64 \<Rightarrow> u64 \<Rightarrow> u64 option" where
  "long_periodic m haystack haystack_len needle needle_len suffix period tab memory j =
     (let (avail, hl) = AVAILABLE m haystack haystack_len j needle_len in
      if avail then
        (let shift = tab ! unat (m (haystack + (j + needle_len - 1))) in
         if 0 < shift then
           long_periodic m haystack hl needle needle_len suffix period tab 0
             (j + (if memory \<noteq> 0 \<and> shift < period then needle_len - period else shift))
         else
           (case match_right m needle haystack j (needle_len - 1) (MAX_OF suffix memory) of
              None \<Rightarrow> None
            | Some i \<Rightarrow>
                if needle_len - 1 \<le> i then
                  (case match_left m needle haystack j memory (suffix - 1) of
                     None \<Rightarrow> None
                   | Some i' \<Rightarrow>
                       if i' + 1 < memory + 1 then Some (haystack + j)
                       else long_periodic m haystack hl needle needle_len suffix period tab
                              (needle_len - period) (j + period))
                else long_periodic m haystack hl needle needle_len suffix period tab 0
                       (j + (i - suffix + 1))))
      else Some NULL)"

partial_function (option) long_distinct ::
  "mem \<Rightarrow> u64 \<Rightarrow> u64 \<Rightarrow> u64 \<Rightarrow> u64 \<Rightarrow> u64 \<Rightarrow> u64 \<Rightarrow> u64 list \<Rightarrow> u64 \<Rightarrow> u64 option" where
  "long_distinct m haystack haystack_len needle needle_len suffix period tab j =
     (let (avail, hl) = AVAILABLE m haystack haystack_len j needle_len in
      if avail then
        (let shift = tab ! unat (m (haystack + (j + needle_len - 1))) in
         if 0 < shift then
           long_distinct m haystack hl needle needle_len suffix period tab (j + shift)
         else
           (case match_right m needle haystack j (needle_len - 1) suffix of
              None \<Rightarrow> None
            | Some i \<Rightarrow>
                if needle_len - 1 \<le> i then
                  (case match_left_all m needle haystack j (suffix - 1) of
                     None \<Rightarrow> None
                   | Some i' \<Rightarrow>
                       if i' = UINT64_MAX then Some (haystack + j)
                       else long_distinct m haystack hl needle needle_len suffix period tab (j + period))
                else long_distinct m haystack hl needle needle_len suffix period tab
                       (j + (i - suffix + 1))))
      else Some NULL)"

definition two_way_long_needle :: "mem \<Rightarrow> u64 \<Rightarrow> u64 \<Rightarrow> u64 \<Rightarrow> u64 \<Rightarrow> u64 option" where
  "two_way_long_needle m haystack haystack_len needle needle_len =
     (case critical_factorization m needle needle_len of
        None \<Rightarrow> None
      | Some (suffix, period) \<Rightarrow>
          (let tab = shift_table_fill m needle needle_len 0 (unat needle_len) (replicate 256 needle_len) in
           if memcmp m needle (needle + period) suffix = 0
           then long_periodic m haystack haystack_len needle needle_len suffix period tab 0 0
           else long_distinct m haystack haystack_len needle needle_len suffix
                  (MAX_OF suffix (needle_len - suffix) + 1) tab 0))"

section \<open>Quick-Search and strstr\<close>

fun qs_table :: "mem \<Rightarrow> u64 \<Rightarrow> u64 \<Rightarrow> nat \<Rightarrow> nat \<Rightarrow> u8 list \<Rightarrow> u8 list" where
  "qs_table m ne ne_len i 0 shift = shift"
| "qs_table m ne ne_len i (Suc k) shift =
     qs_table m ne ne_len (Suc i) k
       (shift[unat (m (ne + of_nat i)) mod 64 := ucast (ne_len - of_nat i)])"

definition qs_shift :: "mem \<Rightarrow> u8 list \<Rightarrow> u64 \<Rightarrow> u64 \<Rightarrow> u64" where
  "qs_shift m shift hs ne_len = ucast (shift ! (unat (m (hs + ne_len)) mod 64))"

partial_function (option) qs_inner ::
  "mem \<Rightarrow> u64 \<Rightarrow> u64 \<Rightarrow> u8 list \<Rightarrow> u64 \<Rightarrow> u64 \<Rightarrow> (u64 \<times> bool) option" where
  "qs_inner m ne ne_len shift end_ptr hs =
     (if hs \<le> end_ptr then
        (if memcmp m hs ne ne_len = 0 then Some (hs, True)
         else qs_inner m ne ne_len shift end_ptr (hs + qs_shift m shift hs ne_len))
      else Some (hs, False))"

partial_function (option) qs_outer ::
  "mem \<Rightarrow> u64 \<Rightarrow> u64 \<Rightarrow> u8 list \<Rightarrow> u64 \<Rightarrow> u64 \<Rightarrow> u64 option" where
  "qs_outer m ne ne_len shift end_ptr hs =
     (case qs_inner m ne ne_len shift end_ptr (hs - 1 + qs_shift m shift (hs - 1) ne_len) of
        None \<Rightarrow> None
      | Some r \<Rightarrow>
          if snd r then Some (fst r)
          else if m (end_ptr + ne_len) = 0 then Some NULL
          else
            (let end2 = end_ptr + strnlen m (end_ptr + ne_len) 2048 in
             if fst r \<le> end2 then qs_outer m ne ne_len shift end2 (fst r) else Some NULL))"

definition strstr :: "mem \<Rightarrow> u64 \<Rightarrow> u64 \<Rightarrow> u64 option" where
  "strstr m hs ne =
     (if m ne = 0 then Some hs
      else if m (ne + 1) = 0 then strchr m hs (ucast (m ne))
      else if m (ne + 2) = 0 then strstr2 m hs ne
      else if m (ne + 3) = 0 then strstr3 m hs ne
      else if m (ne + 4) = 0 then strstr4 m hs ne
      else
        (case strlen m ne of
           None \<Rightarrow> None
         | Some ne_len \<Rightarrow>
             (let hs_len = strnlen m hs (ne_len OR 512) in
              if hs_len < ne_len then Some NULL
              else if ne_len < 255 then
                (let shift = qs_table m ne ne_len 0 (unat ne_len) (replicate 64 (ucast (ne_len + 1)))
                 in qs_outer m ne ne_len shift (hs + hs_len - ne_len) hs)
              else two_way_long_needle m hs hs_len ne ne_len)))"

end
