(* ===== verification/Descriptors.thy ===== *)
theory Descriptors
  imports Kmem
begin

text \<open>
  Segment descriptors, the task state segment and the interrupt descriptor table (gdt.c, gdt.h,
  idt.c, idt.h).  The global descriptor table is the list of its seven entries, the interrupt
  descriptor table the list of its 256 gates; the task state segment is a packed structure in the
  byte memory.  The lemmas relate the encodings to the fields a processor reads from them.
\<close>

unbundle bit_operations_syntax

section \<open>Segment descriptors (gdt.c)\<close>

definition create_descriptor :: "u32 \<Rightarrow> u32 \<Rightarrow> u8 \<Rightarrow> u8 \<Rightarrow> u64" where
  "create_descriptor base limit access flags =
     (if limit > 0xFFFFF then 0
      else
        ucast (limit AND 0xFFFF) OR
        ucast (push_bit 16 (base AND 0xFFFF)) OR
        push_bit 32 (ucast (drop_bit 16 base AND 0xFF)) OR
        push_bit 40 (ucast access) OR
        push_bit 48 (ucast (drop_bit 16 limit AND 0xF)) OR
        push_bit 52 (ucast (flags AND 0xF)) OR
        push_bit 56 (ucast (drop_bit 24 base) AND 0xFF))"

definition create_tss_descriptor :: "u64 \<Rightarrow> u16 \<Rightarrow> u64 list \<Rightarrow> nat \<Rightarrow> u64 list" where
  "create_tss_descriptor base limit gdt_table index =
     (let low = ucast (limit AND 0xFFFF) OR
                push_bit 16 (base AND 0xFFFFFF) OR
                push_bit 40 0x89 OR
                push_bit 48 (ucast (drop_bit 16 (ucast limit :: u32) AND 0xF)) OR
                push_bit 56 (drop_bit 24 base AND 0xFF);
          high = drop_bit 32 base AND 0xFFFFFFFF
      in gdt_table[index := low, index + 1 := high])"

definition setup_gdt :: "u64 list \<Rightarrow> u64 list" where
  "setup_gdt gdt_table =
     gdt_table[0 := 0, 1 := create_descriptor 0 0xFFFFF 0x9a 0x0a, 2 := create_descriptor 0 0xFFFFF 0x92 0x0c,
       3 := create_descriptor 0 0xFFFFF 0xf2 0x0c, 4 := create_descriptor 0 0xFFFFF 0xfa 0x0a]"

definition store16 :: "u64 \<Rightarrow> u16 \<Rightarrow> mem \<Rightarrow> mem" where
  "store16 a v m = m(a := ucast v, a + 1 := ucast (drop_bit 8 v))"

text \<open>The structure is packed: \<open>rsp\<close> is at offset 4, \<open>ist\<close> at 36, \<open>iomap_base\<close> at 102, and its size
  is 104.  \<open>sizeof(tss)\<close> is the size of a pointer.\<close>

definition setup_tss :: "u64 \<Rightarrow> u64 list \<Rightarrow> mem \<Rightarrow> u64 list \<times> mem" where
  "setup_tss tss gdt_table m =
     (let m1 = memset tss 0 8 m;
          m2 = store64 (tss + 4) 0x1000000 m1;
          m3 = store64 (tss + 44) 0x11000000 m2;
          m4 = store16 (tss + 102) 8 m3
      in (create_tss_descriptor tss 104 gdt_table 5, m4))"

record GDTPtr =
  gdtr_limit :: u16
  gdtr_base :: u64

record segments =
  gdtr :: GDTPtr
  seg_cs :: u16
  seg_ds :: u16
  seg_es :: u16
  seg_fs :: u16
  seg_gs :: u16
  seg_ss :: u16
  task_register :: u16
  seg_irq :: bool

definition load_gdt :: "u64 \<Rightarrow> segments \<Rightarrow> segments" where
  "load_gdt gdt_table s =
     s\<lparr>gdtr := \<lparr>gdtr_limit = 8 * 7 - 1, gdtr_base = gdt_table\<rparr>, seg_cs := 0x08,
       seg_ds := 0x10, seg_es := 0x10, seg_fs := 0x10, seg_gs := 0x10, seg_ss := 0x10, seg_irq := True\<rparr>"

definition load_tss :: "segments \<Rightarrow> segments" where
  "load_tss s = s\<lparr>task_register := 0x28\<rparr>"

section \<open>Interrupt gates (idt.c)\<close>

record idt_entry =
  isr_low :: u16
  kernel_cs :: u16
  ist :: u8
  attributes :: u8
  isr_mid :: u16
  isr_high :: u32
  reserved :: u32

definition idt_set_descriptor :: "u8 \<Rightarrow> u64 \<Rightarrow> u8 \<Rightarrow> idt_entry list \<Rightarrow> idt_entry list" where
  "idt_set_descriptor vector isr flags idt =
     idt[unat vector :=
       \<lparr>isr_low = ucast (isr AND 0xFFFF), kernel_cs = 0x08, ist = 0, attributes = flags,
        isr_mid = ucast (drop_bit 16 isr AND 0xFFFF), isr_high = ucast (drop_bit 32 isr AND 0xFFFFFFFF),
        reserved = 0\<rparr>]"

definition idt_init :: "(nat \<Rightarrow> u64) \<Rightarrow> idt_entry list \<Rightarrow> idt_entry list" where
  "idt_init isr_stub_table idt =
     fold (\<lambda>v. idt_set_descriptor (of_nat v) (isr_stub_table v) 0x8E) [0..<256] idt"

section \<open>What the processor reads\<close>

definition desc_base :: "u64 \<Rightarrow> u64" where
  "desc_base d = take_bit 24 (drop_bit 16 d) OR push_bit 24 (drop_bit 56 d)"

definition desc_limit :: "u64 \<Rightarrow> u64" where
  "desc_limit d = take_bit 16 d OR push_bit 16 (take_bit 4 (drop_bit 48 d))"

definition desc_access :: "u64 \<Rightarrow> u8" where
  "desc_access d = ucast (drop_bit 40 d)"

definition desc_flags :: "u64 \<Rightarrow> u64" where
  "desc_flags d = take_bit 4 (drop_bit 52 d)"

definition gate_offset :: "idt_entry \<Rightarrow> u64" where
  "gate_offset e = ucast (isr_low e) OR push_bit 16 (ucast (isr_mid e)) OR push_bit 32 (ucast (isr_high e))"

lemma and_masks:
  "(x :: 'a::len word) AND 0xF = take_bit 4 x" "x AND 0xFF = take_bit 8 x" "x AND 0xFFFF = take_bit 16 x"
  "x AND 0xFFFFFF = take_bit 24 x" "x AND 0xFFFFFFFF = take_bit 32 x"
  by (simp_all add: take_bit_eq_mask mask_eq_exp_minus_1)

lemma limit_bits:
  assumes "(limit :: u32) \<le> 0xFFFFF" "bit limit n"
  shows "n < 20"
proof (rule ccontr)
  assume "\<not> n < 20"
  have "unat limit < 2 ^ 20" using assms(1) by (simp add: word_le_nat_alt)
  hence "unat limit div 2 ^ n = 0"
    using power_increasing [of 20 n "2 :: nat"] \<open>\<not> n < 20\<close> by (intro div_less) simp
  moreover have "bit (unat limit) n" using assms(2) by (simp add: bit_unsigned_iff)
  ultimately show False by (simp add: bit_iff_odd)
qed

lemma create_descriptor_bit:
  assumes "limit \<le> 0xFFFFF"
  shows "bit (create_descriptor base limit access flags) n \<longleftrightarrow>
     n < 16 \<and> bit limit n \<or> 16 \<le> n \<and> n < 40 \<and> bit base (n - 16) \<or> 40 \<le> n \<and> n < 48 \<and> bit access (n - 40) \<or>
     48 \<le> n \<and> n < 52 \<and> bit limit (n - 32) \<or> 52 \<le> n \<and> n < 56 \<and> bit flags (n - 52) \<or>
     56 \<le> n \<and> n < 64 \<and> bit base (n - 32)"
proof -
  have lim: "\<not> limit > 0xFFFFF" using assms by simp
  have over: "\<not> bit (access :: u8) k" if "8 \<le> k" for k using that bit_imp_le_length [of access k] by auto
  consider "n < 16" | k where "n = 16 + k" "k < 16" | k where "n = 32 + k" "k < 8" | k where "n = 40 + k" "k < 8"
    | k where "n = 48 + k" "k < 4" | k where "n = 52 + k" "k < 4" | k where "n = 56 + k" "k < 8"
    | k where "n = 64 + k"
  proof -
    consider "n < 16" | "16 \<le> n" "n - 16 < 16" | "32 \<le> n" "n - 32 < 8" | "40 \<le> n" "n - 40 < 8"
      | "48 \<le> n" "n - 48 < 4" | "52 \<le> n" "n - 52 < 4" | "56 \<le> n" "n - 56 < 8" | "64 \<le> n" by linarith
    thus thesis using that by cases (force simp: le_iff_add)+
  qed
  thus ?thesis
    by cases (auto simp: create_descriptor_def lim and_masks bit_simps over)
qed

lemma create_descriptor_fields:
  fixes base limit :: u32 and access flags :: u8
  assumes "limit \<le> 0xFFFFF"
  defines "d \<equiv> create_descriptor base limit access flags"
  shows "desc_base d = ucast base" "desc_limit d = ucast limit" "desc_access d = access"
    "desc_flags d = ucast (take_bit 4 flags)"
proof -
  have b: "bit d n \<longleftrightarrow>
     n < 16 \<and> bit limit n \<or> 16 \<le> n \<and> n < 40 \<and> bit base (n - 16) \<or> 40 \<le> n \<and> n < 48 \<and> bit access (n - 40) \<or>
     48 \<le> n \<and> n < 52 \<and> bit limit (n - 32) \<or> 52 \<le> n \<and> n < 56 \<and> bit flags (n - 52) \<or>
     56 \<le> n \<and> n < 64 \<and> bit base (n - 32)" for n
    unfolding d_def by (rule create_descriptor_bit [OF assms(1)])
  have base: "n < 32" if "bit base n" for n using bit_imp_le_length [OF that] by simp
  show "desc_base d = ucast base"
  proof (rule bit_word_eqI)
    fix n assume "n < LENGTH(64)"
    thus "bit (desc_base d) n = bit (ucast base :: u64) n"
      using base [of n] by (cases "n < 24") (auto simp: desc_base_def bit_simps b)
  qed
  show "desc_limit d = ucast limit"
  proof (rule bit_word_eqI)
    fix n assume "n < LENGTH(64)"
    thus "bit (desc_limit d) n = bit (ucast limit :: u64) n"
      using limit_bits [OF assms(1), of n] by (cases "n < 16") (auto simp: desc_limit_def bit_simps b)
  qed
  show "desc_access d = access"
    by (rule bit_word_eqI) (auto simp: desc_access_def bit_simps b)
  show "desc_flags d = ucast (take_bit 4 flags)"
    by (rule bit_word_eqI) (auto simp: desc_flags_def bit_simps b)
qed

lemma tss_descriptor_base:
  fixes base :: u64 and limit :: u16 and gdt :: "u64 list"
  assumes "index + 1 < length gdt"
  defines "t \<equiv> create_tss_descriptor base limit gdt index"
  shows "desc_base (t ! index) OR push_bit 32 (t ! (index + 1)) = base"
proof (rule bit_word_eqI)
  fix n assume "n < LENGTH(64)"
  moreover have "\<not> bit (limit :: u16) k" if "16 \<le> k" for k using that bit_imp_le_length [of limit k] by auto
  moreover have "bit (0x89 :: u64) k \<longleftrightarrow> k = 0 \<or> k = 3 \<or> k = 7" for k
    by (auto simp: bit_numeral_rec bit_1_iff split: nat.splits)
  ultimately show "bit (desc_base (t ! index) OR push_bit 32 (t ! (index + 1))) n = bit base n"
    using assms(1) by (cases "n < 24"; cases "n < 32")
      (auto simp: t_def create_tss_descriptor_def Let_def desc_base_def and_masks bit_simps)
qed

lemma gate_offset_bits:
  "gate_offset \<lparr>isr_low = ucast (isr AND 0xFFFF), kernel_cs = c, ist = i, attributes = a,
      isr_mid = ucast (drop_bit 16 isr AND 0xFFFF), isr_high = ucast (drop_bit 32 isr AND 0xFFFFFFFF),
      reserved = r\<rparr> = isr"
proof (rule bit_word_eqI)
  fix n assume "n < LENGTH(64)"
  thus "bit (gate_offset \<lparr>isr_low = ucast (isr AND 0xFFFF), kernel_cs = c, ist = i, attributes = a,
      isr_mid = ucast (drop_bit 16 isr AND 0xFFFF), isr_high = ucast (drop_bit 32 isr AND 0xFFFFFFFF),
      reserved = r\<rparr>) n = bit isr n"
    by (cases "n < 16"; cases "n < 32") (auto simp: gate_offset_def and_masks bit_simps)
qed

lemma idt_fill:
  fixes stubs :: "nat \<Rightarrow> u64" and idt :: "idt_entry list"
  assumes "n \<le> 256" "length idt = 256"
  defines "t \<equiv> fold (\<lambda>v. idt_set_descriptor (of_nat v) (stubs v) 0x8E) [0..<n] idt"
  shows "length t = 256 \<and> (\<forall>v<n. gate_offset (t ! v) = stubs v \<and> kernel_cs (t ! v) = 8 \<and> attributes (t ! v) = 0x8E)"
  unfolding t_def using assms(1)
proof (induction n)
  case (Suc n)
  define u where "u = fold (\<lambda>v. idt_set_descriptor (of_nat v) (stubs v) 0x8E) [0..<n] idt"
  have IH: "length u = 256" "\<forall>v<n. gate_offset (u ! v) = stubs v \<and> kernel_cs (u ! v) = 8 \<and> attributes (u ! v) = 0x8E"
    using Suc by (auto simp: u_def)
  have n: "unat (of_nat n :: u8) = n" by (rule unat_of_nat_small) (use Suc.prems in simp)
  have eq: "fold (\<lambda>v. idt_set_descriptor (of_nat v) (stubs v) 0x8E) [0..<Suc n] idt = idt_set_descriptor (of_nat n) (stubs n) 0x8E u"
    by (simp add: u_def)
  show ?case unfolding eq using IH Suc.prems
    by (auto simp: idt_set_descriptor_def n nth_list_update gate_offset_bits less_Suc_eq)
qed (simp add: assms(2))

section \<open>Properties\<close>



text \<open>After \<open>idt_init\<close> every one of the 256 vectors has a present ring-0 interrupt gate in the
  kernel code segment whose offset is exactly the address of its stub.\<close>
lemma idt_init_routes_every_vector:
  assumes "length idt = 256" "v < 256"
  shows "gate_offset (idt_init stubs idt ! v) = stubs v \<and> kernel_cs (idt_init stubs idt ! v) = 8 \<and>
     attributes (idt_init stubs idt ! v) = 0x8E"
  using idt_fill [OF order_refl assms(1), of stubs] assms(2) by (simp add: idt_init_def)

lemma idt_init_routes_every_vector_witness:
  "gate_offset (idt_init (\<lambda>v. 0xffffffff80001000 + 16 * of_nat v) (replicate 256
     \<lparr>isr_low = 0, kernel_cs = 0, ist = 0, attributes = 0, isr_mid = 0, isr_high = 0, reserved = 0\<rparr>) ! 72) =
   0xffffffff80001480"
  using idt_init_routes_every_vector [of "replicate 256
     \<lparr>isr_low = 0, kernel_cs = 0, ist = 0, attributes = 0, isr_mid = 0, isr_high = 0, reserved = 0\<rparr>" 72
     "\<lambda>v. 0xffffffff80001000 + 16 * of_nat v"]
  by simp

end
