(* ===== verification/Vmm.thy ===== *)
theory Vmm
  imports Kmem
begin

text \<open>
  The kernel heap (vmm.c, vmm.h).  The singly linked list of \<open>heap_page\<close> nodes that
  \<open>init_heap\<close> builds is never relinked, so it is a list in link order: a node
  pointer is a position, and the position \<open>length\<close> is the NULL after the last node.
  One node stands for one 64-byte chunk of the virtual range that starts at
  \<open>HEAP_START_VIRT_DEFINED\<close>.

  The lemmas relate \<open>kmalloc\<close> to a first-fit reference, give \<open>kfree\<close> its exact
  effect on the nodes, and show a well-formedness invariant of the node list kept by
  both.  Two properties bound what the allocator guarantees: heaps whose used nodes
  form a prefix hand out disjoint blocks, and a hole breaks that.
\<close>

section \<open>Constants and state\<close>

definition HEAP_START_VIRT_DEFINED :: u64 where
  "HEAP_START_VIRT_DEFINED = 0xffffc00000000000"

definition HEAP_SIZE_DEFINED :: u64 where
  "HEAP_SIZE_DEFINED = 0x4000000"

definition PAGE_SIZE_DEFINED :: u64 where
  "PAGE_SIZE_DEFINED = 0x1000"

definition HEAP_CHUNK_SIZE_DEFINED :: u64 where
  "HEAP_CHUNK_SIZE_DEFINED = 64"

record heap_page =
  hp_status :: u8
  hp_size :: u64
  hp_alloc_length :: u64

record vmm = machine +
  heap_pages :: "heap_page list"

definition new_heap_page :: heap_page where
  "new_heap_page = \<lparr>hp_status = 0, hp_size = HEAP_CHUNK_SIZE_DEFINED, hp_alloc_length = 0\<rparr>"

section \<open>Allocation\<close>

datatype probe_result = Probe_Full | Probe_Used | Probe_At nat

fun kmalloc_probe :: "heap_page list \<Rightarrow> nat \<Rightarrow> nat \<Rightarrow> probe_result" where
  "kmalloc_probe hs probe 0 = Probe_At probe"
| "kmalloc_probe hs probe (Suc i) =
     (if Suc probe \<ge> length hs then Probe_Full
      else if hp_status (hs ! probe) = 1 then Probe_Used
      else kmalloc_probe hs (Suc probe) i)"

fun kmalloc_set :: "heap_page list \<Rightarrow> nat \<Rightarrow> nat \<Rightarrow> heap_page list" where
  "kmalloc_set hs probe 0 = hs"
| "kmalloc_set hs probe (Suc k) =
     kmalloc_set (hs[probe := (hs ! probe)\<lparr>hp_status := 1\<rparr>]) (Suc probe) k"

definition kmalloc_commit :: "heap_page list \<Rightarrow> nat \<Rightarrow> u64 \<Rightarrow> heap_page list" where
  "kmalloc_commit hs current sz =
     (let hs' = kmalloc_set hs current (unat sz)
      in hs'[current := (hs' ! current)\<lparr>hp_alloc_length := sz\<rparr>])"

function kmalloc_loop :: "heap_page list \<Rightarrow> u64 \<Rightarrow> nat \<Rightarrow> u64 \<Rightarrow> u64 \<times> heap_page list" where
  "kmalloc_loop hs sz current index =
     (if current < length hs then
        (if hp_status (hs ! current) = 0 then
           (case kmalloc_probe hs current (unat (sz - 1)) of
              Probe_Full \<Rightarrow> (NULL, hs)
            | Probe_Used \<Rightarrow> kmalloc_loop hs sz (Suc current) index
            | Probe_At probe \<Rightarrow>
                if hp_status (hs ! probe) = 0 then
                  (HEAP_START_VIRT_DEFINED + index * HEAP_CHUNK_SIZE_DEFINED,
                   kmalloc_commit hs current sz)
                else kmalloc_loop hs sz (Suc current) (index + 1))
         else kmalloc_loop hs sz (Suc current) (index + 1))
      else (NULL, hs))"
  by pat_completeness auto
termination
  by (relation "measure (\<lambda>(hs, sz, current, index). length hs - current)") auto

declare kmalloc_loop.simps [simp del]

definition kmalloc :: "u64 \<Rightarrow> 'a vmm_scheme \<Rightarrow> u64 \<times> 'a vmm_scheme" where
  "kmalloc sz s =
     (let (irq, s1) = irq_disable_save s in
      if sz = 0 then (NULL, irq_restore (Some irq) s1)
      else (let (ret, hs) = kmalloc_loop (heap_pages s1) sz 0 0
            in (ret, irq_restore (Some irq) (s1\<lparr>heap_pages := hs\<rparr>))))"

definition kmalloc_byte :: "u64 \<Rightarrow> 'a vmm_scheme \<Rightarrow> u64 \<times> 'a vmm_scheme" where
  "kmalloc_byte sz s =
     (let (irq, s1) = irq_disable_save s in
      if sz = 0 then kmalloc 0 (irq_restore (Some irq) s1)
      else if sz \<le> 64 then kmalloc 1 (irq_restore (Some irq) s1)
      else if sz mod 64 = 0 then kmalloc (sz div 64) (irq_restore (Some irq) s1)
      else kmalloc (sz div 64 + 1) (irq_restore (Some irq) s1))"

definition kmalloc_byte_interruptable :: "u64 \<Rightarrow> 'a vmm_scheme \<Rightarrow> u64 \<times> 'a vmm_scheme" where
  "kmalloc_byte_interruptable sz s =
     (if sz = 0 then kmalloc 0 s
      else if sz \<le> 64 then kmalloc 1 s
      else if sz mod 64 = 0 then kmalloc (sz div 64) s
      else kmalloc (sz div 64 + 1) s)"

section \<open>Release\<close>

fun heap_advance :: "heap_page list \<Rightarrow> nat \<Rightarrow> nat \<Rightarrow> nat option" where
  "heap_advance hs current 0 = Some current"
| "heap_advance hs current (Suc i) =
     (if current < length hs then heap_advance hs (Suc current) i else None)"

fun kfree_clear :: "heap_page list \<Rightarrow> nat \<Rightarrow> nat \<Rightarrow> heap_page list option" where
  "kfree_clear hs current 0 = Some hs"
| "kfree_clear hs current (Suc i) =
     (if current < length hs
      then kfree_clear (hs[current := (hs ! current)\<lparr>hp_status := 0\<rparr>]) (Suc current) i
      else None)"

definition heap_index :: "u64 \<Rightarrow> u64" where
  "heap_index virt_address = (virt_address - HEAP_START_VIRT_DEFINED) div HEAP_CHUNK_SIZE_DEFINED"

definition kfree_nodes :: "u64 \<Rightarrow> heap_page list \<Rightarrow> heap_page list option" where
  "kfree_nodes virt_address hs =
     (case heap_advance hs 0 (unat (heap_index virt_address) - 1) of
        None \<Rightarrow> None
      | Some current \<Rightarrow>
          if current < length hs then
            kfree_clear (hs[current := (hs ! current)\<lparr>hp_alloc_length := 0\<rparr>]) current
              (unat (hp_alloc_length (hs ! current)) - 1)
          else None)"

definition kfree :: "u64 \<Rightarrow> 'a vmm_scheme \<Rightarrow> 'a vmm_scheme option" where
  "kfree virt_address s =
     (let (irq, s1) = irq_disable_save s in
      case kfree_nodes virt_address (heap_pages s1) of
        None \<Rightarrow> None
      | Some hs \<Rightarrow> Some (irq_restore (Some irq) (s1\<lparr>heap_pages := hs\<rparr>)))"

definition kfree_interruptable :: "u64 \<Rightarrow> 'a vmm_scheme \<Rightarrow> 'a vmm_scheme option" where
  "kfree_interruptable virt_address s = kfree virt_address s"

section \<open>Reallocation\<close>

definition krealloc_byte :: "u64 \<Rightarrow> u64 \<Rightarrow> 'a vmm_scheme \<Rightarrow> (u64 \<times> 'a vmm_scheme) option" where
  "krealloc_byte virt_address sz s =
     (let (irq, s1) = irq_disable_save s;
          (ret, s2) = kmalloc_byte_interruptable sz s1
      in if ret = NULL then Some (ret, irq_restore (Some irq) s2)
         else if virt_address = NULL then Some (ret, irq_restore (Some irq) s2)
         else
           (case heap_advance (heap_pages s2) 0 (unat (heap_index virt_address)) of
              None \<Rightarrow> None
            | Some current \<Rightarrow>
                if current < length (heap_pages s2) then
                  (let alloc_length_node = hp_alloc_length (heap_pages s2 ! current);
                       count = (if alloc_length_node * 64 \<ge> sz then sz
                                else alloc_length_node * 64);
                       s3 = s2\<lparr>kmem := memcpy ret virt_address count (kmem s2)\<rparr>
                   in case kfree virt_address s3 of
                        None \<Rightarrow> None
                      | Some s4 \<Rightarrow> Some (ret, irq_restore (Some irq) s4))
                else None))"

section \<open>Boot-time self test (main.c)\<close>

definition test_memory_fill :: "u64 \<Rightarrow> mem \<Rightarrow> mem" where
  "test_memory_fill x = fold (\<lambda>i. store64 (x + of_nat (8 * i)) (of_nat i)) [0..<10]"

definition test_memory :: "'a vmm_scheme \<Rightarrow> (bool \<times> 'a vmm_scheme) option" where
  "test_memory s =
     (let (x, s1) = kmalloc 10 s;
          s2 = s1\<lparr>kmem := test_memory_fill x (kmem s1)\<rparr>;
          head = hd (heap_pages s2)
      in if \<not> (load64 (kmem s2) x = 0 \<and> load64 (kmem s2) (x + 8 * 5) = 5) \<and>
            hp_status head = 1 \<and> hp_alloc_length head = 10
         then Some (False, s2)
         else case kfree x s2 of
                None \<Rightarrow> None
              | Some s3 \<Rightarrow>
                  Some (hp_status (hd (heap_pages s3)) = 0 \<and>
                        hp_alloc_length (hd (heap_pages s3)) = 0, s3))"

section \<open>Client histories\<close>

text \<open>The pointers and chunk counts a client holds after a history of \<open>kmalloc\<close> and
  \<open>kfree\<close> calls from a heap of \<open>n\<close> free nodes, in which the first block is never freed.\<close>

inductive heap_trace :: "nat \<Rightarrow> vmm \<Rightarrow> (u64 \<times> u64) set \<Rightarrow> bool" for n where
  heap_start: "heap_pages s = replicate n new_heap_page \<Longrightarrow> heap_trace n s {}"
| heap_alloc: "heap_trace n s L \<Longrightarrow> kmalloc sz s = (p, s') \<Longrightarrow> p \<noteq> NULL \<Longrightarrow>
    heap_trace n s' (insert (p, sz) L)"
| heap_fail: "heap_trace n s L \<Longrightarrow> kmalloc sz s = (NULL, s') \<Longrightarrow> heap_trace n s' L"
| heap_free: "heap_trace n s L \<Longrightarrow> (p, sz) \<in> L \<Longrightarrow> p \<noteq> HEAP_START_VIRT_DEFINED \<Longrightarrow>
    kfree p s = Some s' \<Longrightarrow> heap_trace n s' (L - {(p, sz)})"

section \<open>Reference notions\<close>

definition chunk_addr :: "nat \<Rightarrow> u64" where
  "chunk_addr k = HEAP_START_VIRT_DEFINED + of_nat k * HEAP_CHUNK_SIZE_DEFINED"

definition fits_at :: "heap_page list \<Rightarrow> nat \<Rightarrow> nat \<Rightarrow> bool" where
  "fits_at hs n k \<longleftrightarrow> k + n \<le> length hs \<and> (\<forall>j<n. hp_status (hs ! (k + j)) = 0)"

definition first_fit :: "heap_page list \<Rightarrow> nat \<Rightarrow> nat option" where
  "first_fit hs n = find (fits_at hs n) [0..<length hs]"

definition probe_blocked :: "heap_page list \<Rightarrow> nat \<Rightarrow> nat \<Rightarrow> bool" where
  "probe_blocked hs p r \<longleftrightarrow> (\<exists>i<r. Suc (p + i) < length hs \<and> hp_status (hs ! (p + i)) = 1)"

definition kmalloc_skip :: "heap_page list \<Rightarrow> nat \<Rightarrow> nat \<Rightarrow> bool" where
  "kmalloc_skip hs n k \<longleftrightarrow> hp_status (hs ! k) = 0 \<and> probe_blocked hs k (n - 1)"

definition kmalloc_index :: "heap_page list \<Rightarrow> nat \<Rightarrow> nat \<Rightarrow> nat" where
  "kmalloc_index hs n k = length (filter (\<lambda>j. \<not> kmalloc_skip hs n j) [0..<k])"

definition block_ok :: "heap_page list \<Rightarrow> nat \<Rightarrow> nat \<Rightarrow> bool" where
  "block_ok hs k n \<longleftrightarrow> k + n \<le> length hs \<and>
     (\<forall>j<n. hp_status (hs ! (k + j)) = 1 \<and> (j \<noteq> 0 \<longrightarrow> hp_alloc_length (hs ! (k + j)) = 0))"

definition heap_wf :: "heap_page list \<Rightarrow> bool" where
  "heap_wf hs \<longleftrightarrow>
     (\<forall>k<length hs. hp_status (hs ! k) = 0 \<or> hp_status (hs ! k) = 1) \<and>
     (\<forall>k<length hs. hp_alloc_length (hs ! k) \<noteq> 0 \<longrightarrow>
        block_ok hs k (unat (hp_alloc_length (hs ! k))))"

definition heap_prefix :: "nat \<Rightarrow> heap_page list \<Rightarrow> bool" where
  "heap_prefix m hs \<longleftrightarrow> m \<le> length hs \<and>
     (\<forall>k<length hs. hp_status (hs ! k) = (if k < m then 1 else 0))"

section \<open>The search loop is first fit\<close>

lemma heap_wf_status:
  "heap_wf hs \<Longrightarrow> k < length hs \<Longrightarrow> hp_status (hs ! k) = 0 \<or> hp_status (hs ! k) = 1"
  by (simp add: heap_wf_def)

lemma kmalloc_probe_spec:
  "p < length hs \<Longrightarrow>
   kmalloc_probe hs p r =
     (if probe_blocked hs p r then Probe_Used
      else if p + r < length hs then Probe_At (p + r) else Probe_Full)"
proof (induction r arbitrary: p)
  case (Suc r)
  have "Suc p < length hs \<Longrightarrow>
      probe_blocked hs p (Suc r) \<longleftrightarrow> hp_status (hs ! p) = 1 \<or> probe_blocked hs (Suc p) r"
    by (auto simp: probe_blocked_def Ex_less_Suc2)
  moreover have "\<not> Suc p < length hs \<Longrightarrow> \<not> probe_blocked hs p (Suc r)"
    by (auto simp: probe_blocked_def)
  ultimately show ?case
    using Suc by (cases "Suc p < length hs") auto
qed (simp add: probe_blocked_def)

lemma fits_at_status: "fits_at hs n k \<Longrightarrow> k \<le> j \<Longrightarrow> j < k + n \<Longrightarrow> hp_status (hs ! j) = 0"
  using le_Suc_ex [of k j] by (auto simp: fits_at_def)

lemma block_ok_status: "block_ok hs k n \<Longrightarrow> k \<le> j \<Longrightarrow> j < k + n \<Longrightarrow> hp_status (hs ! j) = 1"
  using le_Suc_ex [of k j] by (auto simp: block_ok_def)

lemma not_fits_at_status: "0 < n \<Longrightarrow> hp_status (hs ! k) \<noteq> 0 \<Longrightarrow> \<not> fits_at hs n k"
  by (auto simp: fits_at_def)

definition kmalloc_result :: "heap_page list \<Rightarrow> u64 \<Rightarrow> nat \<Rightarrow> u64 \<Rightarrow> u64 \<times> heap_page list" where
  "kmalloc_result hs sz current index =
     (case find (fits_at hs (unat sz)) [current..<length hs] of
        None \<Rightarrow> (NULL, hs)
      | Some k \<Rightarrow>
          (HEAP_START_VIRT_DEFINED +
             (index + of_nat (length (filter (\<lambda>j. \<not> kmalloc_skip hs (unat sz) j) [current..<k]))) *
             HEAP_CHUNK_SIZE_DEFINED,
           kmalloc_commit hs k sz))"

lemma kmalloc_result_None:
  "length hs < current + unat sz \<Longrightarrow> kmalloc_result hs sz current index = (NULL, hs)"
proof -
  assume "length hs < current + unat sz"
  hence "find (fits_at hs (unat sz)) [current..<length hs] = None"
    by (auto simp: find_upt_None_iff fits_at_def)
  thus ?thesis by (simp add: kmalloc_result_def)
qed

lemma kmalloc_result_here:
  "fits_at hs (unat sz) current \<Longrightarrow> current < length hs \<Longrightarrow>
   kmalloc_result hs sz current index =
     (HEAP_START_VIRT_DEFINED + index * HEAP_CHUNK_SIZE_DEFINED, kmalloc_commit hs current sz)"
  by (simp add: kmalloc_result_def upt_conv_Cons)

lemma kmalloc_result_next:
  assumes "\<not> fits_at hs (unat sz) current" "current < length hs"
  shows "kmalloc_result hs sz current index =
    kmalloc_result hs sz (Suc current)
      (if kmalloc_skip hs (unat sz) current then index else index + 1)"
proof -
  have "[current..<k] = current # [Suc current..<k]"
    if "find (fits_at hs (unat sz)) [Suc current..<length hs] = Some k" for k
    using that by (simp add: find_upt_Some_iff upt_conv_Cons)
  thus ?thesis
    using assms by (simp add: kmalloc_result_def upt_conv_Cons algebra_simps split: option.split)
qed

lemma kmalloc_loop_spec:
  assumes wf: "heap_wf hs" and sz: "sz \<noteq> 0"
  shows "kmalloc_loop hs sz current index = kmalloc_result hs sz current index"
proof (induction "length hs - current" arbitrary: current index rule: less_induct)
  case less
  let ?n = "unat sz"
  have n: "0 < ?n" "unat (sz - 1) = ?n - 1"
    using sz by (simp_all add: unat_gt_0 unat_minus_one)
  have IH: "kmalloc_loop hs sz (Suc current) i = kmalloc_result hs sz (Suc current) i"
    if "current < length hs" for i
    using less that by simp
  show ?case
  proof (cases "current < length hs")
    case cur: True
    let ?used = "probe_blocked hs current (?n - 1)"
    note unf = kmalloc_loop.simps [of hs sz current index] kmalloc_probe_spec [OF cur] n(2)
    consider "hp_status (hs ! current) \<noteq> 0"
      | "hp_status (hs ! current) = 0" "?used"
      | "hp_status (hs ! current) = 0" "\<not> ?used" "length hs < current + ?n"
      | "hp_status (hs ! current) = 0" "\<not> ?used" "current + ?n \<le> length hs"
      by (meson not_le)
    thus ?thesis
    proof cases
      case 1
      thus ?thesis
        using cur n IH by (simp add: unf kmalloc_result_next not_fits_at_status kmalloc_skip_def)
    next
      case 2
      hence "\<not> fits_at hs ?n current" by (force simp: fits_at_def probe_blocked_def)
      thus ?thesis
        using 2 cur IH by (simp add: unf kmalloc_result_next kmalloc_skip_def)
    next
      case 3
      hence "\<not> current + (?n - 1) < length hs" using n by linarith
      thus ?thesis
        using 3 cur by (simp add: unf kmalloc_result_None)
    next
      case 4
      hence last: "current + (?n - 1) < length hs" using n by linarith
      have free: "hp_status (hs ! (current + i)) = 0" if "i < ?n - 1" for i
      proof -
        have "Suc (current + i) < length hs" using 4(3) that by linarith
        moreover from this have "hp_status (hs ! (current + i)) \<noteq> 1"
          using 4(2) that by (auto simp: probe_blocked_def)
        ultimately show ?thesis using heap_wf_status [OF wf, of "current + i"] by auto
      qed
      have "fits_at hs ?n current \<longleftrightarrow> hp_status (hs ! (current + (?n - 1))) = 0"
      proof
        assume r: "hp_status (hs ! (current + (?n - 1))) = 0"
        have "hp_status (hs ! (current + j)) = 0" if "j < ?n" for j
          using r free that by (cases "j = ?n - 1") auto
        thus "fits_at hs ?n current" using 4(3) by (simp add: fits_at_def)
      next
        assume "fits_at hs ?n current"
        thus "hp_status (hs ! (current + (?n - 1))) = 0"
          using n(1) by (simp only: fits_at_def)
      qed
      thus ?thesis
        using 4 cur last IH n
        by (simp add: unf kmalloc_result_next kmalloc_result_here kmalloc_skip_def)
    qed
  qed (simp add: kmalloc_loop.simps kmalloc_result_def)
qed

section \<open>Effect of the loops on the nodes\<close>

lemma length_kmalloc_set [simp, heap_simps]: "length (kmalloc_set hs p n) = length hs"
  by (induction n arbitrary: hs p) simp_all

lemma nth_kmalloc_set [heap_simps]:
  "p + n \<le> length hs \<Longrightarrow> j < length hs \<Longrightarrow>
   kmalloc_set hs p n ! j =
     (if p \<le> j \<and> j < p + n then (hs ! j)\<lparr>hp_status := 1\<rparr> else hs ! j)"
  by (induction n arbitrary: hs p) (auto simp: nth_list_update_if)

lemma length_kmalloc_commit [simp, heap_simps]: "length (kmalloc_commit hs k sz) = length hs"
  by (simp add: kmalloc_commit_def Let_def)

lemma nth_kmalloc_commit [heap_simps]:
  "k + unat sz \<le> length hs \<Longrightarrow> sz \<noteq> 0 \<Longrightarrow> j < length hs \<Longrightarrow>
   kmalloc_commit hs k sz ! j =
     (if j = k then (hs ! j)\<lparr>hp_status := 1, hp_alloc_length := sz\<rparr>
      else if k \<le> j \<and> j < k + unat sz then (hs ! j)\<lparr>hp_status := 1\<rparr> else hs ! j)"
  by (auto simp: kmalloc_commit_def Let_def nth_kmalloc_set nth_list_update_if unat_gt_0)

lemma heap_advance_spec:
  "c \<le> length hs \<Longrightarrow> heap_advance hs c n = (if c + n \<le> length hs then Some (c + n) else None)"
  by (induction n arbitrary: c) auto

lemma kfree_clear_spec:
  "c + n \<le> length hs \<Longrightarrow>
   kfree_clear hs c n = Some (map (\<lambda>j. if c \<le> j \<and> j < c + n then (hs ! j)\<lparr>hp_status := 0\<rparr>
                                      else hs ! j) [0..<length hs])"
proof (induction n arbitrary: hs c)
  case 0
  have "map (\<lambda>j. if c \<le> j \<and> j < c then (hs ! j)\<lparr>hp_status := 0\<rparr> else hs ! j) [0..<length hs] =
      map ((!) hs) [0..<length hs]" by (intro map_cong) auto
  thus ?case by (simp add: map_nth)
next
  case (Suc n)
  thus ?case by (auto simp: nth_list_update_if intro!: nth_equalityI)
qed

definition kfree_result :: "heap_page list \<Rightarrow> nat \<Rightarrow> heap_page list" where
  "kfree_result hs k =
     map (\<lambda>j. let h = (if j = k then (hs ! j)\<lparr>hp_alloc_length := 0\<rparr> else hs ! j)
              in if k \<le> j \<and> j < k + (unat (hp_alloc_length (hs ! k)) - 1)
                 then h\<lparr>hp_status := 0\<rparr> else h) [0..<length hs]"

lemma length_kfree_result [simp, heap_simps]: "length (kfree_result hs k) = length hs"
  by (simp add: kfree_result_def)

lemma nth_kfree_result:
  "j < length hs \<Longrightarrow> kfree_result hs k ! j =
     (let h = (if j = k then (hs ! j)\<lparr>hp_alloc_length := 0\<rparr> else hs ! j)
      in if k \<le> j \<and> j < k + (unat (hp_alloc_length (hs ! k)) - 1)
         then h\<lparr>hp_status := 0\<rparr> else h)"
  by (simp add: kfree_result_def)

lemma alloc_length_kfree_result [heap_simps]:
  "j < length hs \<Longrightarrow>
   hp_alloc_length (kfree_result hs k ! j) = (if j = k then 0 else hp_alloc_length (hs ! j))"
  by (simp add: nth_kfree_result Let_def)

lemma status_kfree_result [heap_simps]:
  "j < length hs \<Longrightarrow>
   hp_status (kfree_result hs k ! j) =
     (if k \<le> j \<and> j < k + (unat (hp_alloc_length (hs ! k)) - 1) then 0 else hp_status (hs ! j))"
  by (simp add: nth_kfree_result Let_def)

lemma heap_wf_block:
  "heap_wf hs \<Longrightarrow> k < length hs \<Longrightarrow> hp_alloc_length (hs ! k) \<noteq> 0 \<Longrightarrow>
   block_ok hs k (unat (hp_alloc_length (hs ! k)))"
  by (simp add: heap_wf_def)

lemma kfree_nodes_spec:
  assumes wf: "heap_wf hs" and k: "k = unat (heap_index p) - 1" "k < length hs"
  shows "kfree_nodes p hs = Some (kfree_result hs k)"
proof -
  let ?n = "unat (hp_alloc_length (hs ! k))"
  have "k + (?n - 1) \<le> length hs"
    using heap_wf_block [OF wf k(2)] k(2)
    by (cases "hp_alloc_length (hs ! k) = 0") (auto simp: block_ok_def)
  thus ?thesis
    using k by (simp add: kfree_nodes_def heap_advance_spec kfree_clear_spec kfree_result_def
        nth_list_update_if Let_def cong: map_cong)
qed

lemma kfree_nodes_out_of_range:
  "length hs \<le> unat (heap_index p) - 1 \<Longrightarrow> kfree_nodes p hs = None"
  by (simp add: kfree_nodes_def heap_advance_spec)

section \<open>Well-formedness\<close>

lemma fits_at_alloc_0:
  assumes "heap_wf hs" "fits_at hs n k" "j < n"
  shows "hp_alloc_length (hs ! (k + j)) = 0"
proof (rule ccontr)
  assume *: "hp_alloc_length (hs ! (k + j)) \<noteq> 0"
  have "k + j < length hs" using assms by (simp add: fits_at_def)
  hence "hp_status (hs ! (k + j)) = 1"
    using heap_wf_block [OF assms(1) _ *] * by (intro block_ok_status) (auto simp: unat_gt_0)
  thus False using assms by (simp add: fits_at_def)
qed

lemma block_not_fits:
  assumes "block_ok hs b m" "fits_at hs n k" "b \<le> j" "j < b + m" "k \<le> j" "j < k + n"
  shows False
  using block_ok_status [of hs b m j] fits_at_status [of hs n k j] assms by simp

lemma heap_wf_commit:
  assumes wf: "heap_wf hs" and fit: "fits_at hs (unat sz) k" and sz: "sz \<noteq> 0"
  shows "heap_wf (kmalloc_commit hs k sz)"
proof -
  have kl: "k + unat sz \<le> length hs" using fit by (simp add: fits_at_def)
  note nth = nth_kmalloc_commit [OF kl sz]
  have "block_ok (kmalloc_commit hs k sz) b (unat (hp_alloc_length (kmalloc_commit hs k sz ! b)))"
    if b: "b < length hs" "hp_alloc_length (kmalloc_commit hs k sz ! b) \<noteq> 0" for b
  proof (cases "b = k")
    case True
    thus ?thesis
      using kl b sz fits_at_alloc_0 [OF wf fit] by (auto simp: block_ok_def nth)
  next
    case False
    hence same: "hp_alloc_length (kmalloc_commit hs k sz ! b) = hp_alloc_length (hs ! b)"
      using b by (simp add: nth)
    hence ok: "block_ok hs b (unat (hp_alloc_length (hs ! b)))"
      using heap_wf_block [OF wf b(1)] b(2) by simp
    have "\<not> (k \<le> j \<and> j < k + unat sz)" if "b \<le> j" "j < b + unat (hp_alloc_length (hs ! b))" for j
      using block_not_fits [OF ok fit that] by blast
    note away = this
    have "kmalloc_commit hs k sz ! (b + j) = hs ! (b + j)"
      if "j < unat (hp_alloc_length (hs ! b))" for j
      using away [of "b + j"] that ok sz unat_gt_0 [of sz] by (subst nth) (auto simp: block_ok_def)
    thus ?thesis using ok same by (simp add: block_ok_def)
  qed
  moreover have "hp_status (kmalloc_commit hs k sz ! j) = 0 \<or> hp_status (kmalloc_commit hs k sz ! j) = 1"
    if "j < length hs" for j
    using heap_wf_status [OF wf that] that by (simp add: nth)
  ultimately show ?thesis by (simp add: heap_wf_def)
qed

lemma blocks_disjoint:
  assumes wf: "heap_wf hs" and "b < length hs" "k < length hs" "b \<noteq> k"
    and "hp_alloc_length (hs ! b) \<noteq> 0" "hp_alloc_length (hs ! k) \<noteq> 0"
    and "b \<le> j" "j < b + unat (hp_alloc_length (hs ! b))"
  shows "\<not> (k \<le> j \<and> j < k + unat (hp_alloc_length (hs ! k)))"
proof
  assume *: "k \<le> j \<and> j < k + unat (hp_alloc_length (hs ! k))"
  have inner: "hp_alloc_length (hs ! c) = 0"
    if "a < length hs" "hp_alloc_length (hs ! a) \<noteq> 0" "a < c"
      "c < a + unat (hp_alloc_length (hs ! a))" for a c
    using heap_wf_block [OF wf that(1,2)] that(3,4) less_imp_add_positive [of a c]
    by (auto simp: block_ok_def)
  show False
    using inner [of b k] inner [of k b] assms * by (cases "b < k") auto
qed

lemma heap_wf_release:
  assumes wf: "heap_wf hs" and k: "k < length hs"
  shows "heap_wf (kfree_result hs k)"
proof -
  have "block_ok (kfree_result hs k) b (unat (hp_alloc_length (kfree_result hs k ! b)))"
    if b: "b < length hs" "hp_alloc_length (kfree_result hs k ! b) \<noteq> 0" for b
  proof -
    have bk: "b \<noteq> k" using b by (auto simp: heap_simps)
    hence same: "hp_alloc_length (kfree_result hs k ! b) = hp_alloc_length (hs ! b)"
      using b by (simp add: heap_simps)
    hence ok: "block_ok hs b (unat (hp_alloc_length (hs ! b)))"
      using heap_wf_block [OF wf b(1)] b(2) by simp
    define r where "r = unat (hp_alloc_length (hs ! k)) - 1"
    have away: "\<not> (k \<le> j \<and> j < k + r)"
      if "b \<le> j" "j < b + unat (hp_alloc_length (hs ! b))" for j
      using blocks_disjoint [OF wf b(1) k bk _ _ that] b(2) same
      by (cases "hp_alloc_length (hs ! k) = 0") (auto simp: r_def)
    have "hp_status (kfree_result hs k ! (b + j)) = hp_status (hs ! (b + j))"
      if "j < unat (hp_alloc_length (hs ! b))" for j
      using away [of "b + j"] that ok
      by (simp add: block_ok_def status_kfree_result r_def [symmetric] del: One_nat_def)
    thus ?thesis
      unfolding same using ok by (simp add: block_ok_def alloc_length_kfree_result)
  qed
  moreover have "hp_status (kfree_result hs k ! j) = 0 \<or> hp_status (kfree_result hs k ! j) = 1"
    if "j < length hs" for j
    using heap_wf_status [OF wf that] that by (simp add: heap_simps)
  ultimately show ?thesis by (simp add: heap_wf_def)
qed

section \<open>The operations on the state\<close>

lemma vmm_update_commute [simp]:
  "s\<lparr>heap_pages := h, kmem := m\<rparr> = s\<lparr>kmem := m, heap_pages := h\<rparr>"
  "s\<lparr>heap_pages := h, irq_enabled := b\<rparr> = s\<lparr>irq_enabled := b, heap_pages := h\<rparr>"
  by (cases s; simp)+

lemma vmm_irq_bracket [simp]:
  "irq_restore (Some (irq_enabled s)) (s\<lparr>irq_enabled := False, heap_pages := hs\<rparr>) =
     s\<lparr>heap_pages := hs\<rparr>"
  "irq_restore (Some (irq_enabled s)) (s\<lparr>irq_enabled := False\<rparr>) = s"
  by (cases s; simp)+

lemma kmalloc_spec:
  assumes "heap_wf (heap_pages s)"
  shows "kmalloc sz s =
     (if sz = 0 then (NULL, s) else
      case first_fit (heap_pages s) (unat sz) of
        None \<Rightarrow> (NULL, s)
      | Some k \<Rightarrow> (chunk_addr (kmalloc_index (heap_pages s) (unat sz) k),
                   s\<lparr>heap_pages := kmalloc_commit (heap_pages s) k sz\<rparr>))"
  using assms
  by (simp add: kmalloc_def kmalloc_loop_spec kmalloc_result_def first_fit_def chunk_addr_def
      kmalloc_index_def split: option.split del: irq_restore_Some)

lemma first_fitD:
  "first_fit hs n = Some k \<Longrightarrow> fits_at hs n k \<and> k < length hs \<and> (\<forall>j<k. \<not> fits_at hs n j)"
  by (auto simp: first_fit_def find_upt_Some_iff)

lemma kmalloc_wf:
  "heap_wf (heap_pages s) \<Longrightarrow> heap_wf (heap_pages (snd (kmalloc sz s)))"
  by (auto simp: kmalloc_spec heap_wf_commit dest: first_fitD split: option.split)

lemma kfree_spec:
  assumes "heap_wf (heap_pages s)"
  shows "kfree p s =
     (if unat (heap_index p) - 1 < length (heap_pages s)
      then Some (s\<lparr>heap_pages := kfree_result (heap_pages s) (unat (heap_index p) - 1)\<rparr>)
      else None)"
  using assms
  by (simp add: kfree_def kfree_nodes_spec kfree_nodes_out_of_range del: irq_restore_Some)

lemma kfree_wf:
  "heap_wf (heap_pages s) \<Longrightarrow> kfree p s = Some s' \<Longrightarrow> heap_wf (heap_pages s')"
  by (auto simp: kfree_spec heap_wf_release split: if_splits)

section \<open>Heaps whose used nodes form a prefix\<close>

lemma heap_prefix_fits_at:
  assumes "heap_prefix m hs" "0 < n"
  shows "fits_at hs n k \<longleftrightarrow> m \<le> k \<and> k + n \<le> length hs"
proof
  assume fit: "fits_at hs n k"
  hence "hp_status (hs ! k) = 0" using assms(2) by (intro fits_at_status) auto
  moreover have "k < length hs" using fit assms(2) by (simp add: fits_at_def)
  ultimately show "m \<le> k \<and> k + n \<le> length hs"
    using fit assms(1) by (auto simp: heap_prefix_def fits_at_def split: if_splits)
qed (use assms in \<open>auto simp: heap_prefix_def fits_at_def\<close>)

lemma first_fit_prefix:
  assumes "heap_prefix m hs" "0 < n"
  shows "first_fit hs n = (if m + n \<le> length hs then Some m else None)"
  using assms
  by (auto simp: first_fit_def heap_prefix_fits_at find_upt_Some_iff find_upt_None_iff)

lemma kmalloc_index_prefix:
  assumes "heap_prefix m hs"
  shows "kmalloc_index hs n m = m"
proof -
  have "\<not> kmalloc_skip hs n j" if "j < m" for j
    using assms that by (auto simp: heap_prefix_def kmalloc_skip_def)
  hence "filter (\<lambda>j. \<not> kmalloc_skip hs n j) [0..<m] = [0..<m]"
    by (intro filter_True) auto
  thus ?thesis by (simp add: kmalloc_index_def)
qed

lemma heap_prefix_commit:
  assumes "heap_prefix m hs" "sz \<noteq> 0" "m + unat sz \<le> length hs"
  shows "heap_prefix (m + unat sz) (kmalloc_commit hs m sz)"
  using assms by (auto simp: heap_prefix_def nth_kmalloc_commit unat_gt_0)

lemma kmalloc_prefix:
  assumes "heap_wf (heap_pages s)" "heap_prefix m (heap_pages s)" "sz \<noteq> 0"
  shows "kmalloc sz s =
     (if m + unat sz \<le> length (heap_pages s)
      then (chunk_addr m, s\<lparr>heap_pages := kmalloc_commit (heap_pages s) m sz\<rparr>)
      else (NULL, s))"
  using assms by (simp add: kmalloc_spec first_fit_prefix kmalloc_index_prefix unat_gt_0)

lemma chunk_addr_unat:
  assumes "k \<le> 2 ^ 20"
  shows "unat (chunk_addr k) = 0xffffc00000000000 + 64 * k"
proof -
  have "unat (of_nat k * 64 :: u64) = 64 * k"
    using assms by (simp add: unat_word_ariths unat_of_nat_u64)
  thus ?thesis
    using assms by (simp add: chunk_addr_def HEAP_START_VIRT_DEFINED_def HEAP_CHUNK_SIZE_DEFINED_def
        unat_add_no_wrap)
qed

lemma heap_index_chunk_addr:
  assumes "k \<le> 2 ^ 20"
  shows "unat (heap_index (chunk_addr k)) = k"
  using assms
  by (simp add: heap_index_def chunk_addr_def HEAP_CHUNK_SIZE_DEFINED_def unat_div unat_word_ariths
      unat_of_nat_u64)

lemma chunk_addr_neq_NULL: "k \<le> 2 ^ 20 \<Longrightarrow> chunk_addr k \<noteq> NULL"
  using chunk_addr_unat [of k] by auto

section \<open>Client histories keep their blocks apart\<close>

definition at_boundary :: "heap_page list \<Rightarrow> nat \<Rightarrow> bool" where
  "at_boundary hs k \<longleftrightarrow> (\<forall>b<length hs. b < k \<longrightarrow> b + unat (hp_alloc_length (hs ! b)) \<le> k)"

definition held_block :: "heap_page list \<Rightarrow> nat \<Rightarrow> u64 \<times> u64 \<Rightarrow> bool" where
  "held_block hs m = (\<lambda>(p, sz). \<exists>k. p = chunk_addr k \<and> k + unat sz \<le> m \<and> at_boundary hs k)"

definition trace_inv :: "nat \<Rightarrow> heap_page list \<Rightarrow> (u64 \<times> u64) set \<Rightarrow> nat \<Rightarrow> bool" where
  "trace_inv n hs L m \<longleftrightarrow> heap_wf hs \<and> length hs = n \<and> heap_prefix m hs \<and>
     (\<forall>x\<in>L. held_block hs m x) \<and>
     (\<forall>(p, a)\<in>L. \<forall>(q, b)\<in>L. (p, a) \<noteq> (q, b) \<longrightarrow>
        disjoint_ranges p (64 * unat a) q (64 * unat b))"

lemma disjoint_ranges_sym: "disjoint_ranges p n q k \<longleftrightarrow> disjoint_ranges q k p n"
  by (auto simp: disjoint_ranges_def)

lemma trace_inv_alloc:
  assumes inv: "trace_inv n hs L m" and n: "n \<le> 2 ^ 20" and sz: "sz \<noteq> 0" "m + unat sz \<le> n"
  shows "trace_inv n (kmalloc_commit hs m sz) (insert (chunk_addr m, sz) L) (m + unat sz)"
proof -
  let ?hs = "kmalloc_commit hs m sz"
  have len: "length hs = n" and wf: "heap_wf hs" and pre: "heap_prefix m hs"
    using inv by (simp_all add: trace_inv_def)
  have fit: "fits_at hs (unat sz) m"
    using pre sz len by (simp add: heap_prefix_fits_at unat_gt_0)
  have bound: "at_boundary ?hs k" if "at_boundary hs k" "k \<le> m" for k
    using that sz len by (auto simp: at_boundary_def nth_kmalloc_commit)
  have "at_boundary hs m"
    unfolding at_boundary_def
  proof (intro allI impI)
    fix b assume b: "b < length hs" "b < m"
    show "b + unat (hp_alloc_length (hs ! b)) \<le> m"
    proof (rule ccontr)
      assume neg: "\<not> b + unat (hp_alloc_length (hs ! b)) \<le> m"
      hence "block_ok hs b (unat (hp_alloc_length (hs ! b)))"
        using b by (intro heap_wf_block [OF wf]) auto
      thus False by (rule block_not_fits [OF _ fit, of b _ m]) (use b neg sz in \<open>auto simp: unat_gt_0\<close>)
    qed
  qed
  moreover have "held_block ?hs (m + unat sz) x" if "x \<in> L" for x
    using that inv bound by (fastforce simp: trace_inv_def held_block_def)
  moreover have "disjoint_ranges (chunk_addr m) (64 * unat sz) q (64 * unat b)"
    if "(q, b) \<in> L" for q b
  proof -
    have "held_block hs m (q, b)" using that inv by (auto simp: trace_inv_def)
    then obtain k where "q = chunk_addr k" "k + unat b \<le> m" by (auto simp: held_block_def)
    thus ?thesis using n sz by (simp add: disjoint_ranges_def chunk_addr_unat)
  qed
  ultimately show ?thesis
    using inv heap_wf_commit [OF wf fit sz(1)] heap_prefix_commit [OF pre sz(1)] sz len bound
    by (auto simp: trace_inv_def held_block_def disjoint_ranges_sym)
qed

lemma trace_inv_free:
  assumes inv: "trace_inv n hs L m" and n: "n \<le> 2 ^ 20"
    and held: "(p, sz) \<in> L" "p \<noteq> HEAP_START_VIRT_DEFINED" "sz \<noteq> 0"
  shows "unat (heap_index p) - 1 < n \<and>
         trace_inv n (kfree_result hs (unat (heap_index p) - 1)) (L - {(p, sz)}) m"
proof -
  obtain k where k: "p = chunk_addr k" "k + unat sz \<le> m" "at_boundary hs k"
    using inv held(1) by (auto simp: trace_inv_def held_block_def)
  have len: "length hs = n" and wf: "heap_wf hs" and pre: "heap_prefix m hs"
    using inv by (simp_all add: trace_inv_def)
  have "0 < k" using k(1) held(2) by (cases k) (auto simp: chunk_addr_def)
  moreover have "k < n" using k(2) pre len held(3) unat_gt_0 [of sz] by (simp add: heap_prefix_def)
  ultimately have idx: "unat (heap_index p) - 1 = k - 1" "k - 1 < n"
    using k(1) n by (simp_all add: heap_index_chunk_addr)
  have "k - 1 + unat (hp_alloc_length (hs ! (k - 1))) \<le> k"
    using k(3) len \<open>0 < k\<close> idx(2) unfolding at_boundary_def by (meson diff_less zero_less_one)
  hence one: "unat (hp_alloc_length (hs ! (k - 1))) - 1 = 0" using \<open>0 < k\<close> by linarith
  have pre': "heap_prefix m (kfree_result hs (k - 1))"
    using pre one by (simp add: heap_prefix_def status_kfree_result)
  have "at_boundary (kfree_result hs (k - 1)) j" if "at_boundary hs j" for j
    using that by (auto simp: at_boundary_def alloc_length_kfree_result)
  hence "held_block (kfree_result hs (k - 1)) m x" if "x \<in> L" for x
    using that inv by (fastforce simp: trace_inv_def held_block_def)
  thus ?thesis
    using inv idx len pre' heap_wf_release [OF wf] by (auto simp: trace_inv_def)
qed

lemma heap_wf_fresh: "heap_wf (replicate n new_heap_page)"
  by (simp add: heap_wf_def new_heap_page_def)

lemma heap_prefix_fresh: "heap_prefix 0 (replicate n new_heap_page)"
  by (simp add: heap_prefix_def new_heap_page_def)

lemma heap_trace_inv:
  assumes "heap_trace n s L" "n \<le> 2 ^ 20"
  shows "(\<exists>m. trace_inv n (heap_pages s) L m) \<and> (\<forall>(p, sz)\<in>L. sz \<noteq> 0)"
  using assms
proof (induction rule: heap_trace.induct)
  case (heap_start s)
  thus ?case using heap_prefix_fresh by (auto simp: trace_inv_def heap_wf_fresh)
next
  case (heap_alloc s L sz p s')
  then obtain m where m: "trace_inv n (heap_pages s) L m" by blast
  hence wf: "heap_wf (heap_pages s)" and pre: "heap_prefix m (heap_pages s)"
    and len: "length (heap_pages s) = n" by (simp_all add: trace_inv_def)
  have sz: "sz \<noteq> 0" using heap_alloc.hyps wf by (auto simp: kmalloc_spec)
  hence "m + unat sz \<le> n" "p = chunk_addr m" "heap_pages s' = kmalloc_commit (heap_pages s) m sz"
    using heap_alloc.hyps kmalloc_prefix [OF wf pre sz] len by (auto split: if_splits)
  thus ?case using trace_inv_alloc [OF m _ sz] heap_alloc sz by auto
next
  case (heap_fail s L sz s')
  then obtain m where m: "trace_inv n (heap_pages s) L m" by blast
  hence wf: "heap_wf (heap_pages s)" and pre: "heap_prefix m (heap_pages s)"
    and len: "length (heap_pages s) = n" by (simp_all add: trace_inv_def)
  have "m + unat sz \<le> n \<Longrightarrow> sz \<noteq> 0 \<Longrightarrow> chunk_addr m = NULL"
    using heap_fail.hyps kmalloc_prefix [OF wf pre] len by auto
  hence "s' = s"
    using heap_fail.hyps kmalloc_prefix [OF wf pre, of sz] len heap_fail.prems wf
      chunk_addr_neq_NULL [of m]
    by (cases "sz = 0") (auto simp: kmalloc_spec split: if_splits)
  thus ?case using heap_fail by auto
next
  case (heap_free s L p sz s')
  then obtain m where m: "trace_inv n (heap_pages s) L m" by blast
  have "sz \<noteq> 0" using heap_free by auto
  thus ?case
    using trace_inv_free [OF m heap_free.prems heap_free.hyps(2,3)] heap_free m
    by (auto simp: kfree_spec trace_inv_def split: if_splits)
qed

section \<open>Properties\<close>


definition sample_heap :: vmm where
  "sample_heap = \<lparr>irq_enabled = True, kmem = (\<lambda>_. 0),
     heap_pages = [new_heap_page, \<lparr>hp_status = 1, hp_size = 64, hp_alloc_length = 1\<rparr>,
                   new_heap_page, new_heap_page, new_heap_page]\<rparr>"

lemma sample_heap_wf: "heap_wf (heap_pages sample_heap)"
  by code_simp

lemma sample_heap_first_fit: "first_fit (heap_pages sample_heap) 3 = Some 2"
  by code_simp


text \<open>C12: every heap operation keeps the node list well formed: node states are 0 or 1, every
  recorded block lies inside the heap with all its nodes in use, and no block starts inside
  another.\<close>
theorem heap_wf_preserved:
  assumes "heap_wf (heap_pages s)"
  shows "heap_wf (heap_pages (snd (kmalloc sz s))) \<and>
         (\<forall>s'. kfree p s = Some s' \<longrightarrow> heap_wf (heap_pages s'))"
  using assms kmalloc_wf kfree_wf by blast

theorem heap_wf_preserved_witness:
  "heap_wf (heap_pages sample_heap) \<and> heap_wf (heap_pages (snd (kmalloc 2 sample_heap)))"
  using heap_wf_preserved [OF sample_heap_wf, of 2] sample_heap_wf by blast

text \<open>C10: blocks handed out by the heap never overlap while the first block of the heap is not
  freed: in every history of \<open>kmalloc\<close> and \<open>kfree\<close> calls from a fresh heap of at most
  \<open>HEAP_SIZE_DEFINED / HEAP_CHUNK_SIZE_DEFINED\<close> nodes, any two blocks the client holds occupy
  disjoint address ranges, and freeing a held block other than the first always returns.\<close>
theorem heap_trace_disjoint:
  assumes "heap_trace n s L" "n \<le> unat (HEAP_SIZE_DEFINED div HEAP_CHUNK_SIZE_DEFINED)"
    and "(p, a) \<in> L" "(q, b) \<in> L"
  shows "((p, a) \<noteq> (q, b) \<longrightarrow> disjoint_ranges p (64 * unat a) q (64 * unat b)) \<and>
         (p \<noteq> HEAP_START_VIRT_DEFINED \<longrightarrow> kfree p s \<noteq> None)"
proof -
  have n: "n \<le> 2 ^ 20"
    using assms(2) by (simp add: HEAP_SIZE_DEFINED_def HEAP_CHUNK_SIZE_DEFINED_def)
  obtain m where m: "trace_inv n (heap_pages s) L m" and "a \<noteq> 0"
    using heap_trace_inv [OF assms(1) n] assms(3) by auto
  moreover have "kfree p s \<noteq> None" if "p \<noteq> HEAP_START_VIRT_DEFINED"
    using trace_inv_free [OF m n assms(3) that \<open>a \<noteq> 0\<close>] m by (auto simp: kfree_spec trace_inv_def)
  ultimately show ?thesis using assms(3,4) by (auto simp: trace_inv_def)
qed

definition fresh_heap :: "nat \<Rightarrow> vmm" where
  "fresh_heap n = \<lparr>irq_enabled = True, kmem = (\<lambda>_. 0), heap_pages = replicate n new_heap_page\<rparr>"

theorem heap_trace_disjoint_witness:
  "\<exists>s. heap_trace 8 s {(chunk_addr 0, 2), (chunk_addr 2, 3)} \<and>
       disjoint_ranges (chunk_addr 0) 128 (chunk_addr 2) 192 \<and> kfree (chunk_addr 2) s \<noteq> None"
proof -
  let ?s1 = "snd (kmalloc 2 (fresh_heap 8))" and ?s2 = "snd (kmalloc 3 (snd (kmalloc 2 (fresh_heap 8))))"
  have wf: "heap_wf (heap_pages (fresh_heap 8))" by (simp add: fresh_heap_def heap_wf_fresh)
  have a0: "kmalloc 2 (fresh_heap 8) = (chunk_addr 0, ?s1)"
    using kmalloc_prefix [OF wf, of 0 2] by (simp add: fresh_heap_def heap_prefix_fresh)
  have pre1: "heap_prefix 2 (heap_pages ?s1)" "length (heap_pages ?s1) = 8"
    using kmalloc_prefix [OF wf, of 0 2] heap_prefix_commit [OF heap_prefix_fresh, of 2 8]
    by (simp_all add: fresh_heap_def heap_prefix_fresh numeral_2_eq_2 [symmetric])
  have a1: "kmalloc 3 ?s1 = (chunk_addr 2, ?s2)"
    using kmalloc_prefix [OF kmalloc_wf [OF wf] pre1(1), of 3] pre1(2) by simp
  have "heap_trace 8 (fresh_heap 8) {}" by (rule heap_start) (simp add: fresh_heap_def)
  hence "heap_trace 8 ?s1 {(chunk_addr 0, 2)}"
    by (rule heap_alloc [OF _ a0]) (rule chunk_addr_neq_NULL, simp)
  hence t: "heap_trace 8 ?s2 {(chunk_addr 0, 2), (chunk_addr 2, 3)}"
    by (rule heap_alloc [OF _ a1, of 8 "{(chunk_addr 0, 2)}", simplified insert_commute])
      (rule chunk_addr_neq_NULL, simp)
  have n: "(8 :: nat) \<le> unat (HEAP_SIZE_DEFINED div HEAP_CHUNK_SIZE_DEFINED)"
    by (simp add: HEAP_SIZE_DEFINED_def HEAP_CHUNK_SIZE_DEFINED_def)
  have "chunk_addr 2 \<noteq> HEAP_START_VIRT_DEFINED"
    by (simp add: chunk_addr_def HEAP_CHUNK_SIZE_DEFINED_def)
  thus ?thesis
    using t heap_trace_disjoint [OF t n, of "chunk_addr 0" 2 "chunk_addr 2" 3]
      heap_trace_disjoint [OF t n, of "chunk_addr 2" 3 "chunk_addr 2" 3] by auto
qed

text \<open>\<open>kfree\<close> does not release the block it is given.  For a block that starts at any node
  \<open>k\<close> but the first, \<open>kfree\<close> of its address returns with every node of the block still in use and
  its recorded length unchanged, because the walk stops one node short of \<open>k\<close>.\<close>
lemma kfree_leaks:
  assumes wf: "heap_wf (heap_pages s)" and k: "0 < k" "k < length (heap_pages s)"
    and n: "length (heap_pages s) \<le> 2 ^ 20" and blk: "hp_alloc_length (heap_pages s ! k) \<noteq> 0"
  shows "\<exists>s'. kfree (chunk_addr k) s = Some s' \<and>
     hp_alloc_length (heap_pages s' ! k) = hp_alloc_length (heap_pages s ! k) \<and>
     (\<forall>j. k \<le> j \<and> j < k + unat (hp_alloc_length (heap_pages s ! k)) \<longrightarrow>
        hp_status (heap_pages s' ! j) = 1)"
proof -
  let ?hs = "heap_pages s"
  have idx: "unat (heap_index (chunk_addr k)) - 1 = k - 1" using k n by (simp add: heap_index_chunk_addr)
  have ok: "block_ok ?hs k (unat (hp_alloc_length (?hs ! k)))"
    using heap_wf_block [OF wf k(2) blk] .
  define r where "r = unat (hp_alloc_length (?hs ! (k - 1))) - 1"
  obtain q where q: "k = Suc q" using k(1) by (cases k) auto
  have "\<not> (k - 1 \<le> j \<and> j < k - 1 + r)" if "k \<le> j" "j < k + unat (hp_alloc_length (?hs ! k))" for j
    using blocks_disjoint [OF wf k(2), of q, OF _ _ blk _ that] k
    by (cases "hp_alloc_length (?hs ! q) = 0") (auto simp: r_def q)
  hence "hp_status (kfree_result ?hs (k - 1) ! j) = 1"
    if "k \<le> j" "j < k + unat (hp_alloc_length (?hs ! k))" for j
    using that ok block_ok_status [OF ok that]
    by (simp add: status_kfree_result block_ok_def r_def [symmetric] del: One_nat_def)
  thus ?thesis
    using k kfree_spec [OF wf, of "chunk_addr k", unfolded idx]
    by (auto simp: alloc_length_kfree_result q)
qed

lemma kfree_leaks_witness:
  "\<exists>s'. kfree (chunk_addr 1) sample_heap = Some s' \<and> hp_status (heap_pages s' ! 1) = 1"
  using kfree_leaks [OF sample_heap_wf, of 1] by (auto simp: sample_heap_def)

lemma round_up_chunks:
  "(n + 63) div 64 = (if n mod 64 = 0 then n div 64 else n div 64 + 1)" for n :: nat
proof -
  define q r where "q = n div 64" and "r = n mod 64"
  have n: "n = 64 * q + r" and r: "r < 64" by (simp_all add: q_def r_def)
  have "(n + 63) div 64 = (if r = 0 then q else q + 1)"
    unfolding n using r by (intro div_nat_eqI) (auto split: if_splits)
  thus ?thesis by (simp only: q_def r_def)
qed

lemma of_nat_round_up:
  "of_nat ((unat sz + 63) div 64) = (if sz mod 64 = 0 then sz div 64 else sz div 64 + (1 :: u64))"
proof -
  have "sz mod 64 = 0 \<longleftrightarrow> unat sz mod 64 = 0"
    by (simp add: word_unat_eq_iff unat_mod)
  moreover have "of_nat (unat sz div 64) = sz div 64"
    by (simp add: word_arith_nat_div)
  ultimately show ?thesis by (simp add: round_up_chunks)
qed

lemma kmalloc_byte_eq:
  "kmalloc_byte sz s = kmalloc (of_nat ((unat sz + 63) div 64)) s \<and>
   kmalloc_byte_interruptable sz s = kmalloc_byte sz s"
proof -
  have bytes: "kmalloc_byte_interruptable sz s = kmalloc_byte sz s"
    by (simp add: kmalloc_byte_def kmalloc_byte_interruptable_def del: irq_restore_Some)
  have "sz div 64 = 0" if "sz < 64"
    using that by (simp add: word_unat_eq_iff unat_div word_less_nat_alt)
  moreover have "sz mod 64 = sz" if "sz < 64"
    using that by (simp add: word_unat_eq_iff unat_mod word_less_nat_alt)
  ultimately have "kmalloc_byte_interruptable sz s =
      kmalloc (if sz mod 64 = 0 then sz div 64 else sz div 64 + 1) s"
    by (cases "sz = 64"; cases "sz < 64") (simp_all add: kmalloc_byte_interruptable_def not_less)
  thus ?thesis using bytes of_nat_round_up [of sz] by simp
qed

section \<open>The heap after the boot self test\<close>

lemma test_memory_fill_loads:
  "load64 (test_memory_fill x m) x = 0" "load64 (test_memory_fill x m) (x + 40) = 5"
  by (simp_all add: test_memory_fill_def upt_rec load64_store64_other)

lemma test_memory_heap:
  assumes hs: "heap_pages s = replicate n new_heap_page" and n: "10 \<le> n"
  shows "test_memory s = Some (True, s\<lparr>kmem := test_memory_fill HEAP_START_VIRT_DEFINED (kmem s),
           heap_pages := kfree_result (kmalloc_commit (replicate n new_heap_page) 0 10) 0\<rparr>)"
proof -
  let ?hs = "kmalloc_commit (replicate n new_heap_page) 0 10"
  let ?m = "test_memory_fill HEAP_START_VIRT_DEFINED (kmem s)"
  have "fits_at (replicate n new_heap_page) (unat (10 :: u64)) 0"
    using n by (simp add: heap_prefix_fits_at [OF heap_prefix_fresh])
  hence wf: "heap_wf ?hs" by (intro heap_wf_commit heap_wf_fresh) simp_all
  have alloc: "kmalloc 10 s = (HEAP_START_VIRT_DEFINED, s\<lparr>heap_pages := ?hs\<rparr>)"
    using kmalloc_prefix [of s 0 10] heap_wf_fresh heap_prefix_fresh hs n
    by (simp add: chunk_addr_def)
  have "kfree HEAP_START_VIRT_DEFINED (s\<lparr>kmem := ?m, heap_pages := ?hs\<rparr>) =
      Some (s\<lparr>kmem := ?m, heap_pages := kfree_result ?hs 0\<rparr>)"
    using wf n by (subst kfree_spec) (auto simp: heap_index_def)
  moreover have "hd (kfree_result ?hs 0) = kfree_result ?hs 0 ! 0"
    using n by (intro hd_conv_nth) (auto simp flip: length_greater_0_conv)
  ultimately show ?thesis
    using n unfolding test_memory_def alloc
    by (simp add: Let_def test_memory_fill_loads status_kfree_result alloc_length_kfree_result
        nth_kmalloc_commit)
qed

definition tested_nodes :: "nat \<Rightarrow> heap_page list" where
  "tested_nodes n = kfree_result (kmalloc_commit (replicate n new_heap_page) 0 10) 0"

lemma tested_nodes_simps [heap_simps]:
  assumes "10 \<le> n"
  shows "length (tested_nodes n) = n"
    and "j < n \<Longrightarrow> hp_status (tested_nodes n ! j) = (if j = 9 then 1 else 0)"
    and "j < n \<Longrightarrow> hp_alloc_length (tested_nodes n ! j) = 0"
  using assms
  by (auto simp: tested_nodes_def status_kfree_result alloc_length_kfree_result nth_kmalloc_commit
      new_heap_page_def)

lemma tested_nodes_wf: "10 \<le> n \<Longrightarrow> heap_wf (tested_nodes n)"
  by (simp add: heap_wf_def heap_simps)

lemma tested_nodes_alloc:
  assumes n: "74 \<le> n"
  shows "first_fit (tested_nodes n) 64 = Some 10" "kmalloc_index (tested_nodes n) 64 10 = 1"
proof -
  have "\<not> fits_at (tested_nodes n) 64 j" if "j < 10" for j
  proof
    assume "fits_at (tested_nodes n) 64 j"
    hence "hp_status (tested_nodes n ! 9) = 0" using that by (intro fits_at_status) auto
    thus False using n by (simp add: heap_simps)
  qed
  moreover have "fits_at (tested_nodes n) 64 10" using n by (simp add: fits_at_def heap_simps)
  ultimately show "first_fit (tested_nodes n) 64 = Some 10"
    using n by (simp add: first_fit_def find_upt_Some_iff heap_simps)
  have "kmalloc_skip (tested_nodes n) 64 j" if "j < 9" for j
    unfolding kmalloc_skip_def probe_blocked_def
    using n that by (auto simp: heap_simps intro!: exI [of _ "9 - j"])
  moreover have "\<not> kmalloc_skip (tested_nodes n) 64 9"
    using n by (simp add: kmalloc_skip_def heap_simps)
  ultimately have "filter (\<lambda>j. \<not> kmalloc_skip (tested_nodes n) 64 j) ([0..<9] @ [9]) = [9]"
    by simp
  moreover have "[0..<10] = [0..<9] @ [9 :: nat]"
    by (simp add: upt_rec)
  ultimately show "kmalloc_index (tested_nodes n) 64 10 = 1"
    by (simp only: kmalloc_index_def) simp
qed

lemma tested_nodes_second:
  assumes n: "74 \<le> n"
  shows "first_fit (kmalloc_commit (tested_nodes n) 10 64) 2 = Some 0"
  using n by (simp add: first_fit_def find_upt_Some_iff fits_at_def heap_simps)

text \<open>C11: freeing the first block breaks the heap.  The boot self test \<open>test_memory\<close> passes, and
  after it the next two calls \<open>kmalloc_byte(4096)\<close> and \<open>kmalloc_byte(128)\<close> return two live
  blocks whose address ranges overlap.\<close>
theorem heap_overlap_after_self_test:
  assumes "heap_pages s = replicate n new_heap_page" "74 \<le> n"
  shows "\<exists>s1 s2 s3. test_memory s = Some (True, s1) \<and>
     kmalloc_byte 4096 s1 = (chunk_addr 1, s2) \<and> kmalloc_byte 128 s2 = (chunk_addr 0, s3) \<and>
     \<not> disjoint_ranges (chunk_addr 1) 4096 (chunk_addr 0) 128"
proof -
  define s1 where "s1 = s\<lparr>kmem := test_memory_fill HEAP_START_VIRT_DEFINED (kmem s),
    heap_pages := tested_nodes n\<rparr>"
  define s2 where "s2 = s1\<lparr>heap_pages := kmalloc_commit (tested_nodes n) 10 64\<rparr>"
  have wf: "heap_wf (heap_pages s1)" using assms by (simp add: s1_def tested_nodes_wf)
  have k1: "kmalloc 64 s1 = (chunk_addr 1, s2)"
    using assms tested_nodes_alloc [of n] by (simp add: kmalloc_spec [OF wf] s2_def) (simp add: s1_def)
  have "heap_wf (heap_pages s2)" using kmalloc_wf [OF wf, of 64] k1 by simp
  hence k2: "fst (kmalloc 2 s2) = chunk_addr 0"
    using tested_nodes_second [OF assms(2)] by (simp add: kmalloc_spec s2_def kmalloc_index_def)
  have "test_memory s = Some (True, s1)"
    using test_memory_heap [OF assms(1)] assms(2) by (simp add: s1_def tested_nodes_def)
  moreover have "kmalloc_byte 4096 s1 = (chunk_addr 1, s2)" "fst (kmalloc_byte 128 s2) = chunk_addr 0"
    using kmalloc_byte_eq [of 4096 s1] kmalloc_byte_eq [of 128 s2] k1 k2 by simp_all
  moreover have "\<not> disjoint_ranges (chunk_addr 1) 4096 (chunk_addr 0) 128"
    by (simp add: disjoint_ranges_def chunk_addr_unat)
  ultimately show ?thesis by (metis prod.collapse)
qed

theorem heap_overlap_after_self_test_witness:
  "\<exists>s1 s2 s3. test_memory (fresh_heap 100) = Some (True, s1) \<and>
     kmalloc_byte 4096 s1 = (chunk_addr 1, s2) \<and> kmalloc_byte 128 s2 = (chunk_addr 0, s3) \<and>
     \<not> disjoint_ranges (chunk_addr 1) 4096 (chunk_addr 0) 128"
  by (rule heap_overlap_after_self_test [of _ 100]) (simp_all add: fresh_heap_def)

section \<open>Reallocation copies the block\<close>

lemma unat_round_up:
  assumes "sz \<noteq> (0 :: u64)"
  shows "unat (of_nat ((unat sz + 63) div 64) :: u64) = (unat sz + 63) div 64"
    and "0 < (unat sz + 63) div 64" "unat sz \<le> 64 * ((unat sz + 63) div 64)"
proof -
  have "(unat sz + 63) div 64 < 2 ^ 64"
    by (intro less_mult_imp_div_less) (simp add: unat_u64_less)
  thus "unat (of_nat ((unat sz + 63) div 64) :: u64) = (unat sz + 63) div 64"
    by (rule unat_of_nat_u64)
  have "0 < unat sz" using assms by (simp add: unat_gt_0)
  thus "0 < (unat sz + 63) div 64" "unat sz \<le> 64 * ((unat sz + 63) div 64)"
    by (auto simp: div_greater_zero_iff)
qed

lemma krealloc_copy_count:
  fixes a sz :: u64
  assumes "unat a \<le> 2 ^ 20"
  shows "unat (if a * 64 \<ge> sz then sz else a * 64) = min (unat sz) (64 * unat a)"
  using assms by (simp add: word_le_nat_alt unat_word_ariths)

lemma heap_prefix_block_end:
  assumes "heap_wf hs" "heap_prefix m hs" "k < length hs" "hp_alloc_length (hs ! k) \<noteq> 0"
  shows "k + unat (hp_alloc_length (hs ! k)) \<le> m"
proof (rule ccontr)
  let ?a = "unat (hp_alloc_length (hs ! k))"
  assume *: "\<not> k + ?a \<le> m"
  have ok: "block_ok hs k ?a" using assms by (intro heap_wf_block)
  have "0 < ?a" using assms(4) by (simp add: unat_gt_0)
  hence "hp_status (hs ! (k + ?a - 1)) = 1" using ok by (intro block_ok_status) auto
  moreover have "k + ?a - 1 < length hs" "m \<le> k + ?a - 1"
    using ok * \<open>0 < ?a\<close> by (auto simp: block_ok_def)
  ultimately show False using assms(2) by (simp add: heap_prefix_def)
qed

lemma krealloc_byte_spec:
  assumes wf: "heap_wf (heap_pages s)" and pre: "heap_prefix m (heap_pages s)"
    and len: "length (heap_pages s) \<le> 2 ^ 20"
    and k: "k < length (heap_pages s)" "hp_alloc_length (heap_pages s ! k) \<noteq> 0" and sz: "sz \<noteq> 0"
    and room: "m + (unat sz + 63) div 64 \<le> length (heap_pages s)"
  defines "c \<equiv> min (unat sz) (64 * unat (hp_alloc_length (heap_pages s ! k)))"
  shows "\<exists>s'. krealloc_byte (chunk_addr k) sz s = Some (chunk_addr m, s') \<and>
     kmem s' = memcpy (chunk_addr m) (chunk_addr k) (of_nat c) (kmem s) \<and>
     irq_enabled s' = irq_enabled s"
proof -
  let ?n = "of_nat ((unat sz + 63) div 64) :: u64" and ?s = "s\<lparr>irq_enabled := False\<rparr>"
  let ?a = "hp_alloc_length (heap_pages s ! k)"
  have n: "unat ?n = (unat sz + 63) div 64" "?n \<noteq> 0"
    using unat_round_up [OF sz] by (auto simp del: of_nat_add)
  have blk: "k + unat ?a \<le> m" by (rule heap_prefix_block_end [OF wf pre k])
  have km: "k < m" using blk k(2) unat_gt_0 [of ?a] by linarith
  let ?hs = "kmalloc_commit (heap_pages s) m ?n"
  have al: "kmalloc_byte_interruptable sz ?s = (chunk_addr m, ?s\<lparr>heap_pages := ?hs\<rparr>)"
    using kmalloc_byte_eq [of sz ?s] kmalloc_prefix [of ?s m ?n] wf pre n room by simp
  have wf': "heap_wf ?hs"
    using kmalloc_wf [of ?s ?n] kmalloc_prefix [of ?s m ?n] wf pre n room by simp
  have ak: "?hs ! k = heap_pages s ! k"
    using km n room k(1) by (subst nth_kmalloc_commit) auto
  have cnt: "(if ?a * 64 \<ge> sz then sz else ?a * 64) = of_nat c"
    using krealloc_copy_count [of ?a sz] blk pre len
    by (simp add: c_def heap_prefix_def word_unat_eq_iff unat_of_nat_u64 min_less_iff_disj)
  show ?thesis
    using k(1) len wf' n room
    by (simp add: krealloc_byte_def al heap_advance_spec heap_index_chunk_addr chunk_addr_neq_NULL
        ak cnt kfree_spec Let_def)
qed

text \<open>\<open>krealloc_byte\<close> moves a block without losing data.  On a heap whose used nodes form a
  prefix and which has room left, it returns the address of the first free node; the new block
  starts with the bytes of the old one, as many as both hold, and no other byte changes.\<close>
lemma krealloc_byte_copies:
  assumes wf: "heap_wf (heap_pages s)" and pre: "heap_prefix m (heap_pages s)"
    and len: "length (heap_pages s) \<le> 2 ^ 20"
    and k: "k < length (heap_pages s)" "hp_alloc_length (heap_pages s ! k) \<noteq> 0" and sz: "sz \<noteq> 0"
    and room: "m + (unat sz + 63) div 64 \<le> length (heap_pages s)"
  defines "c \<equiv> min (unat sz) (64 * unat (hp_alloc_length (heap_pages s ! k)))"
  shows "\<exists>s'. krealloc_byte (chunk_addr k) sz s = Some (chunk_addr m, s') \<and>
     (\<forall>i<c. kmem s' (chunk_addr m + of_nat i) = kmem s (chunk_addr k + of_nat i)) \<and>
     (\<forall>x. \<not> in_range (chunk_addr m) c x \<longrightarrow> kmem s' x = kmem s x)"
proof -
  have blk: "k + unat (hp_alloc_length (heap_pages s ! k)) \<le> m"
    by (rule heap_prefix_block_end [OF wf pre k])
  have m: "m \<le> 2 ^ 20" using pre len by (simp add: heap_prefix_def)
  have c: "c \<le> 64 * unat (hp_alloc_length (heap_pages s ! k))" "c \<le> 2 ^ 26" "c \<le> 2 ^ 64"
    using blk m by (simp_all add: c_def)
  have u: "unat (of_nat c :: u64) = c" using c(2) by (intro unat_of_nat_u64) simp
  have "memcpy (chunk_addr m) (chunk_addr k) (of_nat c) (kmem s) x =
      (if in_range (chunk_addr m) c x then kmem s (chunk_addr k + (x - chunk_addr m)) else kmem s x)" for x
    using blk c m
    by (subst memcpy_spec) (simp_all add: u disjoint_ranges_def no_wrap_def chunk_addr_unat)
  thus ?thesis
    using krealloc_byte_spec [OF wf pre len k sz room] in_range_of_nat [OF _ c(3)]
    unfolding c_def [symmetric] by force
qed

definition one_block_heap :: vmm where
  "one_block_heap = \<lparr>irq_enabled = True, kmem = (\<lambda>a. ucast a),
     heap_pages = [\<lparr>hp_status = 1, hp_size = 64, hp_alloc_length = 2\<rparr>,
                   \<lparr>hp_status = 1, hp_size = 64, hp_alloc_length = 0\<rparr>,
                   new_heap_page, new_heap_page, new_heap_page]\<rparr>"

lemma krealloc_byte_copies_witness:
  "\<exists>s'. krealloc_byte (chunk_addr 0) 130 one_block_heap = Some (chunk_addr 2, s') \<and>
     (\<forall>i<128. kmem s' (chunk_addr 2 + of_nat i) = kmem one_block_heap (chunk_addr 0 + of_nat i)) \<and>
     (\<forall>x. \<not> in_range (chunk_addr 2) 128 x \<longrightarrow> kmem s' x = kmem one_block_heap x)"
proof -
  have "heap_wf (heap_pages one_block_heap)" "heap_prefix 2 (heap_pages one_block_heap)"
    by code_simp+
  thus ?thesis
    using krealloc_byte_copies [of one_block_heap 2 0 130] by (simp add: one_block_heap_def)
qed

end
