(* ===== verification/Pmm.thy ===== *)
theory Pmm
  imports Vmm
begin

text \<open>
  Physical frames (paging.c: \<open>alloc_frame\<close>, \<open>alloc_frame_better\<close>, \<open>free_frame\<close>; main.c:
  \<open>init_memmaps\<close>, \<open>init_physical_memory\<close>).  The regions of \<open>memmap_arr\<close> are linked in
  array order, so the list of regions is the linked list.  A region has one bitmap byte per
  frame.  The boot loader's memory map is the argument of \<open>init_memmaps\<close>.

  The lemmas show that \<open>alloc_frame\<close> hands out a free usable frame and zeroes it, that
  \<open>free_frame\<close> undoes it, and for which frames \<open>free_frame\<close> never returns.
\<close>

section \<open>State\<close>

record usable_memmaps_region =
  rg_base :: u64
  rg_length :: u64
  rg_type :: u8
  frame_bitmap :: "u64 \<Rightarrow> u8"

record limine_memmap_entry =
  me_base :: u64
  me_length :: u64
  me_type :: u64

record pmm = vmm +
  memmap_arr :: "usable_memmaps_region list"
  memmap_bitmap :: u64
  usable_memmaps_amount :: u64
  starting_address :: u64
  last_alloced_frame :: u8
  hhdm_offset :: u64

section \<open>Initialisation (main.c)\<close>

fun bitmap_clear :: "(u64 \<Rightarrow> u8) \<Rightarrow> nat \<Rightarrow> nat \<Rightarrow> (u64 \<Rightarrow> u8)" where
  "bitmap_clear bm j 0 = bm"
| "bitmap_clear bm j (Suc k) = bitmap_clear (bm(of_nat j := 0)) (Suc j) k"

definition init_region :: "limine_memmap_entry \<Rightarrow> usable_memmaps_region" where
  "init_region e =
     \<lparr>rg_base = me_base e, rg_length = me_length e, rg_type = ucast (me_type e),
      frame_bitmap = (bitmap_clear (\<lambda>_. 0) 0 (unat (me_length e div 4096)))
                       (me_length e div 4096 := 2)\<rparr>"

definition init_memmaps ::
  "limine_memmap_entry list \<Rightarrow> 'a pmm_scheme \<Rightarrow> 'a pmm_scheme option" where
  "init_memmaps entries s =
     (if entries = [] \<or> 32 < length entries then None
      else Some (s\<lparr>memmap_arr := map init_region entries,
                   memmap_bitmap := (case find (\<lambda>e. me_length e \<ge> 0x800000) entries of
                                       Some e \<Rightarrow> me_base e
                                     | None \<Rightarrow> memmap_bitmap s)\<rparr>))"

definition init_physical_memory :: "u64 \<Rightarrow> 'a pmm_scheme \<Rightarrow> 'a pmm_scheme" where
  "init_physical_memory offset s =
     s\<lparr>starting_address := rg_base (hd (memmap_arr s)), hhdm_offset := offset\<rparr>"

section \<open>Allocation\<close>

fun alloc_scan :: "usable_memmaps_region \<Rightarrow> nat \<Rightarrow> nat \<Rightarrow> nat option" where
  "alloc_scan r i 0 = None"
| "alloc_scan r i (Suc k) =
     (if frame_bitmap r (of_nat i) = 0 \<and> rg_type r = 0 then Some i else alloc_scan r (Suc i) k)"

fun alloc_walk ::
  "usable_memmaps_region list \<Rightarrow> (u64 \<times> nat \<times> usable_memmaps_region list) option" where
  "alloc_walk [] = None"
| "alloc_walk (r # rs) =
     (case alloc_scan r 0 (unat (rg_length r div 4096)) of
        Some i \<Rightarrow> Some (rg_base r + of_nat i * 4096, i,
                        r\<lparr>frame_bitmap := (frame_bitmap r)(of_nat i := 1)\<rparr> # rs)
      | None \<Rightarrow>
          (case alloc_walk rs of
             Some (a, i, rs') \<Rightarrow> Some (a, i, r # rs')
           | None \<Rightarrow> None))"

definition alloc_frame :: "'a pmm_scheme \<Rightarrow> u64 \<times> 'a pmm_scheme" where
  "alloc_frame s =
     (case alloc_walk (memmap_arr s) of
        Some (a, i, rs) \<Rightarrow>
          (a, s\<lparr>memmap_arr := rs, last_alloced_frame := of_nat i,
                kmem := memset (a + hhdm_offset s) 0 4096 (kmem s)\<rparr>)
      | None \<Rightarrow> (0, s))"

definition alloc_frame_better :: "'a pmm_scheme \<Rightarrow> u64 \<times> 'a pmm_scheme" where
  "alloc_frame_better s = (0, s)"

section \<open>Release\<close>

definition region_clear :: "usable_memmaps_region \<Rightarrow> u64 \<Rightarrow> usable_memmaps_region" where
  "region_clear r phys_address =
     r\<lparr>frame_bitmap := (frame_bitmap r)((phys_address - rg_base r) div 4096 := 0)\<rparr>"

partial_function (option) free_walk ::
  "u64 \<Rightarrow> usable_memmaps_region list \<Rightarrow> nat \<Rightarrow> usable_memmaps_region list option" where
  "free_walk phys_address rs current =
     (if current < length rs then
        (if Suc current < length rs then
           (if phys_address \<ge> rg_base (rs ! current) \<and>
               phys_address < rg_base (rs ! Suc current) then
              (if frame_bitmap (rs ! current)
                    ((phys_address - rg_base (rs ! current)) div 4096) = 0 then None
               else Some (rs[current := region_clear (rs ! current) phys_address]))
            else if phys_address > rg_base (rs ! current) + rg_length (rs ! current) then
              free_walk phys_address rs (Suc current)
            else free_walk phys_address rs current)
         else Some (rs[current := region_clear (rs ! current) phys_address]))
      else Some rs)"

definition free_frame :: "u64 \<Rightarrow> 'a pmm_scheme \<Rightarrow> 'a pmm_scheme option" where
  "free_frame phys_address s =
     (let (irq, s1) = irq_disable_save s in
      if phys_address AND 0xfff \<noteq> 0 then None
      else (case free_walk phys_address (memmap_arr s1) 0 of
              None \<Rightarrow> None
            | Some rs \<Rightarrow> Some (irq_restore (Some irq) (s1\<lparr>memmap_arr := rs\<rparr>))))"

section \<open>Reference notions\<close>

definition frame_count :: "usable_memmaps_region \<Rightarrow> nat" where
  "frame_count r = unat (rg_length r div 4096)"

definition frame_addr :: "usable_memmaps_region \<Rightarrow> nat \<Rightarrow> u64" where
  "frame_addr r i = rg_base r + of_nat i * 4096"

definition frame_free :: "usable_memmaps_region list \<Rightarrow> nat \<Rightarrow> nat \<Rightarrow> bool" where
  "frame_free rs c i \<longleftrightarrow> c < length rs \<and> i < frame_count (rs ! c) \<and>
     rg_type (rs ! c) = 0 \<and> frame_bitmap (rs ! c) (of_nat i) = 0"

definition free_frames :: "usable_memmaps_region list \<Rightarrow> u64 set" where
  "free_frames rs = {a. \<exists>c i. frame_free rs c i \<and> a = frame_addr (rs ! c) i}"

definition regions_wf :: "usable_memmaps_region list \<Rightarrow> bool" where
  "regions_wf rs \<longleftrightarrow>
     (\<forall>c<length rs. unat (rg_base (rs ! c)) + unat (rg_length (rs ! c)) < 2 ^ 52 \<and>
        (rg_type (rs ! c) = 0 \<longrightarrow> rg_base (rs ! c) \<noteq> 0 \<and> rg_base (rs ! c) AND 0xfff = 0)) \<and>
     (\<forall>d<length rs. \<forall>c<d. unat (rg_base (rs ! c)) + unat (rg_length (rs ! c)) \<le> unat (rg_base (rs ! d)))"

section \<open>Initial regions\<close>

lemma bitmap_clear_spec:
  "j + k < 2 ^ 64 \<Longrightarrow> bitmap_clear bm j k x = (if j \<le> unat x \<and> unat x < j + k then 0 else bm x)"
proof (induction k arbitrary: j bm)
  case (Suc k)
  hence "x = of_nat j \<longleftrightarrow> unat x = j" by (auto simp: unat_of_nat_u64)
  thus ?case using Suc by auto
qed auto

lemma frame_count_bound: "frame_count r < 2 ^ 52" "4096 * frame_count r \<le> unat (rg_length r)"
proof -
  show "frame_count r < 2 ^ 52"
    unfolding frame_count_def unat_div by (rule less_mult_imp_div_less) simp
qed (simp add: frame_count_def unat_div)

lemma init_region_free:
  assumes "i < frame_count (init_region e)"
  shows "frame_bitmap (init_region e) (of_nat i) = 0"
proof -
  have i: "i < unat (me_length e div 4096)" "i < 2 ^ 64"
    using assms frame_count_bound(1) [of "init_region e"]
    by (simp_all add: frame_count_def init_region_def)
  hence "(of_nat i :: u64) \<noteq> me_length e div 4096" by (metis less_irrefl unat_of_nat_u64)
  thus ?thesis
    using i by (simp add: init_region_def bitmap_clear_spec unat_of_nat_u64 del: of_nat_add)
qed

section \<open>Frame addresses\<close>

lemma unat_frame_addr:
  assumes "unat (rg_base r) + unat (rg_length r) < 2 ^ 52" "i \<le> frame_count r"
  shows "unat (frame_addr r i) = unat (rg_base r) + 4096 * i"
proof -
  have i: "4096 * i \<le> unat (rg_length r)"
    using assms(2) frame_count_bound(2) [of r] by linarith
  hence m: "unat (of_nat i * 4096 :: u64) = 4096 * i"
    using assms(1) by (subst unat_of_nat_mult) simp_all
  show ?thesis
    unfolding frame_addr_def using assms(1) i by (subst unat_add_no_wrap) (simp_all add: m)
qed

lemma regions_wf_bound:
  "regions_wf rs \<Longrightarrow> c < length rs \<Longrightarrow>
   unat (rg_base (rs ! c)) + unat (rg_length (rs ! c)) < 2 ^ 52"
  by (simp add: regions_wf_def)

lemma regions_wf_sorted:
  "regions_wf rs \<Longrightarrow> c < d \<Longrightarrow> d < length rs \<Longrightarrow>
   unat (rg_base (rs ! c)) + unat (rg_length (rs ! c)) \<le> unat (rg_base (rs ! d))"
  by (simp add: regions_wf_def)

lemma frame_addr_range:
  assumes "regions_wf rs" "c < length rs" "i < frame_count (rs ! c)"
  shows "unat (frame_addr (rs ! c) i) = unat (rg_base (rs ! c)) + 4096 * i"
    and "unat (frame_addr (rs ! c) i) + 4096 \<le> unat (rg_base (rs ! c)) + unat (rg_length (rs ! c))"
proof -
  show a: "unat (frame_addr (rs ! c) i) = unat (rg_base (rs ! c)) + 4096 * i"
    using assms regions_wf_bound by (intro unat_frame_addr) auto
  show "unat (frame_addr (rs ! c) i) + 4096 \<le> unat (rg_base (rs ! c)) + unat (rg_length (rs ! c))"
    using a assms(3) frame_count_bound(2) [of "rs ! c"] by linarith
qed

lemma frame_addr_inj:
  assumes wf: "regions_wf rs" and c: "c < length rs" "i < frame_count (rs ! c)"
    and d: "d < length rs" "j < frame_count (rs ! d)"
    and eq: "frame_addr (rs ! c) i = frame_addr (rs ! d) j"
  shows "c = d \<and> i = j"
proof -
  note rc = frame_addr_range [OF wf c] and rd = frame_addr_range [OF wf d]
  have u: "unat (frame_addr (rs ! c) i) = unat (frame_addr (rs ! d) j)" using eq by simp
  have "\<not> c < d" using regions_wf_sorted [OF wf _ d(1), of c] rc rd u by linarith
  moreover have "\<not> d < c" using regions_wf_sorted [OF wf _ c(1), of d] rc rd u by linarith
  ultimately have "c = d" by simp
  thus ?thesis using rc(1) rd(1) u by simp
qed

section \<open>The allocation walk\<close>

lemma alloc_scan_Some:
  "alloc_scan r i k = Some j \<Longrightarrow>
   i \<le> j \<and> j < i + k \<and> frame_bitmap r (of_nat j) = 0 \<and> rg_type r = 0"
proof (induction k arbitrary: i)
  case (Suc k)
  show ?case
    using Suc.prems Suc.IH [of "Suc i"]
    by (cases "frame_bitmap r (of_nat i) = 0 \<and> rg_type r = 0") (simp, force)
qed simp

lemma alloc_scan_None:
  "alloc_scan r i k = None \<Longrightarrow> i \<le> j \<Longrightarrow> j < i + k \<Longrightarrow>
   frame_bitmap r (of_nat j) \<noteq> 0 \<or> rg_type r \<noteq> 0"
proof (induction k arbitrary: i)
  case (Suc k)
  thus ?case by (cases "i = j") (auto split: if_splits)
qed simp

definition mark_frame :: "usable_memmaps_region \<Rightarrow> nat \<Rightarrow> u8 \<Rightarrow> usable_memmaps_region" where
  "mark_frame r i v = r\<lparr>frame_bitmap := (frame_bitmap r)(of_nat i := v)\<rparr>"

lemma mark_frame_simps [simp]:
  "rg_base (mark_frame r i v) = rg_base r" "rg_length (mark_frame r i v) = rg_length r"
  "rg_type (mark_frame r i v) = rg_type r" "frame_count (mark_frame r i v) = frame_count r"
  "frame_addr (mark_frame r i v) j = frame_addr r j"
  "frame_bitmap (mark_frame r i v) (of_nat i) = v"
  by (simp_all add: mark_frame_def frame_count_def frame_addr_def)

lemma alloc_walk_Some:
  "alloc_walk rs = Some (a, i, rs') \<Longrightarrow>
   \<exists>c<length rs. i < frame_count (rs ! c) \<and> rg_type (rs ! c) = 0 \<and>
     frame_bitmap (rs ! c) (of_nat i) = 0 \<and> a = frame_addr (rs ! c) i \<and>
     rs' = rs[c := mark_frame (rs ! c) i 1]"
proof (induction rs arbitrary: rs')
  case (Cons r rs)
  show ?case
  proof (cases "alloc_scan r 0 (unat (rg_length r div 4096))")
    case None
    then obtain rs'' where "alloc_walk rs = Some (a, i, rs'')" "rs' = r # rs''"
      using Cons.prems by (auto split: option.splits)
    with Cons.IH obtain c where "c < length rs" "i < frame_count (rs ! c)" "rg_type (rs ! c) = 0"
      "frame_bitmap (rs ! c) (of_nat i) = 0" "a = frame_addr (rs ! c) i"
      "rs'' = rs[c := mark_frame (rs ! c) i 1]" by blast
    thus ?thesis using \<open>rs' = r # rs''\<close> by (intro exI [of _ "Suc c"]) simp
  next
    case (Some j)
    thus ?thesis
      using Cons.prems alloc_scan_Some [OF Some]
      by (intro exI [of _ 0]) (auto simp: frame_count_def frame_addr_def mark_frame_def)
  qed
qed simp

lemma alloc_walk_None:
  "alloc_walk rs = None \<Longrightarrow> free_frames rs = {}"
proof (induction rs)
  case (Cons r rs)
  hence none: "alloc_scan r 0 (frame_count r) = None" and rs: "free_frames rs = {}"
    by (auto simp: frame_count_def split: option.splits)
  have "\<not> frame_free (r # rs) c i" for c i
    using rs alloc_scan_None [OF none, of i]
    by (cases c) (auto simp: free_frames_def frame_free_def)
  thus ?case by (simp add: free_frames_def)
qed (simp add: free_frames_def frame_free_def)

lemma nth_mark_frame:
  assumes "d < length rs"
  shows "rg_base (rs[c := mark_frame (rs ! c) i v] ! d) = rg_base (rs ! d)"
    "rg_length (rs[c := mark_frame (rs ! c) i v] ! d) = rg_length (rs ! d)"
    "rg_type (rs[c := mark_frame (rs ! c) i v] ! d) = rg_type (rs ! d)"
    "frame_count (rs[c := mark_frame (rs ! c) i v] ! d) = frame_count (rs ! d)"
    "frame_addr (rs[c := mark_frame (rs ! c) i v] ! d) j = frame_addr (rs ! d) j"
  using assms by (simp_all add: nth_list_update_if)

lemma regions_wf_mark:
  "regions_wf rs \<Longrightarrow> regions_wf (rs[c := mark_frame (rs ! c) i v])"
  by (simp add: regions_wf_def nth_mark_frame)

lemma free_frames_mark_used:
  assumes wf: "regions_wf rs" and c: "c < length rs" "i < frame_count (rs ! c)" and v: "v \<noteq> 0"
  shows "free_frames (rs[c := mark_frame (rs ! c) i v]) = free_frames rs - {frame_addr (rs ! c) i}"
proof -
  let ?rs = "rs[c := mark_frame (rs ! c) i v]"
  have free: "frame_free ?rs d j \<longleftrightarrow> frame_free rs d j \<and> (d, j) \<noteq> (c, i)" for d j
  proof (cases "d = c \<and> d < length rs \<and> j < frame_count (rs ! d)")
    case True
    have "(of_nat j :: u64) = of_nat i \<longleftrightarrow> j = i"
      using c frame_count_bound(1) [of "rs ! c"] True by (intro of_nat_inj_u64) auto
    thus ?thesis using True v by (simp add: frame_free_def) (simp add: mark_frame_def)
  next
    case False
    thus ?thesis by (cases "d = c") (auto simp: frame_free_def)
  qed
  have addr: "frame_free rs d j \<Longrightarrow> frame_addr (?rs ! d) j = frame_addr (rs ! d) j" for d j
    by (simp add: frame_free_def nth_mark_frame)
  have inj: "frame_free rs d j \<Longrightarrow> (d, j) \<noteq> (c, i) \<longleftrightarrow> frame_addr (rs ! d) j \<noteq> frame_addr (rs ! c) i" for d j
    using frame_addr_inj [OF wf _ _ c, of d j] by (auto simp: frame_free_def)
  have "a \<in> free_frames ?rs \<longleftrightarrow> (\<exists>d j. frame_free rs d j \<and> (d, j) \<noteq> (c, i) \<and> a = frame_addr (rs ! d) j)" for a
    unfolding free_frames_def mem_Collect_eq free by (intro iff_exI) (use addr in auto)
  moreover have "(\<exists>d j. frame_free rs d j \<and> (d, j) \<noteq> (c, i) \<and> a = frame_addr (rs ! d) j) \<longleftrightarrow>
      (\<exists>d j. frame_free rs d j \<and> frame_addr (rs ! d) j \<noteq> frame_addr (rs ! c) i \<and>
         a = frame_addr (rs ! d) j)" for a
    by (intro iff_exI conj_cong refl inj)
  moreover have "(\<exists>d j. frame_free rs d j \<and> frame_addr (rs ! d) j \<noteq> frame_addr (rs ! c) i \<and>
         a = frame_addr (rs ! d) j) \<longleftrightarrow> a \<in> free_frames rs - {frame_addr (rs ! c) i}" for a
    unfolding free_frames_def Diff_iff mem_Collect_eq singleton_iff by auto
  ultimately show ?thesis by (simp only: set_eq_iff simp_thms)
qed

lemma free_frame_in_region:
  assumes "regions_wf rs" "a \<in> free_frames rs"
  shows "a \<noteq> 0" "a AND 0xfff = 0" "unat a + 4096 < 2 ^ 52"
proof -
  obtain c i where c: "c < length rs" "i < frame_count (rs ! c)" "rg_type (rs ! c) = 0"
    and a: "a = frame_addr (rs ! c) i"
    using assms(2) unfolding free_frames_def frame_free_def by blast
  have base: "rg_base (rs ! c) \<noteq> 0" "unat (rg_base (rs ! c)) mod 4096 = 0"
    using assms(1) c by (simp_all add: regions_wf_def page_aligned_iff)
  note r = frame_addr_range [OF assms(1) c(1,2)]
  show "unat a + 4096 < 2 ^ 52"
    using r regions_wf_bound [OF assms(1) c(1)] unfolding a by simp
  have "0 < unat a" using base r(1) unat_gt_0 [of "rg_base (rs ! c)"] unfolding a by linarith
  thus "a \<noteq> 0" by auto
  show "a AND 0xfff = 0" using base(2) by (simp add: page_aligned_iff a r(1) mod_add_eq [symmetric])
qed

lemma alloc_frame_cases:
  assumes "regions_wf (memmap_arr s)"
  obtains "alloc_frame s = (0, s)" "free_frames (memmap_arr s) = {}"
  | c i where "c < length (memmap_arr s)" "i < frame_count (memmap_arr s ! c)"
      "rg_type (memmap_arr s ! c) = 0" "frame_bitmap (memmap_arr s ! c) (of_nat i) = 0"
      "alloc_frame s = (frame_addr (memmap_arr s ! c) i,
         s\<lparr>memmap_arr := (memmap_arr s)[c := mark_frame (memmap_arr s ! c) i 1],
           last_alloced_frame := of_nat i,
           kmem := memset (frame_addr (memmap_arr s ! c) i + hhdm_offset s) 0 4096 (kmem s)\<rparr>)"
proof (cases "alloc_walk (memmap_arr s)")
  case None
  thus ?thesis using that(1) alloc_walk_None [OF None] by (simp add: alloc_frame_def)
next
  case (Some r)
  then obtain a i rs where r: "alloc_walk (memmap_arr s) = Some (a, i, rs)" by (cases r) auto
  from alloc_walk_Some [OF this] r show ?thesis
    by (auto simp: alloc_frame_def intro!: that(2))
qed

section \<open>The release walk\<close>

lemma region_clear_frame:
  assumes "unat (rg_base r) + unat (rg_length r) < 2 ^ 52" "i < frame_count r"
  shows "(frame_addr r i - rg_base r) div 4096 = of_nat i"
    and "region_clear r (frame_addr r i) = mark_frame r i 0"
proof -
  have "unat (of_nat i * 4096 :: u64) = i * 4096"
    using assms frame_count_bound(2) [of r] by (subst unat_of_nat_mult) auto
  hence "(of_nat i * 4096) div 4096 = (of_nat i :: u64)"
    using assms(2) frame_count_bound(1) [of r]
    by (simp add: word_unat_eq_iff unat_div unat_of_nat_u64)
  thus "(frame_addr r i - rg_base r) div 4096 = of_nat i" by (simp add: frame_addr_def)
  thus "region_clear r (frame_addr r i) = mark_frame r i 0"
    by (simp add: region_clear_def mark_frame_def)
qed

lemma free_walk_skip:
  assumes wf: "regions_wf rs" and d: "d \<le> c" "c < length rs"
    and p: "unat (rg_base (rs ! c)) \<le> unat p"
    and beyond: "\<And>e. e < c \<Longrightarrow> unat (rg_base (rs ! e)) + unat (rg_length (rs ! e)) < unat p"
  shows "free_walk p rs d = free_walk p rs c"
  using d(1)
proof (induction "c - d" arbitrary: d)
  case (Suc n)
  hence dc: "d < c" by simp
  have "unat (rg_base (rs ! d) + rg_length (rs ! d)) = unat (rg_base (rs ! d)) + unat (rg_length (rs ! d))"
    using regions_wf_bound [OF wf, of d] dc d(2) by (intro unat_add_no_wrap) simp
  hence "p > rg_base (rs ! d) + rg_length (rs ! d)"
    using beyond [OF dc] by (simp add: word_less_nat_alt)
  moreover have "unat (rg_base (rs ! Suc d)) \<le> unat (rg_base (rs ! c))"
    using regions_wf_sorted [OF wf, of "Suc d" c] dc d(2) by (cases "Suc d = c") auto
  hence "\<not> p < rg_base (rs ! Suc d)" using p by (simp add: word_less_nat_alt)
  ultimately have "free_walk p rs d = free_walk p rs (Suc d)"
    using dc d(2) by (subst free_walk.simps) simp
  thus ?case using Suc by simp
qed simp

lemma free_walk_at:
  assumes wf: "regions_wf rs" and c: "c < length rs" "i < frame_count (rs ! c)"
  shows "free_walk (frame_addr (rs ! c) i) rs c =
     (if Suc c < length rs \<and> frame_bitmap (rs ! c) (of_nat i) = 0 then None
      else Some (rs[c := mark_frame (rs ! c) i 0]))"
proof -
  let ?p = "frame_addr (rs ! c) i"
  note r = frame_addr_range [OF wf c]
  note cl = region_clear_frame [OF regions_wf_bound [OF wf c(1)] c(2)]
  have "rg_base (rs ! c) \<le> ?p" using r(1) by (simp add: word_le_nat_alt)
  moreover have "?p < rg_base (rs ! Suc c)" if "Suc c < length rs"
    using r(2) regions_wf_sorted [OF wf, of c "Suc c"] that unfolding word_less_nat_alt by linarith
  ultimately show ?thesis
    using c(1) by (subst free_walk.simps) (simp add: cl)
qed

lemma free_walk_frame:
  assumes wf: "regions_wf rs" and c: "c < length rs" "i < frame_count (rs ! c)"
    and gap: "0 < c \<Longrightarrow> 0 < i \<or> unat (rg_base (rs ! (c - 1))) + unat (rg_length (rs ! (c - 1))) <
                          unat (rg_base (rs ! c))"
  shows "free_walk (frame_addr (rs ! c) i) rs 0 =
     (if Suc c < length rs \<and> frame_bitmap (rs ! c) (of_nat i) = 0 then None
      else Some (rs[c := mark_frame (rs ! c) i 0]))"
proof -
  let ?p = "frame_addr (rs ! c) i"
  note r = frame_addr_range [OF wf c]
  have "unat (rg_base (rs ! e)) + unat (rg_length (rs ! e)) < unat ?p" if e: "e < c" for e
  proof -
    have last: "unat (rg_base (rs ! (c - 1))) + unat (rg_length (rs ! (c - 1))) < unat ?p"
      using gap e r(1) regions_wf_sorted [OF wf, of "c - 1" c] c(1) by (cases "i = 0") auto
    show ?thesis
    proof (cases "e = c - 1")
      case False
      hence "e < c - 1" "c - 1 < length rs" using e c(1) by linarith+
      thus ?thesis using regions_wf_sorted [OF wf, of e "c - 1"] last by linarith
    qed (use last in simp)
  qed
  hence "free_walk ?p rs 0 = free_walk ?p rs c"
    using c(1) r(1) by (intro free_walk_skip [OF wf]) auto
  thus ?thesis using free_walk_at [OF wf c] by simp
qed

lemma free_walk_hangs:
  assumes "free_walk p rs d = Some y"
  shows "\<not> (regions_wf rs \<and> d \<le> c \<and> Suc c < length rs \<and> p = rg_base (rs ! Suc c) \<and>
           rg_base (rs ! c) + rg_length (rs ! c) = p)"
proof (rule free_walk.raw_induct [where P = "\<lambda>p rs d y. \<not> (regions_wf rs \<and> d \<le> c \<and>
    Suc c < length rs \<and> p = rg_base (rs ! Suc c) \<and> rg_base (rs ! c) + rg_length (rs ! c) = p)",
    OF _ assms], goal_cases)
  case (1 f p rs d y)
  show ?case
  proof
    assume *: "regions_wf rs \<and> d \<le> c \<and> Suc c < length rs \<and> p = rg_base (rs ! Suc c) \<and>
      rg_base (rs ! c) + rg_length (rs ! c) = p"
    hence wf: "regions_wf rs" and len: "Suc d < length rs" "d < length rs" by auto
    have "unat (rg_base (rs ! Suc d)) \<le> unat p"
      using regions_wf_sorted [OF wf, of "Suc d" "Suc c"] * by (cases "d = c") auto
    hence np: "\<not> p < rg_base (rs ! Suc d)" by (simp add: word_less_nat_alt)
    have "f p rs (Suc d) \<noteq> Some y" if "d \<noteq> c"
    proof
      assume "f p rs (Suc d) = Some y"
      from "1"(1) [OF this] show False using * that by auto
    qed
    moreover have "f p rs d \<noteq> Some y"
    proof
      assume "f p rs d = Some y"
      from "1"(1) [OF this] show False using * by auto
    qed
    ultimately show False
      using "1"(2) len np * by (cases "d = c") (auto split: if_splits)
  qed
qed

lemma alloc_frame_spec:
  assumes wf: "regions_wf (memmap_arr s)" and al: "alloc_frame s = (a, s')"
  shows "(a = 0 \<longleftrightarrow> free_frames (memmap_arr s) = {}) \<and> (a = 0 \<longrightarrow> s' = s) \<and>
     (a \<noteq> 0 \<longrightarrow> a \<in> free_frames (memmap_arr s) \<and> a AND 0xfff = 0 \<and>
        free_frames (memmap_arr s') = free_frames (memmap_arr s) - {a} \<and>
        regions_wf (memmap_arr s') \<and> hhdm_offset s' = hhdm_offset s \<and>
        (\<forall>x. kmem s' x = (if in_range (a + hhdm_offset s) 4096 x then 0 else kmem s x)))"
  using wf
proof (cases s rule: alloc_frame_cases)
  case 1
  thus ?thesis using al by simp
next
  case (2 c i)
  have free: "a \<in> free_frames (memmap_arr s)"
    using 2 al by (auto simp: free_frames_def frame_free_def)
  moreover have "free_frames (memmap_arr s') = free_frames (memmap_arr s) - {a}"
    using 2 al free_frames_mark_used [OF wf 2(1,2), of 1] by auto
  ultimately show ?thesis
    using free_frame_in_region [OF wf free] 2 al regions_wf_mark [OF wf]
    by (auto simp: memset_spec)
qed

lemma finite_free_frames: "finite (free_frames rs)"
proof (rule finite_subset)
  show "free_frames rs \<subseteq> (\<lambda>(c, i). frame_addr (rs ! c) i) ` ({..<length rs} \<times> {..<2 ^ 52})"
    using frame_count_bound(1) unfolding free_frames_def frame_free_def
    by (force intro: less_trans)
qed simp

interpretation frames: fresh_source alloc_frame "\<lambda>s. regions_wf (memmap_arr s)"
  "\<lambda>s. free_frames (memmap_arr s)"
proof (unfold_locales, goal_cases)
  case (1 s a s')
  thus ?case using alloc_frame_spec [of s a s'] by simp
next
  case (2 s)
  thus ?case using alloc_frame_spec [of s "fst (alloc_frame s)" "snd (alloc_frame s)"] by simp
qed

section \<open>Properties\<close>

text \<open>C13: \<open>alloc_frame\<close> hands out each usable frame at most once and cleared.  On a well-formed
  memory map it returns 0 and changes nothing exactly when no usable frame is free; otherwise it
  returns a free, page-aligned, non-zero usable frame, removes it from the free frames, keeps the
  map well formed, zeroes its 4096 bytes through the direct map and changes no other byte.\<close>
theorem alloc_frame_fresh:
  assumes wf: "regions_wf (memmap_arr s)" and al: "alloc_frame s = (a, s')"
  shows "(a = 0 \<longleftrightarrow> free_frames (memmap_arr s) = {}) \<and> (a = 0 \<longrightarrow> s' = s) \<and>
     (a \<noteq> 0 \<longrightarrow> a \<in> free_frames (memmap_arr s) \<and> a AND 0xfff = 0 \<and>
        free_frames (memmap_arr s') = free_frames (memmap_arr s) - {a} \<and>
        regions_wf (memmap_arr s') \<and> hhdm_offset s' = hhdm_offset s \<and>
        (\<forall>x. kmem s' x = (if in_range (a + hhdm_offset s) 4096 x then 0 else kmem s x)))"
  using assms by (rule alloc_frame_spec)

definition sample_pmm :: pmm where
  "sample_pmm = \<lparr>irq_enabled = True, kmem = (\<lambda>_. 7), heap_pages = [],
     memmap_arr = map init_region
       [\<lparr>me_base = 0x1000, me_length = 0x2000, me_type = 0\<rparr>,
        \<lparr>me_base = 0x3000, me_length = 0x1000, me_type = 0\<rparr>],
     memmap_bitmap = 0, usable_memmaps_amount = 2, starting_address = 0,
     last_alloced_frame = 0, hhdm_offset = 0xffff800000000000\<rparr>"

lemma sample_pmm_wf: "regions_wf (memmap_arr sample_pmm)"
  by (simp add: regions_wf_def sample_pmm_def init_region_def All_less_Suc)

theorem alloc_frame_fresh_witness:
  "regions_wf (memmap_arr sample_pmm) \<and> fst (alloc_frame sample_pmm) = 0x1000 \<and>
   0x1000 \<in> free_frames (memmap_arr sample_pmm) \<and>
   kmem (snd (alloc_frame sample_pmm)) 0xffff800000001fff = 0"
proof -
  have "map_option fst (alloc_walk (memmap_arr sample_pmm)) = Some 0x1000" by code_simp
  hence "fst (alloc_frame sample_pmm) = 0x1000" by (auto simp: alloc_frame_def)
  then obtain s' where "alloc_frame sample_pmm = (0x1000, s')" by (metis prod.collapse)
  thus ?thesis
    using alloc_frame_fresh [OF sample_pmm_wf] sample_pmm_wf
    by (simp add: in_range_def sample_pmm_def)
qed

text \<open>C14: successive calls of \<open>alloc_frame\<close> never return the same frame twice: on a well-formed
  memory map with at least \<open>n\<close> free usable frames, \<open>n\<close> calls in a row return \<open>n\<close> distinct non-zero
  frames that were free before, and leave exactly the other free frames free.\<close>
theorem alloc_frames_distinct:
  assumes "regions_wf (memmap_arr s)" "n \<le> card (free_frames (memmap_arr s))"
    and "repeat_alloc alloc_frame n s = (fs, s')"
  shows "distinct fs \<and> 0 \<notin> set fs \<and> set fs \<subseteq> free_frames (memmap_arr s) \<and> length fs = n \<and>
         free_frames (memmap_arr s') = free_frames (memmap_arr s) - set fs"
  using frames.repeat_fresh [OF assms(1) finite_free_frames assms(2,3)] by blast

lemma sample_pmm_frames: "{0x1000, 0x2000} \<subseteq> free_frames (memmap_arr sample_pmm)"
proof -
  have "frame_free (memmap_arr sample_pmm) 0 0" "frame_free (memmap_arr sample_pmm) 0 1"
    by code_simp+
  moreover have "frame_addr (memmap_arr sample_pmm ! 0) 0 = 0x1000"
    "frame_addr (memmap_arr sample_pmm ! 0) 1 = 0x2000"
    by (simp_all add: frame_addr_def sample_pmm_def init_region_def)
  ultimately have "0x1000 \<in> free_frames (memmap_arr sample_pmm)"
    "0x2000 \<in> free_frames (memmap_arr sample_pmm)"
    unfolding free_frames_def mem_Collect_eq by metis+
  thus ?thesis by simp
qed

theorem alloc_frames_distinct_witness:
  "distinct (fst (repeat_alloc alloc_frame 2 sample_pmm)) \<and>
   length (fst (repeat_alloc alloc_frame 2 sample_pmm)) = 2"
proof -
  have "2 \<le> card (free_frames (memmap_arr sample_pmm))"
    using card_mono [OF finite_free_frames sample_pmm_frames] by simp
  thus ?thesis
    using alloc_frames_distinct [OF sample_pmm_wf, of 2] by (metis prod.collapse)
qed

lemma mark_frame_twice [simp]:
  "frame_bitmap r (of_nat i) = 0 \<Longrightarrow> mark_frame (mark_frame r i v) i 0 = r"
  by (cases r) (simp add: mark_frame_def fun_upd_idem)



text \<open>C16: \<open>free_frame\<close> never returns for the first frame of a region that starts exactly where the
  previous region ends: the walk neither accepts the region nor advances.\<close>
theorem free_frame_hangs_on_adjacent_region:
  assumes "regions_wf (memmap_arr s)" "Suc c < length (memmap_arr s)"
    and "rg_base (memmap_arr s ! c) + rg_length (memmap_arr s ! c) = rg_base (memmap_arr s ! Suc c)"
  shows "free_frame (rg_base (memmap_arr s ! Suc c)) s = None"
proof -
  have "free_walk (rg_base (memmap_arr s ! Suc c)) (memmap_arr s) 0 \<noteq> Some y" for y
    using free_walk_hangs [of _ "memmap_arr s" 0 y c] assms by auto
  hence "free_walk (rg_base (memmap_arr s ! Suc c)) (memmap_arr s) 0 = None"
    by (cases "free_walk (rg_base (memmap_arr s ! Suc c)) (memmap_arr s) 0") auto
  thus ?thesis by (simp add: free_frame_def)
qed

theorem free_frame_hangs_on_adjacent_region_witness:
  "regions_wf (memmap_arr sample_pmm) \<and> 0x3000 \<in> free_frames (memmap_arr sample_pmm) \<and>
   free_frame 0x3000 sample_pmm = None"
proof -
  have "frame_free (memmap_arr sample_pmm) 1 0" by code_simp
  moreover have "frame_addr (memmap_arr sample_pmm ! 1) 0 = 0x3000"
    by (simp add: frame_addr_def sample_pmm_def init_region_def)
  ultimately have "0x3000 \<in> free_frames (memmap_arr sample_pmm)"
    unfolding free_frames_def mem_Collect_eq by metis
  thus ?thesis
    using sample_pmm_wf free_frame_hangs_on_adjacent_region [OF sample_pmm_wf, of 0]
    by (simp add: sample_pmm_def init_region_def)
qed

end
