(* ===== verification/Oa_Hash.thy ===== *)
theory Oa_Hash
  imports Vmm
begin

text \<open>
  The open addressing hash table of oa_hash/oa_hash.h, which holds the file descriptors of a
  thread.  Keys are pointers to bytes in the kernel memory, so every operation takes the memory.
  The bucket array is a list beside its address; a slot is a position in it, which stays below
  the capacity, so slot arithmetic never wraps.

  The abstraction \<open>ht_map\<close> is the finite map from key bytes to values.  Under the invariant
  \<open>ht_wf\<close> (distinct keys, and no EMPTY slot between the home slot of a key and the slot that
  holds it) each operation refines its counterpart on that map.
\<close>

section \<open>Data\<close>

datatype oa_hash_entry_state = OA_HASH_ENTRY_EMPTY | OA_HASH_ENTRY_OCCUPIED | OA_HASH_ENTRY_DELETED

record oa_hash_entry =
  entry_state :: oa_hash_entry_state
  key_buf :: u64
  key_length :: u64
  entry_value :: u64

record oa_hash =
  ht_length :: u64
  ht_capacity :: u64
  ht_buckets_ptr :: u64
  ht_buckets :: "oa_hash_entry list"

definition empty_entry :: oa_hash_entry where
  "empty_entry = \<lparr>entry_state = OA_HASH_ENTRY_EMPTY, key_buf = NULL, key_length = 0, entry_value = NULL\<rparr>"

section \<open>Operations\<close>

definition oa_hash_init :: "u64 \<Rightarrow> u64 \<Rightarrow> oa_hash" where
  "oa_hash_init buckets capacity =
     \<lparr>ht_length = 0, ht_capacity = capacity, ht_buckets_ptr = buckets,
      ht_buckets = replicate (unat capacity) empty_entry\<rparr>"

definition oa_hash_cleanup :: "oa_hash option \<Rightarrow> oa_hash option" where
  "oa_hash_cleanup ht =
     (case ht of
        None \<Rightarrow> None
      | Some h \<Rightarrow> Some (h\<lparr>ht_length := 0, ht_capacity := 0, ht_buckets_ptr := NULL, ht_buckets := []\<rparr>))"

definition djb2_step :: "u64 \<Rightarrow> u8 \<Rightarrow> u64" where
  "djb2_step hash c = push_bit 5 (hash AND 0x7fffffff) + hash + ucast c"

fun genhash_loop :: "mem \<Rightarrow> u64 \<Rightarrow> nat \<Rightarrow> u64 \<Rightarrow> u64" where
  "genhash_loop m str 0 hash = hash"
| "genhash_loop m str (Suc len) hash = genhash_loop m (str + 1) len (djb2_step hash (m str))"

definition oa_hash_genhash :: "mem \<Rightarrow> u64 \<Rightarrow> u64 \<Rightarrow> u64 \<Rightarrow> u64" where
  "oa_hash_genhash m key len capacity =
     (if key = NULL \<or> capacity = 0 then 0 else genhash_loop m key (unat len) 5381 mod capacity)"

definition entry_matches :: "mem \<Rightarrow> oa_hash_entry \<Rightarrow> u64 \<Rightarrow> u64 \<Rightarrow> bool" where
  "entry_matches m e key len \<longleftrightarrow>
     entry_state e = OA_HASH_ENTRY_OCCUPIED \<and> len = key_length e \<and> memcmp m (key_buf e) key len = 0"

text \<open>The probing loops count down the slots not yet visited.  They leave through the test for
  the start slot before the count runs out: the lemmas below show that they visit the \<open>capacity\<close>
  slots in order from the start slot.\<close>

fun get_entry_loop :: "mem \<Rightarrow> oa_hash \<Rightarrow> u64 \<Rightarrow> u64 \<Rightarrow> nat \<Rightarrow> nat \<Rightarrow> nat \<Rightarrow> nat option" where
  "get_entry_loop m ht key len start_slot slot 0 = None"
| "get_entry_loop m ht key len start_slot slot (Suc k) =
     (let entry = ht_buckets ht ! slot in
      if entry_state entry = OA_HASH_ENTRY_EMPTY then None
      else if entry_matches m entry key len then Some slot
      else
        (let slot' = (slot + 1) mod unat (ht_capacity ht) in
         if slot' = start_slot then None else get_entry_loop m ht key len start_slot slot' k))"

definition oa_hash_get_entry :: "mem \<Rightarrow> oa_hash \<Rightarrow> u64 \<Rightarrow> u64 \<Rightarrow> nat option" where
  "oa_hash_get_entry m ht key len =
     (let start_slot = unat (oa_hash_genhash m key len (ht_capacity ht)) in
      if len = 0 \<or> ht_capacity ht = 0 then None
      else get_entry_loop m ht key len start_slot start_slot (unat (ht_capacity ht)))"

definition oa_hash_get :: "mem \<Rightarrow> oa_hash \<Rightarrow> u64 \<Rightarrow> u64 \<Rightarrow> u64" where
  "oa_hash_get m ht key len =
     (case oa_hash_get_entry m ht key len of
        None \<Rightarrow> NULL
      | Some slot \<Rightarrow> entry_value (ht_buckets ht ! slot))"

fun set_entry_loop ::
  "mem \<Rightarrow> oa_hash \<Rightarrow> u64 \<Rightarrow> u64 \<Rightarrow> u64 \<Rightarrow> nat \<Rightarrow> nat \<Rightarrow> nat option \<Rightarrow> nat \<Rightarrow> (nat \<times> oa_hash) option" where
  "set_entry_loop m ht key len val start_slot slot first_deleted 0 = None"
| "set_entry_loop m ht key len val start_slot slot first_deleted (Suc k) =
     (let entry = ht_buckets ht ! slot;
          fd = (if first_deleted = None \<and> entry_state entry = OA_HASH_ENTRY_DELETED
                then Some slot else first_deleted)
      in if entry_state entry = OA_HASH_ENTRY_EMPTY then
           (let slot' = (case fd of None \<Rightarrow> slot | Some d \<Rightarrow> d)
            in Some (slot', ht\<lparr>ht_buckets := (ht_buckets ht)[slot' :=
                   \<lparr>entry_state = OA_HASH_ENTRY_OCCUPIED, key_buf = key, key_length = len,
                    entry_value = val\<rparr>],
                 ht_length := ht_length ht + 1\<rparr>))
         else if entry_matches m entry key len then
           Some (slot, ht\<lparr>ht_buckets := (ht_buckets ht)[slot := entry\<lparr>entry_value := val\<rparr>]\<rparr>)
         else
           (let slot' = (slot + 1) mod unat (ht_capacity ht) in
            if slot' = start_slot then None
            else set_entry_loop m ht key len val start_slot slot' fd k))"

definition oa_hash_set_entry ::
  "mem \<Rightarrow> oa_hash \<Rightarrow> u64 \<Rightarrow> u64 \<Rightarrow> u64 \<Rightarrow> (nat \<times> oa_hash) option" where
  "oa_hash_set_entry m ht key len val =
     (let start_slot = unat (oa_hash_genhash m key len (ht_capacity ht)) in
      if len = 0 \<or> ht_capacity ht = 0 then None
      else set_entry_loop m ht key len val start_slot start_slot None (unat (ht_capacity ht)))"

definition oa_hash_set :: "mem \<Rightarrow> oa_hash \<Rightarrow> u64 \<Rightarrow> u64 \<Rightarrow> u64 \<Rightarrow> u64 \<times> oa_hash" where
  "oa_hash_set m ht key len val =
     (case oa_hash_set_entry m ht key len val of
        None \<Rightarrow> (NULL, ht)
      | Some (slot, ht') \<Rightarrow> (entry_value (ht_buckets ht' ! slot), ht'))"

text \<open>\<open>oa_hash_remove\<close> probes with the same loop as \<open>oa_hash_get_entry\<close>; it marks the slot
  DELETED and frees the key.\<close>

definition remove_slot :: "oa_hash \<Rightarrow> nat \<Rightarrow> oa_hash" where
  "remove_slot ht slot =
     ht\<lparr>ht_buckets := (ht_buckets ht)[slot := (ht_buckets ht ! slot)\<lparr>entry_state := OA_HASH_ENTRY_DELETED\<rparr>],
        ht_length := ht_length ht - 1\<rparr>"

definition oa_hash_remove ::
  "oa_hash \<Rightarrow> u64 \<Rightarrow> u64 \<Rightarrow> 'a vmm_scheme \<Rightarrow> (int \<times> oa_hash \<times> 'a vmm_scheme) option" where
  "oa_hash_remove ht key len s =
     (let start_slot = unat (oa_hash_genhash (kmem s) key len (ht_capacity ht)) in
      if len = 0 \<or> ht_capacity ht = 0 then Some (0, ht, s)
      else
        (case get_entry_loop (kmem s) ht key len start_slot start_slot (unat (ht_capacity ht)) of
           None \<Rightarrow> Some (0, ht, s)
         | Some slot \<Rightarrow>
             (case kfree (key_buf (ht_buckets ht ! slot)) s of
                None \<Rightarrow> None
              | Some s' \<Rightarrow> Some (1, remove_slot ht slot, s'))))"

fun rehash_loop :: "mem \<Rightarrow> oa_hash_entry list \<Rightarrow> oa_hash \<Rightarrow> oa_hash option" where
  "rehash_loop m [] ht = Some ht"
| "rehash_loop m (e # es) ht =
     (if entry_state e = OA_HASH_ENTRY_OCCUPIED then
        (case oa_hash_set_entry m ht (key_buf e) (key_length e) (entry_value e) of
           None \<Rightarrow> None
         | Some (slot, ht') \<Rightarrow> rehash_loop m es ht')
      else rehash_loop m es ht)"

definition oa_hash_rehash :: "mem \<Rightarrow> oa_hash \<Rightarrow> u64 \<Rightarrow> u64 \<Rightarrow> u64 \<times> oa_hash" where
  "oa_hash_rehash m ht new_buckets new_capacity =
     (if new_buckets = NULL \<or> new_capacity \<le> ht_capacity ht then (NULL, ht)
      else
        (case rehash_loop m (ht_buckets ht) (oa_hash_init new_buckets new_capacity) of
           None \<Rightarrow> (NULL, ht)
         | Some ht' \<Rightarrow> (ht_buckets_ptr ht, ht')))"

section \<open>The map a table stands for\<close>

definition entry_key :: "mem \<Rightarrow> oa_hash_entry \<Rightarrow> u8 list" where
  "entry_key m e = read_bytes m (key_buf e) (unat (key_length e))"

definition occupied :: "oa_hash_entry \<Rightarrow> bool" where
  "occupied e \<longleftrightarrow> entry_state e = OA_HASH_ENTRY_OCCUPIED"

definition holds_key :: "mem \<Rightarrow> u8 list \<Rightarrow> oa_hash_entry \<Rightarrow> bool" where
  "holds_key m k e \<longleftrightarrow> occupied e \<and> entry_key m e = k"

definition ht_map :: "mem \<Rightarrow> oa_hash \<Rightarrow> u8 list \<Rightarrow> u64 option" where
  "ht_map m ht k = map_option entry_value (find (holds_key m k) (ht_buckets ht))"

definition home :: "u8 list \<Rightarrow> nat \<Rightarrow> nat" where
  "home k cap = unat (foldl djb2_step 5381 k) mod cap"

definition probe_slot :: "nat \<Rightarrow> nat \<Rightarrow> nat \<Rightarrow> nat" where
  "probe_slot cap start d = (start + d) mod cap"

definition reachable_from :: "oa_hash_entry list \<Rightarrow> nat \<Rightarrow> nat \<Rightarrow> bool" where
  "reachable_from bs start i \<longleftrightarrow>
     (\<exists>D<length bs. i = probe_slot (length bs) start D \<and>
        (\<forall>d<D. entry_state (bs ! probe_slot (length bs) start d) \<noteq> OA_HASH_ENTRY_EMPTY))"

definition buckets_wf :: "mem \<Rightarrow> oa_hash_entry list \<Rightarrow> bool" where
  "buckets_wf m bs \<longleftrightarrow>
     (\<forall>i<length bs. occupied (bs ! i) \<longrightarrow>
        key_buf (bs ! i) \<noteq> NULL \<and> key_length (bs ! i) \<noteq> 0 \<and>
        reachable_from bs (home (entry_key m (bs ! i)) (length bs)) i \<and>
        (\<forall>j<length bs. holds_key m (entry_key m (bs ! i)) (bs ! j) \<longrightarrow> j = i))"

definition ht_wf :: "mem \<Rightarrow> oa_hash \<Rightarrow> bool" where
  "ht_wf m ht \<longleftrightarrow> length (ht_buckets ht) = unat (ht_capacity ht) \<and>
     unat (ht_length ht) = length (filter occupied (ht_buckets ht)) \<and> buckets_wf m (ht_buckets ht)"

section \<open>Hashing\<close>

lemma genhash_loop_bytes: "genhash_loop m str n h = foldl djb2_step h (read_bytes m str n)"
  by (induction n arbitrary: str h) simp_all

lemma genhash_home:
  assumes "key \<noteq> NULL" "cap \<noteq> 0"
  shows "unat (oa_hash_genhash m key len cap) = home (read_bytes m key (unat len)) (unat cap)"
  using assms by (simp add: oa_hash_genhash_def genhash_loop_bytes home_def unat_mod)

lemma entry_matches_iff:
  "entry_matches m e key len \<longleftrightarrow> holds_key m (read_bytes m key (unat len)) e"
proof -
  have "len = key_length e" if "entry_key m e = read_bytes m key (unat len)"
    using arg_cong [OF that, of length] by (simp add: entry_key_def word_unat_eq_iff)
  thus ?thesis
    by (auto simp: entry_matches_def holds_key_def occupied_def entry_key_def memcmp_0_iff)
qed

lemma probe_slot_less [simp]: "0 < cap \<Longrightarrow> probe_slot cap start d < cap"
  by (simp add: probe_slot_def)

lemma home_less: "0 < cap \<Longrightarrow> home k cap < cap"
  by (simp add: home_def)

lemma probe_slot_Suc:
  "0 < cap \<Longrightarrow> Suc (probe_slot cap start d) mod cap = probe_slot cap start (Suc d)"
  by (simp add: probe_slot_def mod_simps)

lemma probe_slot_wrap:
  assumes "start < cap" "d \<le> cap"
  shows "probe_slot cap start d = (if start + d < cap then start + d else start + d - cap)"
  using assms by (auto simp: probe_slot_def le_mod_geq)

lemma probe_slot_start_iff:
  "start < cap \<Longrightarrow> 0 < d \<Longrightarrow> d \<le> cap \<Longrightarrow> probe_slot cap start d = start \<longleftrightarrow> d = cap"
  by (auto simp: probe_slot_wrap)

lemma probe_slot_0 [simp]: "start < cap \<Longrightarrow> probe_slot cap start 0 = start"
  by (simp add: probe_slot_def)

lemma probe_slot_surj:
  assumes "start < cap" "i < cap"
  obtains d where "d < cap" "i = probe_slot cap start d"
proof
  let ?d = "if start \<le> i then i - start else i + cap - start"
  show "?d < cap" "i = probe_slot cap start ?d" using assms by (auto simp: probe_slot_wrap)
qed

section \<open>The probing loops visit the slots in order\<close>

definition stops :: "mem \<Rightarrow> u8 list \<Rightarrow> oa_hash_entry list \<Rightarrow> nat \<Rightarrow> nat \<Rightarrow> bool" where
  "stops m k bs start d \<longleftrightarrow>
     entry_state (bs ! probe_slot (length bs) start d) = OA_HASH_ENTRY_EMPTY \<or>
     holds_key m k (bs ! probe_slot (length bs) start d)"

lemma not_empty_if_holds: "holds_key m k e \<Longrightarrow> entry_state e \<noteq> OA_HASH_ENTRY_EMPTY"
  by (simp add: holds_key_def occupied_def)

lemma get_entry_loop_spec:
  assumes "length (ht_buckets ht) = unat (ht_capacity ht)" "start < unat (ht_capacity ht)"
    and "n < unat (ht_capacity ht)"
  shows "get_entry_loop m ht key len start (probe_slot (unat (ht_capacity ht)) start n)
      (unat (ht_capacity ht) - n) =
    (case find (stops m (read_bytes m key (unat len)) (ht_buckets ht) start) [n..<unat (ht_capacity ht)] of
       None \<Rightarrow> None
     | Some d \<Rightarrow>
         (let slot = probe_slot (unat (ht_capacity ht)) start d in
          if holds_key m (read_bytes m key (unat len)) (ht_buckets ht ! slot) then Some slot else None))"
  using assms(3)
proof (induction "unat (ht_capacity ht) - n" arbitrary: n)
  case (Suc k)
  let ?cap = "unat (ht_capacity ht)"
  have k: "?cap - n = Suc (?cap - Suc n)" "[n..<?cap] = n # [Suc n..<?cap]"
    using Suc.prems by (simp_all add: upt_conv_Cons)
  have next_slot: "Suc (probe_slot ?cap start n) mod ?cap = probe_slot ?cap start (Suc n)"
    using assms(2) by (intro probe_slot_Suc) simp
  have wrap: "probe_slot ?cap start (Suc n) = start \<longleftrightarrow> Suc n = ?cap"
    using Suc.prems assms(2) by (intro probe_slot_start_iff) simp_all
  have st: "stops m (read_bytes m key (unat len)) (ht_buckets ht) start n \<longleftrightarrow>
      entry_state (ht_buckets ht ! probe_slot ?cap start n) = OA_HASH_ENTRY_EMPTY \<or>
      holds_key m (read_bytes m key (unat len)) (ht_buckets ht ! probe_slot ?cap start n)"
    by (simp add: stops_def assms(1))
  show ?case
  proof (cases "Suc n = ?cap")
    case True
    thus ?thesis
      by (auto simp: k next_slot wrap entry_matches_iff st Let_def dest: not_empty_if_holds
          simp del: upt_Suc)
  next
    case False
    thus ?thesis
      using Suc.prems Suc.hyps(1) [of "Suc n"] Suc.hyps(2)
      by (auto simp: k next_slot wrap entry_matches_iff st Let_def dest: not_empty_if_holds
          simp del: upt_Suc)
  qed
qed simp

lemma get_entry_spec:
  fixes m :: mem
  assumes "length (ht_buckets ht) = unat (ht_capacity ht)" "key \<noteq> NULL" "len \<noteq> 0" "ht_capacity ht \<noteq> 0"
  defines "k \<equiv> read_bytes m key (unat len)" and "cap \<equiv> unat (ht_capacity ht)"
  shows "get_entry_loop m ht key len (home k cap) (home k cap) cap =
    (case find (stops m k (ht_buckets ht) (home k cap)) [0..<cap] of
       None \<Rightarrow> None
     | Some d \<Rightarrow>
         (let slot = probe_slot cap (home k cap) d in
          if holds_key m k (ht_buckets ht ! slot) then Some slot else None))"
proof -
  have cap: "0 < cap" using assms(4) by (simp add: cap_def unat_gt_0)
  have h: "home k cap < cap" by (rule home_less [OF cap])
  thus ?thesis
    using get_entry_loop_spec [of ht "home k cap" 0 m key len] assms(1) cap
    unfolding k_def cap_def by simp
qed

definition deleted_at :: "oa_hash_entry list \<Rightarrow> nat \<Rightarrow> nat \<Rightarrow> bool" where
  "deleted_at bs start d \<longleftrightarrow>
     entry_state (bs ! probe_slot (length bs) start d) = OA_HASH_ENTRY_DELETED"

definition first_deleted_slot :: "oa_hash_entry list \<Rightarrow> nat \<Rightarrow> nat \<Rightarrow> nat option" where
  "first_deleted_slot bs start n =
     map_option (probe_slot (length bs) start) (find (deleted_at bs start) [0..<n])"

definition insert_at :: "oa_hash \<Rightarrow> nat \<Rightarrow> u64 \<Rightarrow> u64 \<Rightarrow> u64 \<Rightarrow> oa_hash" where
  "insert_at ht slot key len val =
     ht\<lparr>ht_buckets := (ht_buckets ht)[slot :=
          \<lparr>entry_state = OA_HASH_ENTRY_OCCUPIED, key_buf = key, key_length = len, entry_value = val\<rparr>],
        ht_length := ht_length ht + 1\<rparr>"

definition update_at :: "oa_hash \<Rightarrow> nat \<Rightarrow> u64 \<Rightarrow> oa_hash" where
  "update_at ht slot val =
     ht\<lparr>ht_buckets := (ht_buckets ht)[slot := (ht_buckets ht ! slot)\<lparr>entry_value := val\<rparr>]\<rparr>"

definition set_result ::
  "mem \<Rightarrow> oa_hash \<Rightarrow> u64 \<Rightarrow> u64 \<Rightarrow> u64 \<Rightarrow> nat \<Rightarrow> nat option \<Rightarrow> (nat \<times> oa_hash) option" where
  "set_result m ht key len val start stop =
     (case stop of
        None \<Rightarrow> None
      | Some d \<Rightarrow>
          (let slot = probe_slot (length (ht_buckets ht)) start d in
           if holds_key m (read_bytes m key (unat len)) (ht_buckets ht ! slot)
           then Some (slot, update_at ht slot val)
           else
             (let slot' = (case first_deleted_slot (ht_buckets ht) start d of
                             None \<Rightarrow> slot | Some e \<Rightarrow> e)
              in Some (slot', insert_at ht slot' key len val))))"

lemma first_deleted_slot_Suc:
  "first_deleted_slot bs start (Suc n) =
     (if first_deleted_slot bs start n = None \<and> deleted_at bs start n
      then Some (probe_slot (length bs) start n) else first_deleted_slot bs start n)"
  by (auto simp: first_deleted_slot_def find_append split: option.split)

lemma set_entry_loop_spec:
  assumes "length (ht_buckets ht) = unat (ht_capacity ht)" "start < unat (ht_capacity ht)"
    and "n < unat (ht_capacity ht)"
  shows "set_entry_loop m ht key len val start (probe_slot (unat (ht_capacity ht)) start n)
      (first_deleted_slot (ht_buckets ht) start n) (unat (ht_capacity ht) - n) =
    set_result m ht key len val start
      (find (stops m (read_bytes m key (unat len)) (ht_buckets ht) start) [n..<unat (ht_capacity ht)])"
  using assms(3)
proof (induction "unat (ht_capacity ht) - n" arbitrary: n)
  case (Suc k)
  let ?cap = "unat (ht_capacity ht)" and ?bs = "ht_buckets ht"
  let ?e = "?bs ! probe_slot ?cap start n"
  have k: "?cap - n = Suc (?cap - Suc n)" "[n..<?cap] = n # [Suc n..<?cap]"
    using Suc.prems by (simp_all add: upt_conv_Cons)
  have next_slot: "Suc (probe_slot ?cap start n) mod ?cap = probe_slot ?cap start (Suc n)"
    using assms(2) by (intro probe_slot_Suc) simp
  have wrap: "probe_slot ?cap start (Suc n) = start \<longleftrightarrow> Suc n = ?cap"
    using Suc.prems assms(2) by (intro probe_slot_start_iff) simp_all
  have fd: "(if first_deleted_slot ?bs start n = None \<and> entry_state ?e = OA_HASH_ENTRY_DELETED
      then Some (probe_slot ?cap start n) else first_deleted_slot ?bs start n) =
      first_deleted_slot ?bs start (Suc n)"
    by (simp add: first_deleted_slot_Suc deleted_at_def assms(1))
  have st: "stops m (read_bytes m key (unat len)) ?bs start n \<longleftrightarrow>
      entry_state ?e = OA_HASH_ENTRY_EMPTY \<or> holds_key m (read_bytes m key (unat len)) ?e"
    by (simp add: stops_def assms(1))
  have unf: "set_entry_loop m ht key len val start (probe_slot ?cap start n)
      (first_deleted_slot ?bs start n) (Suc (?cap - Suc n)) =
      (if entry_state ?e = OA_HASH_ENTRY_EMPTY then
         set_result m ht key len val start (Some n)
       else if holds_key m (read_bytes m key (unat len)) ?e then
         set_result m ht key len val start (Some n)
       else if Suc n = ?cap then None
       else set_entry_loop m ht key len val start (probe_slot ?cap start (Suc n))
         (first_deleted_slot ?bs start (Suc n)) (?cap - Suc n))"
    using not_empty_if_holds [of m "read_bytes m key (unat len)" ?e]
    by (auto simp: Let_def fd next_slot wrap entry_matches_iff set_result_def assms(1)
        insert_at_def update_at_def)
  have IH: "Suc n \<noteq> ?cap \<Longrightarrow> set_entry_loop m ht key len val start (probe_slot ?cap start (Suc n))
      (first_deleted_slot ?bs start (Suc n)) (?cap - Suc n) =
    set_result m ht key len val start
      (find (stops m (read_bytes m key (unat len)) ?bs start) [Suc n..<?cap])"
    using Suc.hyps Suc.prems by auto
  show ?case
    unfolding k unf using IH by (auto simp: st set_result_def simp del: upt_Suc)
qed simp

lemma set_entry_spec:
  fixes m :: mem
  assumes "length (ht_buckets ht) = unat (ht_capacity ht)" "key \<noteq> NULL" "len \<noteq> 0" "ht_capacity ht \<noteq> 0"
  defines "k \<equiv> read_bytes m key (unat len)" and "cap \<equiv> unat (ht_capacity ht)"
  shows "oa_hash_set_entry m ht key len val =
    set_result m ht key len val (home k cap) (find (stops m k (ht_buckets ht) (home k cap)) [0..<cap])"
proof -
  have cap: "0 < cap" using assms(4) by (simp add: cap_def unat_gt_0)
  have h: "home k cap < cap" by (rule home_less [OF cap])
  have "set_entry_loop m ht key len val (home k cap) (home k cap) None cap =
      set_result m ht key len val (home k cap) (find (stops m k (ht_buckets ht) (home k cap)) [0..<cap])"
    using set_entry_loop_spec [of ht "home k cap" 0 m key len val] assms(1) cap h
    unfolding k_def cap_def by (simp add: first_deleted_slot_def)
  thus ?thesis
    using assms(2-4) by (simp add: oa_hash_set_entry_def genhash_home k_def cap_def Let_def)
qed

section \<open>Lookup\<close>

lemma find_holds_key:
  assumes "buckets_wf m bs" "i < length bs" "holds_key m k (bs ! i)"
  shows "find (holds_key m k) bs = Some (bs ! i)"
proof -
  have "\<exists>e. find (holds_key m k) bs = Some e"
    using assms(2,3) by (cases "find (holds_key m k) bs") (auto simp: find_None_iff)
  then obtain e where e: "find (holds_key m k) bs = Some e" by blast
  then obtain j where "j < length bs" "holds_key m k (bs ! j)" "e = bs ! j"
    by (auto simp: find_Some_iff)
  moreover from this have "j = i"
    using assms by (auto simp: buckets_wf_def holds_key_def)
  ultimately show ?thesis using e by simp
qed

lemma ht_map_Some:
  "ht_wf m ht \<Longrightarrow> i < length (ht_buckets ht) \<Longrightarrow> holds_key m k (ht_buckets ht ! i) \<Longrightarrow>
   ht_map m ht k = Some (entry_value (ht_buckets ht ! i))"
  by (simp add: ht_map_def ht_wf_def find_holds_key)

lemma ht_map_None_iff:
  "ht_map m ht k = None \<longleftrightarrow> (\<forall>i<length (ht_buckets ht). \<not> holds_key m k (ht_buckets ht ! i))"
  by (auto simp: ht_map_def find_None_iff in_set_conv_nth)

lemma stop_present:
  assumes wf: "buckets_wf m bs" and i: "i < length bs" "holds_key m k (bs ! i)"
  shows "\<exists>d. find (stops m k bs (home k (length bs))) [0..<length bs] = Some d \<and>
     probe_slot (length bs) (home k (length bs)) d = i"
proof -
  let ?p = "probe_slot (length bs) (home k (length bs))"
  have k: "entry_key m (bs ! i) = k" "occupied (bs ! i)" using i(2) by (simp_all add: holds_key_def)
  obtain D where D: "D < length bs" "i = ?p D"
    "\<forall>d<D. entry_state (bs ! ?p d) \<noteq> OA_HASH_ENTRY_EMPTY"
    using wf i(1) k by (auto simp: buckets_wf_def reachable_from_def)
  have "stops m k bs (home k (length bs)) D" using i(2) D(2) by (simp add: stops_def)
  then obtain d where d: "find (stops m k bs (home k (length bs))) [0..<length bs] = Some d"
    using D(1) by (cases "find (stops m k bs (home k (length bs))) [0..<length bs]")
      (auto simp: find_None_iff)
  hence dd: "d < length bs" "stops m k bs (home k (length bs)) d"
    "\<forall>j<d. \<not> stops m k bs (home k (length bs)) j"
    by (auto simp: find_upt_Some_iff)
  hence "d \<le> D" using \<open>stops m k bs (home k (length bs)) D\<close> by (meson not_le)
  have "holds_key m k (bs ! ?p d)"
    using D(3) dd(2) i(2) D(2) \<open>d \<le> D\<close> by (cases "d = D") (auto simp: stops_def)
  moreover have "?p d < length bs" using dd(1) by (intro probe_slot_less) auto
  ultimately have "?p d = i" using wf i(1) k by (auto simp: buckets_wf_def)
  thus ?thesis using d by blast
qed

lemma get_entry_correct:
  assumes wf: "ht_wf m ht" and key: "key \<noteq> NULL" "len \<noteq> 0"
  defines "k \<equiv> read_bytes m key (unat len)"
  shows "i < length (ht_buckets ht) \<Longrightarrow> holds_key m k (ht_buckets ht ! i) \<Longrightarrow>
      oa_hash_get_entry m ht key len = Some i"
    and "ht_map m ht k = None \<Longrightarrow> oa_hash_get_entry m ht key len = None"
proof -
  let ?cap = "unat (ht_capacity ht)" and ?bs = "ht_buckets ht"
  have len: "length ?bs = ?cap" using wf by (simp add: ht_wf_def)
  have get: "oa_hash_get_entry m ht key len = (if ht_capacity ht = 0 then None else
      get_entry_loop m ht key len (home k ?cap) (home k ?cap) ?cap)"
    using key by (simp add: oa_hash_get_entry_def genhash_home k_def Let_def)
  note spec = get_entry_spec [OF len key, where m = m, folded k_def]
  show "oa_hash_get_entry m ht key len = Some i"
    if i: "i < length ?bs" "holds_key m k (?bs ! i)"
  proof -
    have "ht_capacity ht \<noteq> 0" using i(1) len by auto
    moreover obtain d where "find (stops m k ?bs (home k ?cap)) [0..<?cap] = Some d"
      "probe_slot ?cap (home k ?cap) d = i"
      using stop_present [of m ?bs i k] wf i len by (auto simp: ht_wf_def)
    ultimately show ?thesis using spec i(2) by (simp add: get)
  qed
  show "oa_hash_get_entry m ht key len = None" if none: "ht_map m ht k = None"
  proof (cases "ht_capacity ht = 0")
    case False
    hence "\<not> holds_key m k (?bs ! probe_slot ?cap (home k ?cap) d)" for d
      using none len by (simp add: ht_map_None_iff unat_gt_0)
    thus ?thesis using False spec by (simp add: get split: option.split)
  qed (simp add: get)
qed

section \<open>Updates keep the invariant\<close>

lemma reachable_from_update:
  assumes "reachable_from bs start i" "entry_state e \<noteq> OA_HASH_ENTRY_EMPTY"
  shows "reachable_from (bs[t := e]) start i"
proof -
  obtain D where D: "D < length bs" "i = probe_slot (length bs) start D"
    "\<forall>d<D. entry_state (bs ! probe_slot (length bs) start d) \<noteq> OA_HASH_ENTRY_EMPTY"
    using assms(1) by (auto simp: reachable_from_def)
  have "0 < length bs" using D(1) by auto
  hence "\<forall>d<D. entry_state (bs[t := e] ! probe_slot (length bs) start d) \<noteq> OA_HASH_ENTRY_EMPTY"
    using D(3) assms(2) by (simp add: nth_list_update_if)
  thus ?thesis using D(1,2) by (auto simp: reachable_from_def)
qed

lemma buckets_wf_insert:
  assumes wf: "buckets_wf m bs" and t: "t < length bs" "\<not> occupied (bs ! t)"
    and new: "\<forall>i<length bs. \<not> holds_key m (entry_key m e) (bs ! i)"
    and e: "occupied e" "key_buf e \<noteq> NULL" "key_length e \<noteq> 0"
      "reachable_from bs (home (entry_key m e) (length bs)) t"
  shows "buckets_wf m (bs[t := e])"
  unfolding buckets_wf_def
proof (intro allI impI)
  fix i assume i: "i < length (bs[t := e])" "occupied (bs[t := e] ! i)"
  have st: "entry_state e \<noteq> OA_HASH_ENTRY_EMPTY" using e(1) by (simp add: occupied_def)
  show "key_buf (bs[t := e] ! i) \<noteq> NULL \<and> key_length (bs[t := e] ! i) \<noteq> 0 \<and>
     reachable_from (bs[t := e]) (home (entry_key m (bs[t := e] ! i)) (length (bs[t := e]))) i \<and>
     (\<forall>j<length (bs[t := e]). holds_key m (entry_key m (bs[t := e] ! i)) (bs[t := e] ! j) \<longrightarrow> j = i)"
  proof (cases "i = t")
    case True
    thus ?thesis
      using t e new reachable_from_update [OF e(4) st] by (auto simp: nth_list_update_if)
  next
    case False
    hence i': "i < length bs" "occupied (bs ! i)" using i by simp_all
    hence "reachable_from bs (home (entry_key m (bs ! i)) (length bs)) i"
      "entry_key m (bs ! i) \<noteq> entry_key m e"
      using wf new by (auto simp: buckets_wf_def holds_key_def)
    thus ?thesis
      using False i' wf t(1) reachable_from_update [OF _ st]
      by (auto simp: buckets_wf_def nth_list_update_if holds_key_def)
  qed
qed

lemma buckets_wf_change:
  assumes wf: "buckets_wf m bs" and t: "t < length bs"
    and e: "entry_state e \<noteq> OA_HASH_ENTRY_EMPTY"
      "occupied e \<longrightarrow> occupied (bs ! t) \<and> key_buf e = key_buf (bs ! t) \<and> key_length e = key_length (bs ! t)"
  shows "buckets_wf m (bs[t := e])"
  unfolding buckets_wf_def
proof (intro allI impI)
  fix i assume i: "i < length (bs[t := e])" "occupied (bs[t := e] ! i)"
  have occ: "occupied (bs[t := e] ! j) \<Longrightarrow> j < length bs \<Longrightarrow> occupied (bs ! j) \<and>
      key_buf (bs[t := e] ! j) = key_buf (bs ! j) \<and> key_length (bs[t := e] ! j) = key_length (bs ! j)" for j
    using e(2) by (auto simp: nth_list_update_if split: if_splits)
  hence key: "entry_key m (bs[t := e] ! j) = entry_key m (bs ! j)"
    if "occupied (bs[t := e] ! j)" "j < length bs" for j
    using that by (simp add: entry_key_def)
  have i': "i < length bs" "occupied (bs ! i)" using i occ by simp_all
  have "j = i" if "j < length bs" "holds_key m (entry_key m (bs ! i)) (bs[t := e] ! j)" for j
    using that wf i' key occ by (auto simp: buckets_wf_def holds_key_def)
  thus "key_buf (bs[t := e] ! i) \<noteq> NULL \<and> key_length (bs[t := e] ! i) \<noteq> 0 \<and>
     reachable_from (bs[t := e]) (home (entry_key m (bs[t := e] ! i)) (length (bs[t := e]))) i \<and>
     (\<forall>j<length (bs[t := e]). holds_key m (entry_key m (bs[t := e] ! i)) (bs[t := e] ! j) \<longrightarrow> j = i)"
    using wf i i' occ [of i] key [of i] reachable_from_update [OF _ e(1)]
    by (auto simp: buckets_wf_def)
qed

lemma find_update_other:
  "\<not> P (xs ! t) \<Longrightarrow> \<not> P e \<Longrightarrow> find P (xs[t := e]) = find P xs"
  by (induction xs arbitrary: t) (auto split: nat.split)

lemma find_update_only:
  assumes "t < length xs" "\<And>i. i < length xs \<Longrightarrow> i \<noteq> t \<Longrightarrow> \<not> P (xs ! i)"
  shows "find P (xs[t := e]) = (if P e then Some e else None)"
proof (cases "find P (xs[t := e])")
  case None
  thus ?thesis using set_update_memI [OF assms(1)] by (auto simp: find_None_iff)
next
  case (Some x)
  then obtain i where "i < length xs" "P (xs[t := e] ! i)" "x = xs[t := e] ! i"
    by (auto simp: find_Some_iff)
  thus ?thesis using Some assms by (cases "i = t") auto
qed

lemma ht_map_update:
  assumes "ht_buckets ht' = (ht_buckets ht)[t := e]" "t < length (ht_buckets ht)"
    and "\<And>i. i < length (ht_buckets ht) \<Longrightarrow> i \<noteq> t \<Longrightarrow> \<not> holds_key m k (ht_buckets ht ! i)"
    and "\<And>k'. k' \<noteq> k \<Longrightarrow> \<not> holds_key m k' (ht_buckets ht ! t)" "\<And>k'. k' \<noteq> k \<Longrightarrow> \<not> holds_key m k' e"
  shows "ht_map m ht' = (ht_map m ht)(k := if holds_key m k e then Some (entry_value e) else None)"
proof
  fix k'
  show "ht_map m ht' k' = ((ht_map m ht)(k := if holds_key m k e then Some (entry_value e) else None)) k'"
  proof (cases "k' = k")
    case True
    thus ?thesis using assms(1-3) find_update_only [of t "ht_buckets ht" "holds_key m k" e]
      by (simp add: ht_map_def)
  next
    case False
    thus ?thesis using assms(1) find_update_other [of "holds_key m k'"] assms(4,5)
      by (simp add: ht_map_def)
  qed
qed

lemma holds_key_unique:
  "ht_wf m ht \<Longrightarrow> t < length (ht_buckets ht) \<Longrightarrow> holds_key m k (ht_buckets ht ! t) \<Longrightarrow>
   i < length (ht_buckets ht) \<Longrightarrow> i \<noteq> t \<Longrightarrow> \<not> holds_key m k (ht_buckets ht ! i)"
  by (auto simp: ht_wf_def buckets_wf_def holds_key_def)

lemma insert_at_simps [simp]:
  "length (ht_buckets (insert_at ht t key len val)) = length (ht_buckets ht)"
  "ht_capacity (insert_at ht t key len val) = ht_capacity ht"
  "ht_length (insert_at ht t key len val) = ht_length ht + 1"
  by (simp_all add: insert_at_def)

lemma insert_at_correct:
  assumes wf: "ht_wf m ht" and t: "t < length (ht_buckets ht)" "\<not> occupied (ht_buckets ht ! t)"
    and key: "key \<noteq> NULL" "len \<noteq> 0"
  defines "k \<equiv> read_bytes m key (unat len)"
  assumes new: "ht_map m ht k = None"
    and r: "reachable_from (ht_buckets ht) (home k (length (ht_buckets ht))) t"
  shows "ht_wf m (insert_at ht t key len val)"
    and "ht_map m (insert_at ht t key len val) = (ht_map m ht)(k \<mapsto> val)"
proof -
  let ?bs = "ht_buckets ht" and ?ht = "insert_at ht t key len val"
  let ?e = "\<lparr>entry_state = OA_HASH_ENTRY_OCCUPIED, key_buf = key, key_length = len, entry_value = val\<rparr>"
  have bs: "ht_buckets ?ht = ?bs[t := ?e]" by (simp add: insert_at_def)
  have e: "entry_key m ?e = k" "occupied ?e" by (simp_all add: entry_key_def k_def occupied_def)
  have "buckets_wf m (?bs[t := ?e])"
    using wf t key r new e by (intro buckets_wf_insert) (simp_all add: ht_wf_def ht_map_None_iff)
  moreover have "length (filter occupied (?bs[t := ?e])) = length (filter occupied ?bs) + 1"
    using length_filter_update [OF t(1), of occupied ?e] t(2) e(2) by simp
  moreover have "length (filter occupied ?bs) < length ?bs"
    using t by (intro length_filter_less) (auto intro: nth_mem)
  ultimately show wf': "ht_wf m ?ht"
    using wf unat_succ [of "ht_length ht" "ht_capacity ht"] by (simp add: ht_wf_def bs)
  show "ht_map m ?ht = (ht_map m ht)(k \<mapsto> val)"
    using ht_map_update [OF bs t(1), of m k] new t(2) e by (auto simp: ht_map_None_iff holds_key_def)
qed

lemma update_at_correct:
  assumes wf: "ht_wf m ht" and t: "t < length (ht_buckets ht)" "holds_key m k (ht_buckets ht ! t)"
  shows "ht_wf m (update_at ht t val)" "ht_map m (update_at ht t val) = (ht_map m ht)(k \<mapsto> val)"
proof -
  let ?bs = "ht_buckets ht" and ?ht = "update_at ht t val" and ?e = "(ht_buckets ht ! t)\<lparr>entry_value := val\<rparr>"
  have bs: "ht_buckets ?ht = ?bs[t := ?e]" "ht_capacity ?ht = ht_capacity ht" "ht_length ?ht = ht_length ht"
    by (simp_all add: update_at_def)
  have e: "holds_key m k' ?e \<longleftrightarrow> holds_key m k' (?bs ! t)" "occupied ?e" "occupied (?bs ! t)" for k'
    using t(2) by (simp_all add: holds_key_def occupied_def entry_key_def)
  have "buckets_wf m (?bs[t := ?e])"
    using wf t e by (intro buckets_wf_change) (simp_all add: ht_wf_def occupied_def)
  moreover have "length (filter occupied (?bs[t := ?e])) = length (filter occupied ?bs)"
    using length_filter_update [OF t(1), of occupied ?e] e by simp
  ultimately show wf': "ht_wf m ?ht" using wf by (simp add: ht_wf_def bs)
  show "ht_map m ?ht = (ht_map m ht)(k \<mapsto> val)"
    using ht_map_update [OF bs(1) t(1) holds_key_unique [OF wf t]] t(2) e
    by (auto simp: holds_key_def)
qed

lemma remove_slot_correct:
  assumes wf: "ht_wf m ht" and t: "t < length (ht_buckets ht)" "holds_key m k (ht_buckets ht ! t)"
  shows "ht_wf m (remove_slot ht t)" "ht_map m (remove_slot ht t) = (ht_map m ht)(k := None)"
proof -
  let ?bs = "ht_buckets ht" and ?ht = "remove_slot ht t"
  let ?e = "(ht_buckets ht ! t)\<lparr>entry_state := OA_HASH_ENTRY_DELETED\<rparr>"
  have bs: "ht_buckets ?ht = ?bs[t := ?e]" "ht_capacity ?ht = ht_capacity ht"
    "ht_length ?ht = ht_length ht - 1"
    by (simp_all add: remove_slot_def)
  have e: "\<not> occupied ?e" "occupied (?bs ! t)"
    using t(2) by (simp_all add: holds_key_def occupied_def)
  have "buckets_wf m (?bs[t := ?e])"
    using wf t e by (intro buckets_wf_change) (simp_all add: ht_wf_def)
  moreover have cnt: "length (filter occupied (?bs[t := ?e])) + 1 = length (filter occupied ?bs)"
    using length_filter_update [OF t(1), of occupied ?e] e by simp
  moreover have "ht_length ht \<noteq> 0" using wf cnt by (auto simp: ht_wf_def)
  ultimately show wf': "ht_wf m ?ht" using wf by (auto simp: ht_wf_def bs unat_minus_one)
  show "ht_map m ?ht = (ht_map m ht)(k := None)"
    using ht_map_update [OF bs(1) t(1) holds_key_unique [OF wf t]] t(2) e
    by (auto simp: holds_key_def)
qed

section \<open>Insertion\<close>

definition has_empty :: "oa_hash \<Rightarrow> bool" where
  "has_empty ht \<longleftrightarrow> (\<exists>e\<in>set (ht_buckets ht). entry_state e = OA_HASH_ENTRY_EMPTY)"

lemma set_entry_present:
  assumes wf: "ht_wf m ht" and key: "key \<noteq> NULL" "len \<noteq> 0"
    and i: "i < length (ht_buckets ht)" "holds_key m (read_bytes m key (unat len)) (ht_buckets ht ! i)"
  shows "oa_hash_set_entry m ht key len val = Some (i, update_at ht i val)"
proof -
  let ?bs = "ht_buckets ht" and ?k = "read_bytes m key (unat len)"
  have cap: "length ?bs = unat (ht_capacity ht)" "ht_capacity ht \<noteq> 0"
    using wf i(1) by (auto simp: ht_wf_def)
  obtain d where "find (stops m ?k ?bs (home ?k (length ?bs))) [0..<length ?bs] = Some d"
    "probe_slot (length ?bs) (home ?k (length ?bs)) d = i"
    using stop_present [of m ?bs i ?k] wf i by (auto simp: ht_wf_def)
  thus ?thesis
    using set_entry_spec [OF cap(1) key cap(2), of m val] i(2) by (simp add: cap(1) set_result_def)
qed

lemma stop_absent:
  assumes new: "\<forall>i<length bs. \<not> holds_key m k (bs ! i)"
    and e: "e \<in> set bs" "entry_state e = OA_HASH_ENTRY_EMPTY"
  obtains d where "find (stops m k bs (home k (length bs))) [0..<length bs] = Some d" "d < length bs"
    "entry_state (bs ! probe_slot (length bs) (home k (length bs)) d) = OA_HASH_ENTRY_EMPTY"
    "\<forall>j<d. entry_state (bs ! probe_slot (length bs) (home k (length bs)) j) \<noteq> OA_HASH_ENTRY_EMPTY"
proof -
  let ?h = "home k (length bs)"
  obtain i where i: "i < length bs" "e = bs ! i" using e(1) by (auto simp: in_set_conv_nth)
  have pos: "0 < length bs" using i(1) by linarith
  obtain D where D: "D < length bs" "i = probe_slot (length bs) ?h D"
    by (rule probe_slot_surj [OF home_less [OF pos] i(1)])
  have "stops m k bs ?h D" using D(2) i(2) e(2) by (simp add: stops_def)
  then obtain d where d: "find (stops m k bs ?h) [0..<length bs] = Some d"
    using D(1) by (cases "find (stops m k bs ?h) [0..<length bs]") (auto simp: find_None_iff)
  hence dd: "d < length bs" "stops m k bs ?h d" "\<forall>j<d. \<not> stops m k bs ?h j"
    by (auto simp: find_upt_Some_iff)
  show ?thesis
  proof (rule that [OF d dd(1)])
    show "entry_state (bs ! probe_slot (length bs) ?h d) = OA_HASH_ENTRY_EMPTY"
      using dd(2) new pos by (simp add: stops_def)
    show "\<forall>j<d. entry_state (bs ! probe_slot (length bs) ?h j) \<noteq> OA_HASH_ENTRY_EMPTY"
      using dd(3) by (simp add: stops_def)
  qed
qed

lemma set_entry_absent:
  assumes wf: "ht_wf m ht" and key: "key \<noteq> NULL" "len \<noteq> 0"
  defines "k \<equiv> read_bytes m key (unat len)"
  assumes new: "ht_map m ht k = None" and room: "has_empty ht"
  obtains t where "oa_hash_set_entry m ht key len val = Some (t, insert_at ht t key len val)"
    "t < length (ht_buckets ht)" "\<not> occupied (ht_buckets ht ! t)"
    "reachable_from (ht_buckets ht) (home k (length (ht_buckets ht))) t"
proof -
  let ?bs = "ht_buckets ht" and ?n = "length (ht_buckets ht)"
  let ?p = "probe_slot ?n (home k ?n)"
  obtain e where "e \<in> set ?bs" "entry_state e = OA_HASH_ENTRY_EMPTY" using room by (auto simp: has_empty_def)
  then obtain d where d: "find (stops m k ?bs (home k ?n)) [0..<?n] = Some d" "d < ?n"
    "entry_state (?bs ! ?p d) = OA_HASH_ENTRY_EMPTY"
    "\<forall>j<d. entry_state (?bs ! ?p j) \<noteq> OA_HASH_ENTRY_EMPTY"
    using new by (elim stop_absent [of ?bs m k, rotated 1]) (auto simp: ht_map_None_iff)
  have cap: "?n = unat (ht_capacity ht)" "ht_capacity ht \<noteq> 0"
    using wf d(2) by (auto simp: ht_wf_def)
  have pos: "0 < ?n" using d(2) by linarith
  define t where "t = (case first_deleted_slot ?bs (home k ?n) d of None \<Rightarrow> ?p d | Some e \<Rightarrow> e)"
  have "\<not> holds_key m k (?bs ! ?p d)" using new pos by (simp add: ht_map_None_iff)
  hence "oa_hash_set_entry m ht key len val = Some (t, insert_at ht t key len val)"
    using set_entry_spec [OF cap(1) key cap(2), of m val, folded k_def cap(1)] d(1)
    by (simp add: set_result_def t_def Let_def flip: k_def)
  moreover obtain D where D: "D \<le> d" "t = ?p D" "\<not> occupied (?bs ! t)"
  proof (cases "find (deleted_at ?bs (home k ?n)) [0..<d]")
    case None
    thus ?thesis using d(3) by (intro that [of d]) (simp_all add: t_def first_deleted_slot_def occupied_def)
  next
    case (Some D)
    hence "t = ?p D" by (simp add: t_def first_deleted_slot_def)
    moreover have "D < d" "entry_state (?bs ! ?p D) = OA_HASH_ENTRY_DELETED"
      using Some by (auto simp: find_upt_Some_iff deleted_at_def)
    ultimately show ?thesis by (intro that [of D]) (simp_all add: occupied_def)
  qed
  moreover have "reachable_from ?bs (home k ?n) t"
    using D d by (auto simp: reachable_from_def intro!: exI [of _ D])
  ultimately show ?thesis using pos by (intro that [of t]) simp_all
qed

lemma set_entry_full:
  assumes wf: "ht_wf m ht" and key: "key \<noteq> NULL" "len \<noteq> 0"
    and new: "ht_map m ht (read_bytes m key (unat len)) = None" and full: "\<not> has_empty ht"
  shows "oa_hash_set_entry m ht key len val = None"
proof (cases "ht_capacity ht = 0")
  case False
  let ?k = "read_bytes m key (unat len)" and ?bs = "ht_buckets ht"
  have cap: "length ?bs = unat (ht_capacity ht)" using wf by (simp add: ht_wf_def)
  hence "probe_slot (unat (ht_capacity ht)) (home ?k (unat (ht_capacity ht))) d < length ?bs" for d
    using False by (simp add: unat_gt_0)
  hence "\<not> stops m ?k ?bs (home ?k (unat (ht_capacity ht))) d" for d
    using full new by (auto simp: stops_def has_empty_def ht_map_None_iff cap)
  hence "find (stops m ?k ?bs (home ?k (unat (ht_capacity ht)))) [0..<unat (ht_capacity ht)] = None"
    by (simp add: find_None_iff)
  thus ?thesis using set_entry_spec [OF cap key False, of m val] by (simp add: set_result_def)
qed (simp add: oa_hash_set_entry_def)

lemma set_entry_correct:
  assumes wf: "ht_wf m ht" and key: "key \<noteq> NULL" "len \<noteq> 0"
    and set: "oa_hash_set_entry m ht key len val = Some (t, ht')"
  shows "ht_wf m ht'" "ht_map m ht' = (ht_map m ht)(read_bytes m key (unat len) \<mapsto> val)"
    "t < length (ht_buckets ht')" "entry_value (ht_buckets ht' ! t) = val" "ht_capacity ht' = ht_capacity ht"
proof -
  let ?k = "read_bytes m key (unat len)"
  have "ht_wf m ht' \<and> ht_map m ht' = (ht_map m ht)(?k \<mapsto> val) \<and> t < length (ht_buckets ht') \<and>
      entry_value (ht_buckets ht' ! t) = val \<and> ht_capacity ht' = ht_capacity ht"
  proof (cases "ht_map m ht ?k")
    case None
    hence "has_empty ht" using set set_entry_full [OF wf key None] by force
    then obtain t' where t': "oa_hash_set_entry m ht key len val = Some (t', insert_at ht t' key len val)"
      "t' < length (ht_buckets ht)" "\<not> occupied (ht_buckets ht ! t')"
      "reachable_from (ht_buckets ht) (home ?k (length (ht_buckets ht))) t'"
      by (rule set_entry_absent [OF wf key None])
    thus ?thesis
      using set insert_at_correct [OF wf t'(2,3) key None t'(4)] by (auto simp: insert_at_def)
  next
    case (Some v)
    then obtain i where i: "i < length (ht_buckets ht)" "holds_key m ?k (ht_buckets ht ! i)"
      using ht_map_None_iff [of m ht ?k] by auto
    thus ?thesis
      using set set_entry_present [OF wf key i] update_at_correct [OF wf i] by (auto simp: update_at_def)
  qed
  thus "ht_wf m ht'" "ht_map m ht' = (ht_map m ht)(?k \<mapsto> val)"
    "t < length (ht_buckets ht')" "entry_value (ht_buckets ht' ! t) = val" "ht_capacity ht' = ht_capacity ht"
    by auto
qed

section \<open>The table as an interface\<close>

text \<open>What a client of the table relies on: a map from keys to values, keys named by handles
  (pointer and length).\<close>

locale key_table =
  fixes inv :: "'t \<Rightarrow> bool" and abs :: "'t \<Rightarrow> 'k \<Rightarrow> 'v option"
    and key :: "'p \<Rightarrow> 'k" and ok :: "'p \<Rightarrow> bool"
    and lookup :: "'t \<Rightarrow> 'p \<Rightarrow> 'v option" and insert :: "'t \<Rightarrow> 'p \<Rightarrow> 'v \<Rightarrow> 't option"
    and room :: "'t \<Rightarrow> bool"
  assumes lookup_abs: "inv t \<Longrightarrow> ok p \<Longrightarrow> lookup t p = abs t (key p)"
    and insert_abs: "inv t \<Longrightarrow> ok p \<Longrightarrow> insert t p v = Some t' \<Longrightarrow>
      inv t' \<and> abs t' = (abs t)(key p \<mapsto> v)"
    and insert_room: "inv t \<Longrightarrow> ok p \<Longrightarrow>
      insert t p v \<noteq> None \<longleftrightarrow> abs t (key p) \<noteq> None \<or> room t"
begin

lemma lookup_insert:
  assumes "inv t" "ok p" "ok q" "insert t p v = Some t'"
  shows "lookup t' q = (if key q = key p then Some v else lookup t q)"
  using insert_abs [OF assms(1,2,4)] lookup_abs assms(1,3) by simp

lemma insert_present: "inv t \<Longrightarrow> ok p \<Longrightarrow> lookup t p \<noteq> None \<Longrightarrow> \<exists>t'. insert t p v = Some t'"
  using insert_room [of t p v] lookup_abs [of t p] by auto

lemma fold_insert:
  assumes "inv t" "\<forall>(p, v)\<in>set pvs. ok p" "foldl (\<lambda>t (p, v). Option.bind t (\<lambda>t. insert t p v)) (Some t) pvs = Some t'"
  shows "inv t' \<and> abs t' = abs t ++ map_of (rev (map (\<lambda>(p, v). (key p, v)) pvs))"
  using assms
proof (induction pvs arbitrary: t' rule: rev_induct)
  case (snoc x xs)
  obtain p v where x: "x = (p, v)" by fastforce
  obtain t1 where t1: "foldl (\<lambda>t (p, v). Option.bind t (\<lambda>t. insert t p v)) (Some t) xs = Some t1"
    "insert t1 p v = Some t'"
    using snoc.prems(3) by (auto simp: x bind_eq_Some_conv)
  show ?case
    using snoc.IH [OF snoc.prems(1) _ t1(1)] snoc.prems(2) insert_abs [OF _ _ t1(2)]
    by (auto simp: x map_add_def fun_eq_iff)
qed simp

end

definition ht_lookup :: "mem \<Rightarrow> oa_hash \<Rightarrow> u64 \<times> u64 \<Rightarrow> u64 option" where
  "ht_lookup m ht p =
     map_option (\<lambda>i. entry_value (ht_buckets ht ! i)) (oa_hash_get_entry m ht (fst p) (snd p))"

definition ht_insert :: "mem \<Rightarrow> oa_hash \<Rightarrow> u64 \<times> u64 \<Rightarrow> u64 \<Rightarrow> oa_hash option" where
  "ht_insert m ht p v = map_option snd (oa_hash_set_entry m ht (fst p) (snd p) v)"

definition key_at :: "mem \<Rightarrow> u64 \<times> u64 \<Rightarrow> u8 list" where
  "key_at m p = read_bytes m (fst p) (unat (snd p))"

definition key_ok :: "u64 \<times> u64 \<Rightarrow> bool" where
  "key_ok p \<longleftrightarrow> fst p \<noteq> NULL \<and> snd p \<noteq> 0"

lemma ht_lookup_map:
  assumes "ht_wf m ht" "key_ok p"
  shows "ht_lookup m ht p = ht_map m ht (key_at m p)"
proof -
  have p: "fst p \<noteq> NULL" "snd p \<noteq> 0" using assms(2) by (simp_all add: key_ok_def)
  note g = get_entry_correct [OF assms(1) p]
  show ?thesis
  proof (cases "ht_map m ht (key_at m p)")
    case None
    thus ?thesis using g(2) by (simp add: key_at_def ht_lookup_def)
  next
    case (Some v)
    then obtain i where "i < length (ht_buckets ht)" "holds_key m (key_at m p) (ht_buckets ht ! i)"
      using ht_map_None_iff [of m ht "key_at m p"] by auto
    thus ?thesis using g(1) ht_map_Some [OF assms(1)] by (simp add: key_at_def ht_lookup_def)
  qed
qed

interpretation ht: key_table "ht_wf m" "ht_map m" "key_at m" key_ok "ht_lookup m" "ht_insert m" has_empty
  for m
proof unfold_locales
  fix t p v t'
  assume wf: "ht_wf m t" and ok: "key_ok p"
  hence p: "fst p \<noteq> NULL" "snd p \<noteq> 0" by (simp_all add: key_ok_def)
  show "ht_lookup m t p = ht_map m t (key_at m p)" by (rule ht_lookup_map [OF wf ok])
  show "ht_wf m t' \<and> ht_map m t' = (ht_map m t)(key_at m p \<mapsto> v)" if "ht_insert m t p v = Some t'"
    using that set_entry_correct [OF wf p] by (auto simp: ht_insert_def key_at_def)
  show "ht_insert m t p v \<noteq> None \<longleftrightarrow> ht_map m t (key_at m p) \<noteq> None \<or> has_empty t"
  proof (cases "ht_map m t (key_at m p)")
    case None
    show ?thesis
    proof (cases "has_empty t")
      case True
      obtain i where "oa_hash_set_entry m t (fst p) (snd p) v = Some (i, insert_at t i (fst p) (snd p) v)"
        by (rule set_entry_absent [OF wf p None [unfolded key_at_def] True])
      thus ?thesis using True by (simp add: ht_insert_def)
    next
      case False
      thus ?thesis using None set_entry_full [OF wf p None [unfolded key_at_def]] by (simp add: ht_insert_def)
    qed
  next
    case (Some x)
    then obtain i where "i < length (ht_buckets t)" "holds_key m (key_at m p) (ht_buckets t ! i)"
      using ht_map_None_iff [of m t "key_at m p"] by auto
    thus ?thesis using Some set_entry_present [OF wf p] by (simp add: ht_insert_def key_at_def)
  qed
qed

section \<open>Rehashing\<close>

definition no_deleted :: "oa_hash \<Rightarrow> bool" where
  "no_deleted ht \<longleftrightarrow> (\<forall>e\<in>set (ht_buckets ht). entry_state e \<noteq> OA_HASH_ENTRY_DELETED)"

definition entry_pair :: "oa_hash_entry \<Rightarrow> (u64 \<times> u64) \<times> u64" where
  "entry_pair e = ((key_buf e, key_length e), entry_value e)"

lemma oa_hash_init_wf: "ht_wf m (oa_hash_init p cap)" "ht_map m (oa_hash_init p cap) = Map.empty"
  "no_deleted (oa_hash_init p cap)"
proof -
  have "\<not> occupied empty_entry" by (simp add: occupied_def empty_entry_def)
  thus "ht_wf m (oa_hash_init p cap)"
    by (simp add: ht_wf_def oa_hash_init_def buckets_wf_def)
  show "ht_map m (oa_hash_init p cap) = Map.empty"
    using \<open>\<not> occupied empty_entry\<close>
    by (auto simp: fun_eq_iff ht_map_None_iff oa_hash_init_def holds_key_def)
  show "no_deleted (oa_hash_init p cap)" by (simp add: no_deleted_def oa_hash_init_def empty_entry_def)
qed

lemma has_empty_if_room:
  assumes "ht_wf m ht" "no_deleted ht" "unat (ht_length ht) < unat (ht_capacity ht)"
  shows "has_empty ht"
proof (rule ccontr)
  assume "\<not> has_empty ht"
  hence "\<forall>e\<in>set (ht_buckets ht). occupied e"
    using assms(2) oa_hash_entry_state.exhaust by (auto simp: has_empty_def no_deleted_def occupied_def)
  hence "filter occupied (ht_buckets ht) = ht_buckets ht" by simp
  thus False using assms(1,3) by (simp add: ht_wf_def)
qed

lemma set_entry_no_deleted:
  assumes wf: "ht_wf m ht" and key: "key \<noteq> NULL" "len \<noteq> 0" and nd: "no_deleted ht"
    and room: "unat (ht_length ht) < unat (ht_capacity ht)"
  obtains t ht' where "oa_hash_set_entry m ht key len val = Some (t, ht')" "no_deleted ht'"
    "unat (ht_length ht') \<le> unat (ht_length ht) + 1" "ht_capacity ht' = ht_capacity ht"
proof (cases "ht_map m ht (read_bytes m key (unat len))")
  case None
  obtain t where t: "oa_hash_set_entry m ht key len val = Some (t, insert_at ht t key len val)"
    by (rule set_entry_absent [OF wf key None has_empty_if_room [OF wf nd room]])
  have "no_deleted (insert_at ht t key len val)"
    using nd by (auto simp: no_deleted_def insert_at_def dest!: set_update_subset_insert [THEN subsetD])
  thus ?thesis using t unat_succ [OF room] by (intro that [OF t]) simp_all
next
  case (Some v)
  then obtain i where i: "i < length (ht_buckets ht)"
    "holds_key m (read_bytes m key (unat len)) (ht_buckets ht ! i)"
    using ht_map_None_iff [of m ht "read_bytes m key (unat len)"] by auto
  have "no_deleted (update_at ht i val)"
    using nd i(1) by (auto simp: no_deleted_def update_at_def dest!: set_update_subset_insert [THEN subsetD])
  thus ?thesis by (intro that [OF set_entry_present [OF wf key i]]) (simp_all add: update_at_def)
qed

lemma rehash_loop_fold:
  "rehash_loop m es ht =
     foldl (\<lambda>t (p, v). Option.bind t (\<lambda>t. ht_insert m t p v)) (Some ht) (map entry_pair (filter occupied es))"
proof (induction es arbitrary: ht)
  case (Cons e es)
  have "foldl (\<lambda>t (p, v). Option.bind t (\<lambda>t. ht_insert m t p v)) None xs = None" for xs
    by (induction xs) auto
  thus ?case
    using Cons.IH by (auto simp: occupied_def entry_pair_def ht_insert_def split: option.split)
qed simp

lemma rehash_loop_returns:
  assumes "ht_wf m ht" "no_deleted ht"
    and "\<forall>e\<in>set es. occupied e \<longrightarrow> key_buf e \<noteq> NULL \<and> key_length e \<noteq> 0"
    and "unat (ht_length ht) + length (filter occupied es) < unat (ht_capacity ht)"
  shows "\<exists>ht'. rehash_loop m es ht = Some ht' \<and> ht_capacity ht' = ht_capacity ht"
  using assms
proof (induction es arbitrary: ht)
  case (Cons e es)
  show ?case
  proof (cases "occupied e")
    case True
    hence key: "key_buf e \<noteq> NULL" "key_length e \<noteq> 0" using Cons.prems(3) by simp_all
    obtain t ht' where t: "oa_hash_set_entry m ht (key_buf e) (key_length e) (entry_value e) = Some (t, ht')"
      "no_deleted ht'" "unat (ht_length ht') \<le> unat (ht_length ht) + 1" "ht_capacity ht' = ht_capacity ht"
      by (rule set_entry_no_deleted [OF Cons.prems(1) key Cons.prems(2)])
        (use Cons.prems(4) True in auto)
    have "\<exists>ht''. rehash_loop m es ht' = Some ht'' \<and> ht_capacity ht'' = ht_capacity ht'"
      using Cons.prems(3,4) t True set_entry_correct(1) [OF Cons.prems(1) key t(1)]
      by (intro Cons.IH) simp_all
    thus ?thesis using t True by (simp add: occupied_def)
  next
    case False
    thus ?thesis using Cons by (simp add: occupied_def)
  qed
qed simp

lemma distinct_map_filter:
  assumes "\<And>i j. i < length xs \<Longrightarrow> j < length xs \<Longrightarrow> P (xs ! i) \<Longrightarrow> P (xs ! j) \<Longrightarrow>
      f (xs ! i) = f (xs ! j) \<Longrightarrow> i = j"
  shows "distinct (map f (filter P xs))"
  using assms
proof (induction xs)
  case (Cons x xs)
  have "distinct (map f (filter P xs))"
    using Cons.prems [of "Suc _" "Suc _"] by (intro Cons.IH) auto
  moreover have "f x \<noteq> f y" if "P x" "y \<in> set xs" "P y" for y
    using that Cons.prems [of 0 "Suc _"] by (auto simp: in_set_conv_nth)
  ultimately show ?case by auto
qed simp

lemma map_of_entries:
  "map_of (map (\<lambda>e. (entry_key m e, entry_value e)) (filter occupied es)) k =
     map_option entry_value (find (holds_key m k) es)"
  by (induction es) (auto simp: holds_key_def)

lemma map_of_rev_entries:
  assumes "ht_wf m ht"
  shows "map_of (rev (map (\<lambda>(p, v). (key_at m p, v)) (map entry_pair (filter occupied (ht_buckets ht))))) =
    ht_map m ht"
proof -
  let ?l = "map (\<lambda>e. (entry_key m e, entry_value e)) (filter occupied (ht_buckets ht))"
  have "distinct (map (entry_key m) (filter occupied (ht_buckets ht)))"
    using assms by (intro distinct_map_filter) (auto simp: ht_wf_def buckets_wf_def holds_key_def)
  hence "distinct (map fst ?l)" by (simp add: o_def)
  hence "map_of (rev ?l) = map_of ?l" by (subst map_of_inject_set) (simp_all add: rev_map [symmetric])
  moreover have eq: "map (\<lambda>(p, v). (key_at m p, v)) (map entry_pair (filter occupied (ht_buckets ht))) = ?l"
    by (simp add: entry_pair_def key_at_def entry_key_def)
  ultimately show ?thesis unfolding eq by (simp add: fun_eq_iff map_of_entries ht_map_def)
qed

lemma kfree_kmem: "kfree p s = Some s' \<Longrightarrow> kmem s' = kmem s"
  by (auto simp: kfree_def Let_def split: option.splits if_splits)

section \<open>Properties\<close>

text \<open>C19: storing a value refines the update of the abstract map.  On a well-formed table
  \<open>oa_hash_set\<close> succeeds when the key is present or some slot is EMPTY; it returns the value, keeps
  the table well formed and changes the map at that key only, so a following \<open>oa_hash_get\<close> of any
  key returns the new value for the same bytes and what it returned before for any other.\<close>
theorem oa_hash_set_refines_update:
  assumes wf: "ht_wf m ht" and key: "key \<noteq> NULL" "len \<noteq> 0"
    and room: "has_empty ht \<or> oa_hash_get_entry m ht key len \<noteq> None"
  shows "\<exists>ht'. oa_hash_set m ht key len val = (val, ht') \<and> ht_wf m ht' \<and>
     ht_map m ht' = (ht_map m ht)(read_bytes m key (unat len) \<mapsto> val) \<and>
     (\<forall>q n. q \<noteq> NULL \<and> n \<noteq> 0 \<longrightarrow> oa_hash_get m ht' q n =
        (if read_bytes m q (unat n) = read_bytes m key (unat len) then val else oa_hash_get m ht q n))"
proof -
  have ok: "key_ok (key, len)" using key by (simp add: key_ok_def)
  have "has_empty ht \<or> ht_map m ht (key_at m (key, len)) \<noteq> None"
    using room ht_lookup_map [OF wf ok] by (auto simp: ht_lookup_def)
  then obtain ht' where "ht_insert m ht (key, len) val = Some ht'"
    using ht.insert_room [OF wf ok, of val] by auto
  then obtain t where t: "oa_hash_set_entry m ht key len val = Some (t, ht')"
    by (auto simp: ht_insert_def)
  note c = set_entry_correct [OF wf key t]
  have get: "oa_hash_get m h q n = (case ht_lookup m h (q, n) of None \<Rightarrow> NULL | Some v \<Rightarrow> v)" for h q n
    by (simp add: oa_hash_get_def ht_lookup_def split: option.split)
  have "oa_hash_get m ht' q n =
      (if read_bytes m q (unat n) = read_bytes m key (unat len) then val else oa_hash_get m ht q n)"
    if "q \<noteq> NULL" "n \<noteq> 0" for q n
    using ht.lookup_insert [OF wf ok, of "(q, n)" val ht'] that t
    by (simp add: get ht_insert_def key_ok_def key_at_def)
  thus ?thesis using c t by (simp add: oa_hash_set_def)
qed

definition sample_keys :: mem where
  "sample_keys = (\<lambda>a. if a = 0x100 then 48 else if a = 0x200 then 49 else 0)"

theorem oa_hash_set_refines_update_witness:
  "\<exists>ht'. oa_hash_set sample_keys (oa_hash_init 0x8000 4) 0x100 1 0x5000 = (0x5000, ht') \<and>
     ht_wf sample_keys ht' \<and> oa_hash_get sample_keys ht' 0x100 1 = 0x5000"
proof -
  have "has_empty (oa_hash_init 0x8000 4)" by code_simp
  thus ?thesis
    using oa_hash_set_refines_update [of sample_keys "oa_hash_init 0x8000 4" "0x100" 1 "0x5000"]
      oa_hash_init_wf(1) [of sample_keys "0x8000" 4] by auto
qed

text \<open>C20: removing a key refines the removal from the abstract map.  When the key block can be
  freed, \<open>oa_hash_remove\<close> returns, reports 1 exactly when the key was present, keeps the table well
  formed, clears the map at that key only and leaves the memory alone; a following lookup of the
  key finds nothing.\<close>
theorem oa_hash_remove_refines_delete:
  assumes wf: "ht_wf (kmem s) ht" and key: "key \<noteq> NULL" "len \<noteq> 0"
    and free: "\<forall>e\<in>set (ht_buckets ht). occupied e \<longrightarrow> kfree (key_buf e) s \<noteq> None"
  shows "\<exists>ht' s'. oa_hash_remove ht key len s =
       Some (if oa_hash_get_entry (kmem s) ht key len = None then 0 else 1, ht', s') \<and>
     kmem s' = kmem s \<and> ht_wf (kmem s) ht' \<and>
     ht_map (kmem s) ht' = (ht_map (kmem s) ht)(read_bytes (kmem s) key (unat len) := None) \<and>
     oa_hash_get_entry (kmem s) ht' key len = None"
proof -
  let ?m = "kmem s" and ?k = "read_bytes (kmem s) key (unat len)"
  note g = get_entry_correct [OF wf key]
  have rem: "oa_hash_remove ht key len s = (case oa_hash_get_entry ?m ht key len of
      None \<Rightarrow> Some (0, ht, s)
    | Some slot \<Rightarrow> (case kfree (key_buf (ht_buckets ht ! slot)) s of
        None \<Rightarrow> None | Some s' \<Rightarrow> Some (1, remove_slot ht slot, s')))"
    using key by (simp add: oa_hash_remove_def oa_hash_get_entry_def Let_def)
  show ?thesis
  proof (cases "ht_map ?m ht ?k")
    case None
    thus ?thesis using g(2) wf by (simp add: rem fun_upd_idem)
  next
    case (Some v)
    then obtain i where i: "i < length (ht_buckets ht)" "holds_key ?m ?k (ht_buckets ht ! i)"
      using ht_map_None_iff [of ?m ht ?k] by auto
    note r = remove_slot_correct [OF wf i]
    have "kfree (key_buf (ht_buckets ht ! i)) s \<noteq> None"
      using free i by (simp add: holds_key_def)
    then obtain s' where s': "kfree (key_buf (ht_buckets ht ! i)) s = Some s'" by blast
    have "oa_hash_get_entry ?m (remove_slot ht i) key len = None"
      using get_entry_correct(2) [OF r(1) key] r(2) by simp
    thus ?thesis using g(1) [OF i] s' kfree_kmem [OF s'] r by (simp add: rem)
  qed
qed

definition sample_table :: oa_hash where
  "sample_table = \<lparr>ht_length = 1, ht_capacity = 1, ht_buckets_ptr = 0x8000,
     ht_buckets = [\<lparr>entry_state = OA_HASH_ENTRY_OCCUPIED, key_buf = HEAP_START_VIRT_DEFINED,
       key_length = 1, entry_value = 0x5000\<rparr>]\<rparr>"

definition sample_table_heap :: vmm where
  "sample_table_heap = \<lparr>irq_enabled = True, kmem = (\<lambda>_. 0),
     heap_pages = [\<lparr>hp_status = 1, hp_size = 64, hp_alloc_length = 1\<rparr>]\<rparr>"

lemma sample_table_wf: "ht_wf m sample_table"
  by (auto simp: ht_wf_def sample_table_def buckets_wf_def occupied_def reachable_from_def
      HEAP_START_VIRT_DEFINED_def home_def probe_slot_def)

theorem oa_hash_remove_refines_delete_witness:
  "\<exists>ht' s'. oa_hash_remove sample_table HEAP_START_VIRT_DEFINED 1 sample_table_heap = Some (1, ht', s') \<and>
     ht_map (kmem sample_table_heap) ht' [0] = None"
proof -
  have "oa_hash_get_entry (kmem sample_table_heap) sample_table HEAP_START_VIRT_DEFINED 1 \<noteq> None"
    "kfree HEAP_START_VIRT_DEFINED sample_table_heap \<noteq> None"
    "ht_buckets sample_table = [\<lparr>entry_state = OA_HASH_ENTRY_OCCUPIED, key_buf = HEAP_START_VIRT_DEFINED,
       key_length = 1, entry_value = 0x5000\<rparr>]"
    by code_simp+
  thus ?thesis
    using oa_hash_remove_refines_delete [OF sample_table_wf, of HEAP_START_VIRT_DEFINED 1 sample_table_heap]
    by (auto simp: sample_table_heap_def HEAP_START_VIRT_DEFINED_def)
qed

text \<open>Growing the table keeps its contents.  \<open>oa_hash_rehash\<close> of a well-formed table into a
  larger non-NULL array always succeeds: it returns the old array, the new table has the new
  capacity, is well formed and stands for the same map.\<close>
lemma oa_hash_rehash_keeps_map:
  assumes wf: "ht_wf m ht" and new: "new_buckets \<noteq> NULL" "ht_capacity ht < new_capacity"
  shows "\<exists>ht'. oa_hash_rehash m ht new_buckets new_capacity = (ht_buckets_ptr ht, ht') \<and>
     ht_wf m ht' \<and> ht_map m ht' = ht_map m ht \<and> ht_capacity ht' = new_capacity"
proof -
  let ?bs = "ht_buckets ht" and ?init = "oa_hash_init new_buckets new_capacity"
  have keys: "\<forall>e\<in>set ?bs. occupied e \<longrightarrow> key_buf e \<noteq> NULL \<and> key_length e \<noteq> 0"
    using wf by (auto simp: ht_wf_def buckets_wf_def in_set_conv_nth)
  have "length (filter occupied ?bs) \<le> unat (ht_capacity ht)"
    using wf length_filter_le [of occupied ?bs] by (simp add: ht_wf_def)
  also have "\<dots> < unat new_capacity" using new(2) by (simp add: word_less_nat_alt)
  finally have "unat (ht_length ?init) + length (filter occupied ?bs) < unat (ht_capacity ?init)"
    by (simp add: oa_hash_init_def)
  from rehash_loop_returns [OF oa_hash_init_wf(1,3) keys this]
  obtain ht' where ht': "rehash_loop m ?bs ?init = Some ht'" "ht_capacity ht' = new_capacity"
    by (auto simp: oa_hash_init_def)
  have "\<forall>(p, v)\<in>set (map entry_pair (filter occupied ?bs)). key_ok p"
    using keys by (auto simp: entry_pair_def key_ok_def)
  from ht.fold_insert [OF oa_hash_init_wf(1) this ht'(1) [unfolded rehash_loop_fold]]
  have "ht_wf m ht' \<and> ht_map m ht' = ht_map m ht"
    by (simp only: oa_hash_init_wf(2) map_of_rev_entries [OF wf] empty_map_add)
  moreover have "\<not> new_capacity \<le> ht_capacity ht" using new(2) by simp
  ultimately show ?thesis using ht' new(1) by (simp add: oa_hash_rehash_def)
qed

lemma oa_hash_rehash_keeps_map_witness:
  "\<exists>ht'. oa_hash_rehash (\<lambda>_. 0) sample_table 0x9000 33 = (0x8000, ht') \<and> ht_wf (\<lambda>_. 0) ht' \<and>
     ht_map (\<lambda>_. 0) ht' [0] = Some 0x5000"
proof -
  have "ht_map (\<lambda>_. 0) sample_table [0] = Some 0x5000" by code_simp
  thus ?thesis
    using oa_hash_rehash_keeps_map [OF sample_table_wf, of "0x9000" 33 "\<lambda>_. 0"]
    by (auto simp: sample_table_def)
qed

text \<open>A table without EMPTY slots refuses every new key, even when slots were freed by
  \<open>oa_hash_remove\<close>: \<open>oa_hash_set\<close> then returns NULL and changes nothing.\<close>
lemma oa_hash_set_fails_on_tombstones:
  assumes wf: "ht_wf m ht" and key: "key \<noteq> NULL" "len \<noteq> 0"
    and new: "oa_hash_get_entry m ht key len = None" and full: "\<not> has_empty ht"
  shows "oa_hash_set m ht key len val = (NULL, ht)"
proof -
  have "key_ok (key, len)" using key by (simp add: key_ok_def)
  hence "ht_map m ht (read_bytes m key (unat len)) = None"
    using new ht_lookup_map [OF wf, of "(key, len)"] by (simp add: ht_lookup_def key_at_def)
  thus ?thesis using set_entry_full [OF wf key _ full] by (simp add: oa_hash_set_def)
qed

lemma oa_hash_set_fails_on_tombstones_witness:
  "let ht1 = snd (oa_hash_set sample_keys (oa_hash_init 0x8000 1) 0x100 1 0x5000);
       ht2 = remove_slot ht1 0
   in ht_length ht2 = 0 \<and> oa_hash_set sample_keys ht2 0x200 1 0x6000 = (NULL, ht2)"
proof -
  let ?ht1 = "snd (oa_hash_set sample_keys (oa_hash_init 0x8000 1) 0x100 1 0x5000)"
  let ?ht2 = "remove_slot ?ht1 0"
  have ht2: "?ht2 = \<lparr>ht_length = 0, ht_capacity = 1, ht_buckets_ptr = 0x8000,
      ht_buckets = [\<lparr>entry_state = OA_HASH_ENTRY_DELETED, key_buf = 0x100, key_length = 1,
        entry_value = 0x5000\<rparr>]\<rparr>" (is "_ = ?r")
    by code_simp
  have "ht_wf sample_keys ?r" by (simp add: ht_wf_def buckets_wf_def occupied_def)
  moreover have "oa_hash_get_entry sample_keys ?r 0x200 1 = None" "\<not> has_empty ?r" by code_simp+
  ultimately have "oa_hash_set sample_keys ?r 0x200 1 0x6000 = (NULL, ?r)"
    by (intro oa_hash_set_fails_on_tombstones) simp_all
  thus ?thesis by (simp add: ht2)
qed

end
