(* ===== verification/Threads.thy ===== *)
theory Threads
  imports Pmm Oa_Hash
begin

text \<open>
  The data of scheduler.h: thread contexts with their mapping arrays, and the kernel state that
  the scheduler, the page tables and the system calls share.  Thread contexts live in a store
  from the address of the context to its fields; reading or writing at an address that holds no
  thread (NULL, or memory that never held one) is a fault, the value \<open>None\<close>; a freed context keeps
  its contents, as \<open>kfree\<close> leaves the block's bytes alone.  File descriptor tables live in such a
  store too.  The mapping array is a
  list; the address of its heap block is kept beside it.
\<close>

record mapped_virt_addresses =
  mv_virt_address :: u64
  mv_flag :: u64
  mv_used :: bool

record thread_mappings =
  mapped_virt_addresses_array :: "mapped_virt_addresses list"
  mapped_array_ptr :: u64
  num_mappings :: u64
  max_mappings :: u64

record thread_context =
  start_time :: u64
  last_start_time :: u64
  total_run_time :: u64
  last_run_time :: u64
  sleep_for_ms :: u64
  quantum_ns :: u64
  pid :: u64
  thread_entry :: u64
  stack_base :: u64
  user_rsp :: u64
  ssefxsave :: "u8 list"
  return_rsp :: u64
  misaligned_by :: u64
  current_rsp :: u64
  current_misaligned_by :: u64
  status :: "u64 list"
  elf_entry :: u64
  elf_file :: u64
  mappings :: thread_mappings
  fd_table :: u64
  cr3 :: u64
  fs_base :: u64
  gs_base :: u64
  current_dir :: u64
  next_thread :: u64
  prev_thread :: u64

record kernel = pmm +
  pml4_address_virt_glob :: u64
  cr3_global :: u64
  cr3_register :: u64
  rsp_register :: u64
  rip_register :: u64
  gp_registers :: "u64 list"
  fpu_registers :: "u8 list"
  tss_rsp0 :: u64
  threads :: "u64 \<Rightarrow> thread_context option"
  fd_tables :: "u64 \<Rightarrow> oa_hash option"
  running_thread :: u64
  num_threads :: u64
  scheduling_started :: bool
  first_thread :: bool
  sched_first :: bool
  new_pid :: u64

definition THREAD_STACK_SIZE :: u64 where
  "THREAD_STACK_SIZE = 16000"

definition THREAD_QUANTUM :: u64 where
  "THREAD_QUANTUM = 5"

definition IDLE_PID :: u64 where
  "IDLE_PID = 0xDEADBEEFCAFEBABE"

definition EINVAL :: u64 where
  "EINVAL = 22"

definition get_current_thread :: "'a kernel_scheme \<Rightarrow> u64" where
  "get_current_thread s = running_thread s"

definition thread_upd :: "u64 \<Rightarrow> (thread_context \<Rightarrow> thread_context) \<Rightarrow> 'a kernel_scheme \<Rightarrow>
    'a kernel_scheme option" where
  "thread_upd p f s =
     (case threads s p of
        None \<Rightarrow> None
      | Some t \<Rightarrow> Some (s\<lparr>threads := (threads s)(p := Some (f t))\<rparr>))"

text \<open>A thread with an empty mapping array of eight entries, for concrete runs.\<close>

definition sample_thread :: thread_context where
  "sample_thread = \<lparr>start_time = 0, last_start_time = 0, total_run_time = 0, last_run_time = 0,
     sleep_for_ms = 0, quantum_ns = 5, pid = 1, thread_entry = 0, stack_base = 0, user_rsp = 0,
     ssefxsave = [], return_rsp = 0, misaligned_by = 0, current_rsp = 0, current_misaligned_by = 0,
     status = replicate 10 0, elf_entry = 0, elf_file = 0,
     mappings = \<lparr>mapped_virt_addresses_array =
         replicate 8 \<lparr>mv_virt_address = 0, mv_flag = 0, mv_used = False\<rparr>,
       mapped_array_ptr = 0, num_mappings = 0, max_mappings = 8\<rparr>,
     fd_table = 0, cr3 = 0, fs_base = 0, gs_base = 0, current_dir = 0, next_thread = 0,
     prev_thread = 0\<rparr>"

lemma thread_upd_Some [simp]:
  "threads s p = Some t \<Longrightarrow> thread_upd p f s = Some (s\<lparr>threads := (threads s)(p \<mapsto> f t)\<rparr>)"
  by (simp add: thread_upd_def)

lemma thread_upd_None [simp]: "threads s p = None \<Longrightarrow> thread_upd p f s = None"
  by (simp add: thread_upd_def)

end
