(* ===== verification/Paging.thy ===== *)
theory Paging
  imports Threads
begin

text \<open>
  Page tables (paging.c).  Tables are read and written in the byte memory through the direct map
  at \<open>hhdm_offset\<close>, as the code does.  \<open>map_page\<close> is the walk that creates missing tables, the
  write of the leaf entry and the bookkeeping in the running thread; \<open>mmu_walk\<close> is the
  hardware's view of the same tables.

  The lemmas work level by level on the tree of tables: a well-formed tree has no page in two
  places, mapping a page changes the walk of exactly one index path, and the tree stays
  well formed.
\<close>

section \<open>Indices and entries\<close>

definition pml4_index :: "u64 \<Rightarrow> u64" where
  "pml4_index virt_address = drop_bit 39 virt_address AND 0x1FF"

definition pdpt_index :: "u64 \<Rightarrow> u64" where
  "pdpt_index virt_address = drop_bit 30 virt_address AND 0x1FF"

definition pd_index :: "u64 \<Rightarrow> u64" where
  "pd_index virt_address = drop_bit 21 virt_address AND 0x1FF"

definition pt_index :: "u64 \<Rightarrow> u64" where
  "pt_index virt_address = drop_bit 12 virt_address AND 0x1FF"

definition entry_addr :: "u64 \<Rightarrow> u64 \<Rightarrow> u64" where
  "entry_addr table index = table + 8 * index"

definition entry_table :: "u64 \<Rightarrow> u64 \<Rightarrow> u64" where
  "entry_table hhdm entry = (entry AND NOT 0xfff) + hhdm"

definition virt_lookup :: "u64 \<Rightarrow> u64" where
  "virt_lookup virt_address = 0"

section \<open>Mapping a page\<close>

definition entry_or_alloc ::
  "u64 \<Rightarrow> u64 \<Rightarrow> u64 \<Rightarrow> 'a pmm_scheme \<Rightarrow> u64 \<times> 'a pmm_scheme" where
  "entry_or_alloc table index permissions s =
     (let entry = load64 (kmem s) (entry_addr table index) in
      if entry AND 1 = 0 then
        (let (frame, s1) = alloc_frame s; new_entry = frame OR permissions
         in (new_entry, s1\<lparr>kmem := store64 (entry_addr table index) new_entry (kmem s1)\<rparr>))
      else (entry, s))"

definition map_page_tables ::
  "u64 \<Rightarrow> u64 \<Rightarrow> u64 \<Rightarrow> u64 \<Rightarrow> 'a pmm_scheme \<Rightarrow> 'a pmm_scheme" where
  "map_page_tables pml4 phys_address virt_address permissions s =
     (let (pml4_entry, s1) = entry_or_alloc pml4 (pml4_index virt_address) permissions s;
          pdpt = entry_table (hhdm_offset s1) pml4_entry;
          (pdpt_entry, s2) = entry_or_alloc pdpt (pdpt_index virt_address) permissions s1;
          pd = entry_table (hhdm_offset s2) pdpt_entry;
          (pd_entry, s3) = entry_or_alloc pd (pd_index virt_address) permissions s2;
          pt = entry_table (hhdm_offset s3) pd_entry
      in s3\<lparr>kmem := store64 (entry_addr pt (pt_index virt_address))
                     (phys_address OR permissions) (kmem s3)\<rparr>)"

definition fresh_mapping :: mapped_virt_addresses where
  "fresh_mapping = \<lparr>mv_virt_address = 0, mv_flag = 0, mv_used = False\<rparr>"

definition grow_mappings :: "u64 \<Rightarrow> 'a kernel_scheme \<Rightarrow> 'a kernel_scheme option" where
  "grow_mappings p s =
     (case threads s p of
        None \<Rightarrow> None
      | Some t \<Rightarrow>
          (let mp = mappings t in
           if num_mappings mp = max_mappings mp then
             (case krealloc_byte (mapped_array_ptr mp) ((max_mappings mp + 8) * 24) s of
                None \<Rightarrow> None
              | Some (ptr, s1) \<Rightarrow>
                  if ptr = NULL then None
                  else thread_upd p (\<lambda>t. t\<lparr>mappings := mp\<lparr>mapped_array_ptr := ptr,
                         mapped_virt_addresses_array :=
                           mapped_virt_addresses_array mp @ replicate 8 fresh_mapping,
                         max_mappings := max_mappings mp + 8\<rparr>\<rparr>) s1)
           else Some s))"

definition record_mapping :: "u64 \<Rightarrow> 'a kernel_scheme \<Rightarrow> (u64 \<times> 'a kernel_scheme) option" where
  "record_mapping virt_address s =
     (let p = get_current_thread s in
      case threads s p of
        None \<Rightarrow> None
      | Some t \<Rightarrow>
          (let mp = mappings t; arr = mapped_virt_addresses_array mp in
           if length arr < unat (max_mappings mp) then None
           else
             (let slot = find (\<lambda>i. \<not> mv_used (arr ! i)) [0..<unat (max_mappings mp)];
                  t1 = (case slot of
                          None \<Rightarrow> t
                        | Some i \<Rightarrow>
                            t\<lparr>mappings := mp\<lparr>mapped_virt_addresses_array :=
                                 arr[i := (arr ! i)\<lparr>mv_virt_address := virt_address, mv_used := True\<rparr>],
                               num_mappings := num_mappings mp + 1\<rparr>\<rparr>);
                  ret = (case slot of None \<Rightarrow> 0 | Some i \<Rightarrow> of_nat i)
              in map_option (Pair ret)
                   (grow_mappings p (s\<lparr>threads := (threads s)(p := Some t1)\<rparr>)))))"

definition map_page ::
  "u64 \<Rightarrow> u64 \<Rightarrow> u64 \<Rightarrow> u64 \<Rightarrow> 'a kernel_scheme \<Rightarrow> (u64 \<times> 'a kernel_scheme) option" where
  "map_page pml4_address phys_address virt_address permissions s =
     (let (irq, s1) = irq_disable_save s;
          s2 = map_page_tables pml4_address phys_address virt_address permissions s1
      in if scheduling_started s2 then record_mapping virt_address s2
         else Some (UINT64_MAX, irq_restore (Some irq) s2))"

section \<open>Ranges\<close>

definition set_mapping_flag :: "u64 \<Rightarrow> u64 \<Rightarrow> 'a kernel_scheme \<Rightarrow> 'a kernel_scheme option" where
  "set_mapping_flag i flag s =
     (case threads s (get_current_thread s) of
        None \<Rightarrow> None
      | Some t \<Rightarrow>
          (let mp = mappings t; arr = mapped_virt_addresses_array mp in
           if unat i < length arr then
             thread_upd (get_current_thread s)
               (\<lambda>t. t\<lparr>mappings := mp\<lparr>mapped_virt_addresses_array :=
                        arr[unat i := (arr ! unat i)\<lparr>mv_flag := flag\<rparr>]\<rparr>\<rparr>) s
           else None))"

definition map_fresh_page ::
  "u64 \<Rightarrow> u64 \<Rightarrow> u64 \<Rightarrow> u64 \<Rightarrow> 'a kernel_scheme \<Rightarrow> 'a kernel_scheme option" where
  "map_fresh_page pml4_address virt_address permissions flag s =
     (let (phys_page, s1) = alloc_frame s in
      case map_page pml4_address phys_page virt_address permissions s1 of
        None \<Rightarrow> None
      | Some (ret, s2) \<Rightarrow>
          if scheduling_started s2 then set_mapping_flag ret flag s2 else Some s2)"

fun map_range_loop ::
  "u64 \<Rightarrow> u64 \<Rightarrow> u64 \<Rightarrow> u64 \<Rightarrow> nat \<Rightarrow> nat \<Rightarrow> 'a kernel_scheme \<Rightarrow> 'a kernel_scheme option" where
  "map_range_loop pml4_address virt_address permissions flag i 0 s = Some s"
| "map_range_loop pml4_address virt_address permissions flag i (Suc k) s =
     (case map_fresh_page pml4_address (virt_address + of_nat i * PAGE_SIZE_DEFINED)
             permissions flag s of
        None \<Rightarrow> None
      | Some s1 \<Rightarrow> map_range_loop pml4_address virt_address permissions flag (Suc i) k s1)"

definition map_range ::
  "u64 \<Rightarrow> u64 \<Rightarrow> u64 \<Rightarrow> u64 \<Rightarrow> u64 \<Rightarrow> 'a kernel_scheme \<Rightarrow> (u64 \<times> 'a kernel_scheme) option" where
  "map_range pml4_address virt_address permissions sz flag s =
     (if sz = 0 then Some (EINVAL, s)
      else
        (let total = sz + (virt_address AND 0xfff);
             run = (\<lambda>n. map_option (Pair 0)
                      (map_range_loop pml4_address virt_address permissions flag 0 n s))
         in if total \<le> PAGE_SIZE_DEFINED then
              map_option (Pair 0) (map_fresh_page pml4_address virt_address permissions flag s)
            else if total mod PAGE_SIZE_DEFINED = 0 then run (unat (total div PAGE_SIZE_DEFINED))
            else run (unat (total div PAGE_SIZE_DEFINED + 1))))"

section \<open>Unmapping, permissions, translation\<close>

definition table_entry :: "'a pmm_scheme \<Rightarrow> u64 \<Rightarrow> u64 \<Rightarrow> u64" where
  "table_entry s table index = load64 (kmem s) (entry_addr table index)"

definition walk_pt :: "'a pmm_scheme \<Rightarrow> u64 \<Rightarrow> u64 \<Rightarrow> u64" where
  "walk_pt s pml4_address virt_address =
     (let pml4_entry = table_entry s pml4_address (pml4_index virt_address);
          pdpt = entry_table (hhdm_offset s) pml4_entry;
          pdpt_entry = table_entry s pdpt (pdpt_index virt_address);
          pd = entry_table (hhdm_offset s) pdpt_entry;
          pd_entry = table_entry s pd (pd_index virt_address)
      in entry_table (hhdm_offset s) pd_entry)"

definition forget_mapping :: "u64 \<Rightarrow> 'a kernel_scheme \<Rightarrow> 'a kernel_scheme option" where
  "forget_mapping virt_address s =
     (case threads s (get_current_thread s) of
        None \<Rightarrow> None
      | Some t \<Rightarrow>
          (let mp = mappings t; arr = mapped_virt_addresses_array mp in
           if length arr < unat (max_mappings mp) then None
           else
             (case find (\<lambda>i. mv_virt_address (arr ! i) = virt_address) [0..<unat (max_mappings mp)] of
                None \<Rightarrow> Some s
              | Some i \<Rightarrow>
                  thread_upd (get_current_thread s)
                    (\<lambda>t. t\<lparr>mappings := mp\<lparr>mapped_virt_addresses_array := arr[i := fresh_mapping],
                                            num_mappings := num_mappings mp - 1\<rparr>\<rparr>) s)))"

definition unmap_page :: "u64 \<Rightarrow> u64 \<Rightarrow> 'a kernel_scheme \<Rightarrow> 'a kernel_scheme option" where
  "unmap_page pml4_address virt_address s =
     (let (irq, s1) = irq_disable_save s;
          pt = walk_pt s1 pml4_address virt_address;
          s2 = s1\<lparr>kmem := store64 (entry_addr pt (pt_index virt_address)) 0 (kmem s1)\<rparr>
      in map_option (irq_restore (Some irq))
           (if scheduling_started s2 then forget_mapping virt_address s2 else Some s2))"

definition or_entry :: "u64 \<Rightarrow> u64 \<Rightarrow> u64 \<Rightarrow> 'a pmm_scheme \<Rightarrow> u64 \<times> 'a pmm_scheme" where
  "or_entry table index permissions s =
     (let entry = table_entry s table index OR permissions
      in (entry, s\<lparr>kmem := store64 (entry_addr table index) entry (kmem s)\<rparr>))"

definition change_page_map :: "u64 \<Rightarrow> u64 \<Rightarrow> u64 \<Rightarrow> 'a pmm_scheme \<Rightarrow> 'a pmm_scheme" where
  "change_page_map cr3_virt virt_address permissions s =
     (let (irq, s0) = irq_disable_save s;
          (pml4_entry, s1) = or_entry cr3_virt (pml4_index virt_address) permissions s0;
          pdpt = entry_table (hhdm_offset s1) pml4_entry;
          (pdpt_entry, s2) = or_entry pdpt (pdpt_index virt_address) permissions s1;
          pd = entry_table (hhdm_offset s2) pdpt_entry;
          (pd_entry, s3) = or_entry pd (pd_index virt_address) permissions s2;
          pt = entry_table (hhdm_offset s3) pd_entry;
          (pt_entry, s4) = or_entry pt (pt_index virt_address) permissions s3
      in irq_restore (Some irq) s4)"

fun change_page_map_loop :: "u64 \<Rightarrow> u64 \<Rightarrow> u64 \<Rightarrow> nat \<Rightarrow> nat \<Rightarrow> 'a pmm_scheme \<Rightarrow> 'a pmm_scheme" where
  "change_page_map_loop cr3_virt virt_address permissions i 0 s = s"
| "change_page_map_loop cr3_virt virt_address permissions i (Suc k) s =
     change_page_map_loop cr3_virt virt_address permissions (Suc i) k
       (change_page_map cr3_virt (virt_address + of_nat i * PAGE_SIZE_DEFINED) permissions s)"

definition change_page_map_range ::
  "u64 \<Rightarrow> u64 \<Rightarrow> u64 \<Rightarrow> u64 \<Rightarrow> 'a pmm_scheme \<Rightarrow> u64 \<times> 'a pmm_scheme" where
  "change_page_map_range cr3_virt virt_address sz permissions s =
     (if sz = 0 then (EINVAL, s)
      else
        (let total = sz + (virt_address AND 0xfff) in
         if total \<le> PAGE_SIZE_DEFINED then (0, change_page_map cr3_virt virt_address permissions s)
         else if total mod PAGE_SIZE_DEFINED = 0 then
           (0, change_page_map_loop cr3_virt virt_address permissions 0
                 (unat (total div PAGE_SIZE_DEFINED)) s)
         else
           (0, change_page_map_loop cr3_virt virt_address permissions 0
                 (unat (total div PAGE_SIZE_DEFINED + 1)) s)))"

definition virt_to_phys :: "u64 \<Rightarrow> u64 \<Rightarrow> 'a pmm_scheme \<Rightarrow> u64" where
  "virt_to_phys virt_address cr3_virt s =
     (table_entry s (walk_pt s cr3_virt virt_address) (pt_index virt_address) AND NOT 0xfff) +
     (virt_address AND 0xFFF)"

definition virt_to_phys_page :: "u64 \<Rightarrow> u64 \<Rightarrow> 'a pmm_scheme \<Rightarrow> u64" where
  "virt_to_phys_page virt_address cr3_virt s = virt_to_phys virt_address cr3_virt s AND NOT 0xfff"

fun copy_entries :: "u64 \<Rightarrow> u64 \<Rightarrow> nat \<Rightarrow> nat \<Rightarrow> mem \<Rightarrow> mem" where
  "copy_entries dst src i 0 m = m"
| "copy_entries dst src i (Suc k) m =
     copy_entries dst src (Suc i) k
       (store64 (dst + of_nat (8 * i)) (load64 m (src + of_nat (8 * i))) m)"

definition init_paging :: "'a kernel_scheme \<Rightarrow> 'a kernel_scheme" where
  "init_paging s =
     (let s0 = s\<lparr>cr3_global := cr3_register s\<rparr>;
          (frame, s1) = alloc_frame s0;
          page = frame + hhdm_offset s1;
          cr3_virt = cr3_register s1 + hhdm_offset s1;
          s2 = s1\<lparr>kmem := copy_entries page cr3_virt 0 512 (kmem s1)\<rparr>
      in s2\<lparr>pml4_address_virt_glob := page, cr3_register := page - hhdm_offset s2\<rparr>)"

section \<open>The hardware walk and the tree of tables\<close>

definition page_path :: "u64 \<Rightarrow> u64 list" where
  "page_path v = [pml4_index v, pdpt_index v, pd_index v, pt_index v]"

fun mmu_walk :: "mem \<Rightarrow> u64 \<Rightarrow> u64 \<Rightarrow> u64 list \<Rightarrow> u64 option" where
  "mmu_walk m h t [] = None"
| "mmu_walk m h t (i # path) =
     (let e = load64 m (entry_addr t i) in
      if e AND 1 = 0 then None
      else if path = [] then Some e
      else mmu_walk m h (entry_table h e) path)"

fun map_path :: "u64 \<Rightarrow> u64 list \<Rightarrow> u64 \<Rightarrow> u64 \<Rightarrow> 'a pmm_scheme \<Rightarrow> 'a pmm_scheme" where
  "map_path t [] leaf perms s = s"
| "map_path t (i # path) leaf perms s =
     (if path = [] then s\<lparr>kmem := store64 (entry_addr t i) leaf (kmem s)\<rparr>
      else (let (e, s1) = entry_or_alloc t i perms s
            in map_path (entry_table (hhdm_offset s1) e) path leaf perms s1))"

fun table_pages :: "mem \<Rightarrow> u64 \<Rightarrow> nat \<Rightarrow> u64 \<Rightarrow> u64 set" where
  "table_pages m h 0 t = {t}"
| "table_pages m h (Suc n) t =
     insert t (\<Union>i\<in>{i. i < 512 \<and> load64 m (entry_addr t i) AND 1 \<noteq> 0}.
       table_pages m h n (entry_table h (load64 m (entry_addr t i))))"

fun tree_wf :: "mem \<Rightarrow> u64 \<Rightarrow> nat \<Rightarrow> u64 \<Rightarrow> bool" where
  "tree_wf m h 0 t \<longleftrightarrow> t AND 0xfff = 0"
| "tree_wf m h (Suc n) t \<longleftrightarrow> t AND 0xfff = 0 \<and>
     (\<forall>i<512. load64 m (entry_addr t i) AND 1 \<noteq> 0 \<longrightarrow>
        tree_wf m h n (entry_table h (load64 m (entry_addr t i))) \<and>
        t \<notin> table_pages m h n (entry_table h (load64 m (entry_addr t i)))) \<and>
     (\<forall>i<512. \<forall>j<512. i \<noteq> j \<longrightarrow> load64 m (entry_addr t i) AND 1 \<noteq> 0 \<longrightarrow>
        load64 m (entry_addr t j) AND 1 \<noteq> 0 \<longrightarrow>
        table_pages m h n (entry_table h (load64 m (entry_addr t i))) \<inter>
        table_pages m h n (entry_table h (load64 m (entry_addr t j))) = {})"

section \<open>Pages as address ranges\<close>

lemma div_page_iff: "x div 4096 = q \<longleftrightarrow> 4096 * q \<le> x \<and> x < 4096 * q + 4096" for x :: nat
proof
  assume "x div 4096 = q"
  hence "x = 4096 * q + x mod 4096" by auto
  moreover have "x mod 4096 < 4096" by simp
  ultimately show "4096 * q \<le> x \<and> x < 4096 * q + 4096" by linarith
qed (auto intro: div_nat_eqI)

lemma in_page_iff:
  assumes "t AND 0xfff = 0"
  shows "in_range t 4096 x \<longleftrightarrow> unat x div 4096 = unat t div 4096"
proof -
  define q where "q = unat t div 4096"
  have q: "unat t = 4096 * q"
    using assms unfolding page_aligned_iff q_def by (metis add.right_neutral mult_div_mod_eq)
  have "4096 * q < 4096 * 2 ^ 52" using unat_u64_bound [of t] q by simp
  hence "q + 1 \<le> 2 ^ 52" unfolding mult_less_cancel1 by linarith
  hence "4096 * (q + 1) \<le> 4096 * 2 ^ 52" by (rule mult_le_mono2)
  hence "no_wrap t 4096" by (simp add: no_wrap_def q)
  hence "in_range t 4096 x \<longleftrightarrow> 4096 * q \<le> unat x \<and> unat x < 4096 * q + 4096"
    by (simp only: in_range_iff q)
  thus ?thesis by (simp only: div_page_iff q_def [symmetric])
qed

lemma pages_disjoint:
  assumes "t AND 0xfff = 0" "t' AND 0xfff = 0" "t \<noteq> t'" "in_range t 4096 x"
  shows "\<not> in_range t' 4096 x"
proof
  assume "in_range t' 4096 x"
  hence "unat t div 4096 = unat t' div 4096" using assms by (simp add: in_page_iff)
  moreover have "unat t mod 4096 = 0" "unat t' mod 4096 = 0"
    using assms by (simp_all add: page_aligned_iff)
  ultimately have "unat t = unat t'" by (metis div_mult_mod_eq)
  thus False using assms(3) by (simp add: word_unat_eq_iff)
qed

lemma unat_8_mult: "i < 512 \<Longrightarrow> unat (8 * i :: u64) = 8 * unat i"
  by (subst unat_mult_no_wrap) (simp_all add: word_less_nat_alt)

lemma entry_byte_in_page:
  assumes "i < 512" "k < 8"
  shows "in_range t 4096 (entry_addr t i + of_nat k)"
proof -
  have "unat (8 * i + of_nat k :: u64) = 8 * unat i + k"
    using assms by (subst unat_add_no_wrap) (simp_all add: unat_8_mult unat_of_nat_u64 word_less_nat_alt)
  thus ?thesis using assms by (simp add: in_range_def entry_addr_def word_less_nat_alt)
qed

lemma load64_page_cong:
  assumes "i < 512" "\<And>x. in_range t 4096 x \<Longrightarrow> m x = m' x"
  shows "load64 m (entry_addr t i) = load64 m' (entry_addr t i)"
  by (rule load64_cong) (use assms entry_byte_in_page in blast)

lemma store64_outside_page:
  assumes "i < 512" "\<not> in_range t 4096 x"
  shows "store64 (entry_addr t i) v m x = m x"
proof (rule ccontr)
  assume "store64 (entry_addr t i) v m x \<noteq> m x"
  hence "unat (x - entry_addr t i) < 8" by (auto simp: store64_def split: if_splits)
  hence "in_range t 4096 (entry_addr t i + of_nat (unat (x - entry_addr t i)))"
    by (rule entry_byte_in_page [OF assms(1)])
  thus False using assms(2) by simp
qed

lemma load64_store64_entry:
  assumes "i < 512" "j < 512" "i \<noteq> j"
  shows "load64 (store64 (entry_addr t i) v m) (entry_addr t j) = load64 m (entry_addr t j)"
proof (rule load64_store64_other)
  have d: "entry_addr t j - entry_addr t i = 8 * j - 8 * i" by (simp add: entry_addr_def)
  have ne: "unat i \<noteq> unat j" using assms by (simp add: word_unat_eq_iff)
  have u: "unat (8 * j - 8 * i :: u64) =
      (if 8 * unat i \<le> 8 * unat j then 8 * unat j - 8 * unat i
       else 8 * unat j + 2 ^ 64 - 8 * unat i)"
    using assms by (simp add: unat_sub_if' unat_8_mult)
  show "8 \<le> unat (entry_addr t j - entry_addr t i)"
    "unat (entry_addr t j - entry_addr t i) \<le> 2 ^ 64 - 8"
    unfolding d u using ne assms by (auto simp: word_less_nat_alt)
qed

lemma load64_zero_page:
  assumes "i < 512" "\<And>x. in_range t 4096 x \<Longrightarrow> m x = 0"
  shows "load64 m (entry_addr t i) = 0"
proof -
  have "load64 m (entry_addr t i) = load64 (\<lambda>_. 0) (entry_addr t i)"
    using assms by (intro load64_page_cong) auto
  thus ?thesis by (simp add: load64_unfold)
qed

section \<open>Trees depend only on their own pages\<close>

definition agree_on :: "u64 set \<Rightarrow> mem \<Rightarrow> mem \<Rightarrow> bool" where
  "agree_on P m m' \<longleftrightarrow> (\<forall>p\<in>P. \<forall>x. in_range p 4096 x \<longrightarrow> m x = m' x)"

lemma agree_on_subset: "agree_on P m m' \<Longrightarrow> Q \<subseteq> P \<Longrightarrow> agree_on Q m m'"
  by (auto simp: agree_on_def)

lemma agree_on_load:
  "agree_on P m m' \<Longrightarrow> t \<in> P \<Longrightarrow> i < 512 \<Longrightarrow> load64 m (entry_addr t i) = load64 m' (entry_addr t i)"
  by (rule load64_page_cong) (auto simp: agree_on_def)

abbreviation child :: "mem \<Rightarrow> u64 \<Rightarrow> u64 \<Rightarrow> u64 \<Rightarrow> u64" where
  "child m h t i \<equiv> entry_table h (load64 m (entry_addr t i))"

abbreviation present :: "mem \<Rightarrow> u64 \<Rightarrow> u64 \<Rightarrow> bool" where
  "present m t i \<equiv> load64 m (entry_addr t i) AND 1 \<noteq> 0"

lemma root_in_pages [simp]: "t \<in> table_pages m h n t"
  by (cases n) auto

lemma child_pages_subset:
  "i < 512 \<Longrightarrow> present m t i \<Longrightarrow> table_pages m h n (child m h t i) \<subseteq> table_pages m h (Suc n) t"
  by auto

lemma table_pages_cong:
  "agree_on (table_pages m h n t) m m' \<Longrightarrow> table_pages m' h n t = table_pages m h n t"
proof (induction n arbitrary: t)
  case (Suc n)
  have e: "load64 m' (entry_addr t i) = load64 m (entry_addr t i)" if "i < 512" for i
    using agree_on_load [OF Suc.prems root_in_pages that] by simp
  have "table_pages m' h n (child m h t i) = table_pages m h n (child m h t i)"
    if "i < 512" "present m t i" for i
    using Suc.IH agree_on_subset [OF Suc.prems child_pages_subset] that by blast
  thus ?case using e by auto
qed simp

lemma tree_wf_cong:
  "agree_on (table_pages m h n t) m m' \<Longrightarrow> tree_wf m' h n t \<longleftrightarrow> tree_wf m h n t"
proof (induction n arbitrary: t)
  case (Suc n)
  have e: "load64 m' (entry_addr t i) = load64 m (entry_addr t i)" if "i < 512" for i
    using agree_on_load [OF Suc.prems root_in_pages that] by simp
  have ag: "agree_on (table_pages m h n (child m h t i)) m m'" if "i < 512" "present m t i" for i
    using agree_on_subset [OF Suc.prems child_pages_subset] that by blast
  show ?case
    using e Suc.IH [OF ag] table_pages_cong [OF ag] by auto
qed simp

lemma mmu_walk_cong:
  "agree_on (table_pages m h n t) m m' \<Longrightarrow> length path = Suc n \<Longrightarrow> (\<forall>i\<in>set path. i < 512) \<Longrightarrow>
   mmu_walk m' h t path = mmu_walk m h t path"
proof (induction n arbitrary: t path)
  case 0
  then obtain i where "path = [i]" by (cases path) auto
  thus ?case using 0 agree_on_load [OF 0(1) root_in_pages, of i] by (simp add: Let_def)
next
  case (Suc n)
  then obtain i rest where p: "path = i # rest" "length rest = Suc n" "i < 512" by (cases path) auto
  have e: "load64 m' (entry_addr t i) = load64 m (entry_addr t i)"
    using agree_on_load [OF Suc.prems(1) root_in_pages p(3)] by simp
  have "mmu_walk m' h (child m h t i) rest = mmu_walk m h (child m h t i) rest" if "present m t i"
    using Suc.IH agree_on_subset [OF Suc.prems(1) child_pages_subset [OF p(3) that]] p Suc.prems(3)
    by auto
  thus ?case by (simp add: p e Let_def)
qed

lemma zero_page_tree:
  assumes "\<And>x. in_range t 4096 x \<Longrightarrow> m x = 0" "t AND 0xfff = 0"
  shows "table_pages m h n t = {t}" "tree_wf m h n t"
    and "path \<noteq> [] \<Longrightarrow> \<forall>i\<in>set path. i < 512 \<Longrightarrow> mmu_walk m h t path = None"
proof -
  have z: "load64 m (entry_addr t i) = 0" if "i < 512" for i
    using load64_zero_page [OF that assms(1)] .
  show "table_pages m h n t = {t}" by (cases n) (auto simp: z)
  show "tree_wf m h n t" using assms(2) by (cases n) (auto simp: z)
  show "mmu_walk m h t path = None" if "path \<noteq> []" "\<forall>i\<in>set path. i < 512"
    using that by (cases path) (auto simp: z)
qed

lemma table_pages_aligned: "tree_wf m h n t \<Longrightarrow> p \<in> table_pages m h n t \<Longrightarrow> p AND 0xfff = 0"
  by (induction n arbitrary: t) auto

definition changes_within :: "u64 set \<Rightarrow> mem \<Rightarrow> mem \<Rightarrow> bool" where
  "changes_within P m m' \<longleftrightarrow> (\<forall>x. (\<forall>p\<in>P. \<not> in_range p 4096 x) \<longrightarrow> m' x = m x)"

lemma changes_within_trans:
  "changes_within P m m' \<Longrightarrow> changes_within Q m' m'' \<Longrightarrow> P \<subseteq> R \<Longrightarrow> Q \<subseteq> R \<Longrightarrow> changes_within R m m''"
  unfolding changes_within_def by (metis subsetD)

lemma changes_within_agree:
  assumes "changes_within P m m'" "P \<inter> Q = {}"
    and "\<And>p. p \<in> P \<union> Q \<Longrightarrow> p AND 0xfff = 0"
  shows "agree_on Q m m'"
  unfolding agree_on_def
proof (intro ballI allI impI)
  fix q x
  assume q: "q \<in> Q" "in_range q 4096 x"
  have "\<not> in_range p 4096 x" if "p \<in> P" for p
    using pages_disjoint [of q p x] assms(2,3) q that by auto
  thus "m x = m' x" using assms(1) by (simp add: changes_within_def)
qed

lemma tree_child_step:
  fixes m m' :: mem and h t :: u64
  defines "c \<equiv> \<lambda>i. child m h t i"
  assumes wf: "tree_wf m h (Suc n) t" and i: "i < 512" "present m t i"
    and F: "F \<inter> table_pages m h (Suc n) t = {}" "\<forall>p\<in>F. p AND 0xfff = 0"
    and cw: "changes_within (table_pages m h n (c i) \<union> F) m m'"
    and wf': "tree_wf m' h n (c i)"
    and sub: "table_pages m' h n (c i) \<subseteq> table_pages m h n (c i) \<union> F"
  shows "\<And>j. j < 512 \<Longrightarrow> load64 m' (entry_addr t j) = load64 m (entry_addr t j)"
    and "\<And>j. j < 512 \<Longrightarrow> j \<noteq> i \<Longrightarrow> present m t j \<Longrightarrow> agree_on (table_pages m h n (c j)) m m'"
    and "tree_wf m' h (Suc n) t"
    and "table_pages m' h (Suc n) t \<subseteq> table_pages m h (Suc n) t \<union> F"
    and "table_pages m' h (Suc n) t \<subseteq> table_pages m h (Suc n) t \<union> table_pages m' h n (c i)"
proof -
  let ?P = "table_pages m h n (c i) \<union> F"
  have al: "p AND 0xfff = 0" if "p \<in> table_pages m h (Suc n) t \<union> F" for p
    using that table_pages_aligned [OF wf] F(2) by blast
  have kid: "table_pages m h n (c j) \<subseteq> table_pages m h (Suc n) t" if "j < 512" "present m t j" for j
    unfolding c_def by (rule child_pages_subset [OF that])
  have tnot: "t \<notin> table_pages m h n (c j)" if "j < 512" "present m t j" for j
    using wf that by (auto simp: c_def)
  have sib: "table_pages m h n (c j) \<inter> table_pages m h n (c k) = {}"
    if "j < 512" "present m t j" "k < 512" "present m t k" "j \<noteq> k" for j k
    using wf that by (auto simp: c_def)
  have "agree_on {t} m m'"
  proof (rule changes_within_agree [OF cw])
    show "?P \<inter> {t} = {}" using tnot [OF i] F(1) root_in_pages by blast
    show "p AND 0xfff = 0" if "p \<in> ?P \<union> {t}" for p
      using that al kid [OF i] root_in_pages by blast
  qed
  thus load: "load64 m' (entry_addr t j) = load64 m (entry_addr t j)" if "j < 512" for j
    using agree_on_load [of "{t}" m m' t j] that by simp
  show ag: "agree_on (table_pages m h n (c j)) m m'" if j: "j < 512" "j \<noteq> i" "present m t j" for j
  proof (rule changes_within_agree [OF cw])
    show "?P \<inter> table_pages m h n (c j) = {}" using sib [OF i j(1,3)] j(2) F(1) kid [OF j(1,3)] by blast
    show "p AND 0xfff = 0" if "p \<in> ?P \<union> table_pages m h n (c j)" for p
      using that al kid [OF j(1,3)] kid [OF i] by blast
  qed
  have pages: "table_pages m' h n (c j) = table_pages m h n (c j)"
    if "j < 512" "j \<noteq> i" "present m t j" for j
    by (rule table_pages_cong [OF ag [OF that]])
  have sub': "table_pages m' h n (c j) \<subseteq> table_pages m h n (c j) \<union> F" if "j < 512" "present m t j" for j
    using sub pages [OF that(1) _ that(2)] by (cases "j = i") auto
  show "table_pages m' h (Suc n) t \<subseteq> table_pages m h (Suc n) t \<union> F"
    using sub' load by (fastforce simp: c_def)
  have "table_pages m' h n (c j) \<subseteq> table_pages m h n (c j) \<union> table_pages m' h n (c i)"
    if "j < 512" "present m t j" for j
    using pages [OF that(1) _ that(2)] by (cases "j = i") auto
  thus "table_pages m' h (Suc n) t \<subseteq> table_pages m h (Suc n) t \<union> table_pages m' h n (c i)"
    using load by (fastforce simp: c_def)
  have "tree_wf m' h n (c j)" if "j < 512" "present m t j" for j
    using wf' tree_wf_cong [OF ag [OF that(1) _ that(2)]] wf that by (cases "j = i") (auto simp: c_def)
  moreover have "t \<notin> table_pages m' h n (c j)" if "j < 512" "present m t j" for j
    using sub' [OF that] tnot [OF that] F(1) by auto
  moreover have "table_pages m' h n (c j) \<inter> table_pages m' h n (c k) = {}"
    if "j < 512" "present m t j" "k < 512" "present m t k" "j \<noteq> k" for j k
  proof (cases "j = i")
    case True
    thus ?thesis using pages [of k] sub sib [OF that] kid [OF that(3,4)] F(1) that by blast
  next
    case False
    thus ?thesis using pages [of j] sub' [of k] sib [OF that] kid [OF that(1,2)] F(1) that by blast
  qed
  ultimately show "tree_wf m' h (Suc n) t"
    using load wf by (simp add: c_def)
qed

section \<open>Creating a missing table\<close>

lemma and_1_iff: "x AND 1 \<noteq> (0 :: u64) \<longleftrightarrow> bit x 0"
  by (simp add: and_one_eq bit_0 odd_iff_mod_2_eq_one)

lemma and_not_fff:
  assumes "f AND 0xfff = (0 :: u64)" "p AND NOT 0xfff = 0"
  shows "(f OR p) AND NOT 0xfff = f"
proof (rule bit_word_eqI)
  fix k
  assume "k < LENGTH(64)"
  have "\<not> (bit f k \<and> bit (0xfff :: u64) k)" using assms(1) by (metis bit_and_iff bit_0_eq bot_apply bot_bool_def)
  moreover have "\<not> (bit p k \<and> bit (NOT 0xfff :: u64) k)" using assms(2) by (metis bit_and_iff bit_0_eq bot_apply bot_bool_def)
  ultimately show "bit ((f OR p) AND NOT 0xfff) k = bit f k"
    using \<open>k < LENGTH(64)\<close> by (auto simp: bit_simps)
qed

lemma aligned_add: "f AND 0xfff = 0 \<Longrightarrow> h AND 0xfff = 0 \<Longrightarrow> (f + h) AND 0xfff = (0 :: u64)"
proof -
  assume "f AND 0xfff = 0" "h AND 0xfff = 0"
  hence z: "unat f mod 4096 = 0" "unat h mod 4096 = 0" by (simp_all only: page_aligned_iff)
  have "unat (f + h) = (unat f + unat h) mod (4096 * 2 ^ 52)"
    by (subst unat_word_ariths(1)) simp
  hence "unat (f + h) mod 4096 = (unat f + unat h) mod 4096"
    by (simp only: mod_mod_cancel dvd_triv_left)
  also have "\<dots> = 0" using z by (metis add.right_neutral mod_add_left_eq mod_add_right_eq mod_0)
  finally show ?thesis by (simp only: page_aligned_iff)
qed

definition free_pages :: "'a pmm_scheme \<Rightarrow> u64 set" where
  "free_pages s = (\<lambda>f. f + hhdm_offset s) ` free_frames (memmap_arr s)"

definition map_ready :: "u64 \<Rightarrow> nat \<Rightarrow> u64 \<Rightarrow> 'a pmm_scheme \<Rightarrow> bool" where
  "map_ready h n t s \<longleftrightarrow> hhdm_offset s = h \<and> h AND 0xfff = 0 \<and> regions_wf (memmap_arr s) \<and>
     n \<le> card (free_frames (memmap_arr s)) \<and> tree_wf (kmem s) h n t \<and>
     table_pages (kmem s) h n t \<inter> free_pages s = {}"

definition same_walks :: "u64 \<Rightarrow> nat \<Rightarrow> u64 \<Rightarrow> mem \<Rightarrow> mem \<Rightarrow> u64 list set \<Rightarrow> bool" where
  "same_walks h n t m m' X \<longleftrightarrow>
     (\<forall>path. length path = Suc n \<longrightarrow> (\<forall>i\<in>set path. i < 512) \<longrightarrow> path \<notin> X \<longrightarrow>
        mmu_walk m' h t path = mmu_walk m h t path)"

lemma free_pages_aligned:
  "regions_wf (memmap_arr s) \<Longrightarrow> hhdm_offset s AND 0xfff = 0 \<Longrightarrow> p \<in> free_pages s \<Longrightarrow> p AND 0xfff = 0"
  using free_frame_in_region(2) aligned_add unfolding free_pages_def by blast

lemma alloc_table:
  assumes ready: "map_ready h (Suc n) t s" and i: "i < 512" "\<not> present (kmem s) t i"
    and perms: "perms AND 1 \<noteq> 0" "perms AND NOT 0xfff = 0"
    and al: "alloc_frame s = (f, s1)"
  defines "m1 \<equiv> store64 (entry_addr t i) (f OR perms) (kmem s1)"
  shows "f + h \<in> free_pages s" "free_pages s1 = free_pages s - {f + h}"
    and "card (free_frames (memmap_arr s1)) = card (free_frames (memmap_arr s)) - 1"
    and "regions_wf (memmap_arr s1)" "hhdm_offset s1 = h" "f \<noteq> 0"
    and "load64 m1 (entry_addr t i) = f OR perms" "entry_table h (f OR perms) = f + h"
    and "changes_within {t, f + h} (kmem s) m1"
    and "\<And>x. in_range (f + h) 4096 x \<Longrightarrow> m1 x = 0"
    and "\<And>j. j < 512 \<Longrightarrow> j \<noteq> i \<Longrightarrow> load64 m1 (entry_addr t j) = load64 (kmem s) (entry_addr t j)"
proof -
  have h: "hhdm_offset s = h" "h AND 0xfff = 0" and wf: "regions_wf (memmap_arr s)"
    and tw: "tree_wf (kmem s) h (Suc n) t" and dj: "table_pages (kmem s) h (Suc n) t \<inter> free_pages s = {}"
    and card: "Suc n \<le> card (free_frames (memmap_arr s))"
    using ready by (auto simp: map_ready_def)
  note sp = alloc_frame_spec [OF wf al]
  have "free_frames (memmap_arr s) \<noteq> {}" using card by auto
  thus f: "f \<noteq> 0" using sp by blast
  from sp f have sp': "f \<in> free_frames (memmap_arr s)" "f AND 0xfff = 0"
    "free_frames (memmap_arr s1) = free_frames (memmap_arr s) - {f}" "regions_wf (memmap_arr s1)"
    "hhdm_offset s1 = hhdm_offset s"
    "\<forall>x. kmem s1 x = (if in_range (f + hhdm_offset s) 4096 x then 0 else kmem s x)"
    by (simp_all only: simp_thms not_False_eq_True)
  note ff = sp'(1,2,3)
  have km: "kmem s1 x = (if in_range (f + h) 4096 x then 0 else kmem s x)" for x
    using sp'(6) h(1) by simp
  show "regions_wf (memmap_arr s1)" by (rule sp')
  show h1: "hhdm_offset s1 = h" using sp'(5) h(1) by simp
  show fp: "f + h \<in> free_pages s" unfolding free_pages_def h(1) using ff(1) by (rule imageI)
  show "free_pages s1 = free_pages s - {f + h}"
    unfolding free_pages_def h1 h(1) ff(3) by (subst image_set_diff) (simp_all add: inj_on_def)
  show "card (free_frames (memmap_arr s1)) = card (free_frames (memmap_arr s)) - 1"
    using ff finite_free_frames by simp
  show "entry_table h (f OR perms) = f + h"
    by (simp only: entry_table_def and_not_fff [OF ff(2) perms(2)])
  show "load64 m1 (entry_addr t i) = f OR perms" by (simp add: m1_def)
  have tal: "t AND 0xfff = 0" "(f + h) AND 0xfff = 0" "t \<noteq> f + h"
    using tw aligned_add [OF ff(2) h(2)] dj fp root_in_pages by auto
  show "changes_within {t, f + h} (kmem s) m1"
    by (simp add: changes_within_def m1_def store64_outside_page [OF i(1)] km)
  have nt: "\<not> in_range t 4096 x" if "in_range (f + h) 4096 x" for x
    using pages_disjoint [OF tal(2,1) _ that] tal(3) by auto
  show "m1 x = 0" if "in_range (f + h) 4096 x" for x
    using that nt [OF that] by (simp add: m1_def store64_outside_page [OF i(1)] km)
  show "load64 m1 (entry_addr t j) = load64 (kmem s) (entry_addr t j)" if "j < 512" "j \<noteq> i" for j
  proof -
    have "load64 (kmem s1) (entry_addr t j) = load64 (kmem s) (entry_addr t j)"
      using nt by (intro load64_page_cong [OF that(1)]) (auto simp: km)
    thus ?thesis using load64_store64_entry [OF i(1) that(1)] that(2) by (simp add: m1_def)
  qed
qed

lemma alloc_table_siblings:
  assumes ready: "map_ready h (Suc n) t s" and i: "i < 512" "\<not> present (kmem s) t i"
    and perms: "perms AND 1 \<noteq> 0" "perms AND NOT 0xfff = 0"
    and al: "alloc_frame s = (f, s1)" and j: "j < 512" "present (kmem s) t j"
  shows "agree_on (table_pages (kmem s) h n (child (kmem s) h t j)) (kmem s)
           (store64 (entry_addr t i) (f OR perms) (kmem s1))"
proof -
  let ?m = "kmem s"
  have base: "hhdm_offset s = h" "h AND 0xfff = 0" "regions_wf (memmap_arr s)"
    "tree_wf ?m h (Suc n) t" "table_pages ?m h (Suc n) t \<inter> free_pages s = {}"
    using ready by (simp_all add: map_ready_def)
  note at = alloc_table [OF ready i perms al]
  have sub: "table_pages ?m h n (child ?m h t j) \<subseteq> table_pages ?m h (Suc n) t"
    by (rule child_pages_subset [OF j])
  show ?thesis
  proof (rule changes_within_agree [OF at(9)])
    have "t \<notin> table_pages ?m h n (child ?m h t j)" using base(4) j by simp
    thus "{t, f + h} \<inter> table_pages ?m h n (child ?m h t j) = {}" using sub base(5) at(1) by blast
    show "p AND 0xfff = 0" if "p \<in> {t, f + h} \<union> table_pages ?m h n (child ?m h t j)" for p
      using that sub table_pages_aligned [OF base(4)] root_in_pages
        free_pages_aligned [OF base(3) _ at(1)] base(1,2) by blast
  qed
qed

lemma alloc_table_tree:
  assumes ready: "map_ready h (Suc n) t s" and i: "i < 512" "\<not> present (kmem s) t i"
    and perms: "perms AND 1 \<noteq> 0" "perms AND NOT 0xfff = 0"
    and al: "alloc_frame s = (f, s1)"
  defines "m1 \<equiv> store64 (entry_addr t i) (f OR perms) (kmem s1)"
  shows "present m1 t i"
    and "table_pages m1 h (Suc n) t = insert (f + h) (table_pages (kmem s) h (Suc n) t)"
    and "tree_wf m1 h (Suc n) t" "same_walks h (Suc n) t (kmem s) m1 {}"
proof -
  let ?m = "kmem s"
  have tw: "tree_wf ?m h (Suc n) t" and dj: "table_pages ?m h (Suc n) t \<inter> free_pages s = {}"
    and hh: "hhdm_offset s = h" "h AND 0xfff = 0" "regions_wf (memmap_arr s)"
    using ready by (simp_all add: map_ready_def)
  note at = alloc_table [OF ready i perms al, folded m1_def]
    and ag = alloc_table_siblings [OF ready i perms al, folded m1_def]
  have fal: "(f + h) AND 0xfff = 0" using free_pages_aligned [OF hh(3) _ at(1)] hh by simp
  have zero: "table_pages m1 h n (f + h) = {f + h}" "tree_wf m1 h n (f + h)"
    "path \<noteq> [] \<Longrightarrow> \<forall>i\<in>set path. i < 512 \<Longrightarrow> mmu_walk m1 h (f + h) path = None" for path
    using zero_page_tree [of "f + h" m1] at(10) fal by blast+
  have kid: "child m1 h t i = f + h" using at(7,8) by simp
  show pi: "present m1 t i" using at(7) perms(1) by (simp add: and_1_iff bit_simps)
  have load: "load64 m1 (entry_addr t j) = load64 ?m (entry_addr t j)" if "j < 512" "j \<noteq> i" for j
    using at(11) that by blast
  have pres: "present m1 t j \<longleftrightarrow> j = i \<or> present ?m t j" if "j < 512" for j
    using pi load [OF that] by (cases "j = i") auto
  hence idx: "{j. j < 512 \<and> present m1 t j} = insert i {j. j < 512 \<and> present ?m t j}"
    using i(1) by blast
  have old: "j \<noteq> i" "child m1 h t j = child ?m h t j"
      "table_pages m1 h n (child ?m h t j) = table_pages ?m h n (child ?m h t j)"
      "tree_wf m1 h n (child ?m h t j)" "f + h \<notin> table_pages ?m h n (child ?m h t j)"
    if j: "j < 512" "present ?m t j" for j
  proof -
    show "j \<noteq> i" using i(2) j(2) by auto
    thus "child m1 h t j = child ?m h t j" by (simp add: load j(1))
    show "table_pages m1 h n (child ?m h t j) = table_pages ?m h n (child ?m h t j)"
      "tree_wf m1 h n (child ?m h t j)"
      using table_pages_cong [OF ag [OF j]] tree_wf_cong [OF ag [OF j]] tw j by simp_all
    show "f + h \<notin> table_pages ?m h n (child ?m h t j)"
      using child_pages_subset [OF j] dj at(1) by blast
  qed
  show "table_pages m1 h (Suc n) t = insert (f + h) (table_pages ?m h (Suc n) t)"
    unfolding table_pages.simps idx UN_insert kid using old by (auto simp: zero(1))
  have tne: "t \<noteq> f + h" using dj at(1) root_in_pages [of t ?m h "Suc n"] by blast
  have pgs: "table_pages m1 h n (child m1 h t j) =
      (if j = i then {f + h} else table_pages ?m h n (child ?m h t j))"
    if "j < 512" "present m1 t j" for j
    using that pres old [of j] kid zero(1) by auto
  have "tree_wf m1 h n (child m1 h t j) \<and> t \<notin> table_pages m1 h n (child m1 h t j)"
    if "j < 512" "present m1 t j" for j
    using pgs [OF that] that pres [of j] old [of j] kid zero(2) tne tw by (cases "j = i") auto
  moreover have "table_pages m1 h n (child m1 h t j) \<inter> table_pages m1 h n (child m1 h t k) = {}"
    if "j < 512" "present m1 t j" "k < 512" "present m1 t k" "j \<noteq> k" for j k
    using pgs [OF that(1,2)] pgs [OF that(3,4)] that pres [of j] pres [of k] old(5) [of j] old(5) [of k] tw
    by (cases "j = i"; cases "k = i") auto
  ultimately show "tree_wf m1 h (Suc n) t" using tw by simp
  show "same_walks h (Suc n) t ?m m1 {}"
    unfolding same_walks_def
  proof (intro allI impI)
    fix path :: "u64 list"
    assume "length path = Suc (Suc n)" and ok: "\<forall>j\<in>set path. j < 512"
    then obtain j rest where p: "path = j # rest" "length rest = Suc n" "j < 512" "rest \<noteq> []"
      by (cases path) force+
    show "mmu_walk m1 h t path = mmu_walk ?m h t path"
    proof (cases "j = i")
      case True
      thus ?thesis using pi i(2) kid zero(3) [OF p(4)] ok p by (simp add: Let_def)
    next
      case False
      thus ?thesis
        using mmu_walk_cong [OF ag [OF p(3)] p(2)] load [OF p(3) False] ok p by (simp add: Let_def)
    qed
  qed
qed

lemma entry_or_alloc_spec:
  assumes ready: "map_ready h (Suc n) t s" and i: "i < 512"
    and perms: "perms AND 1 \<noteq> 0" "perms AND NOT 0xfff = 0"
    and ea: "entry_or_alloc t i perms s = (e, s1)"
  shows "e = load64 (kmem s1) (entry_addr t i) \<and> present (kmem s1) t i \<and> hhdm_offset s1 = h \<and>
    regions_wf (memmap_arr s1) \<and> n \<le> card (free_frames (memmap_arr s1)) \<and>
    tree_wf (kmem s1) h (Suc n) t \<and>
    table_pages (kmem s1) h (Suc n) t \<subseteq> table_pages (kmem s) h (Suc n) t \<union> free_pages s \<and>
    table_pages (kmem s1) h (Suc n) t \<inter> free_pages s1 = {} \<and> free_pages s1 \<subseteq> free_pages s \<and>
    changes_within (table_pages (kmem s) h (Suc n) t \<union> free_pages s) (kmem s) (kmem s1) \<and>
    same_walks h (Suc n) t (kmem s) (kmem s1) {}"
proof (cases "present (kmem s) t i")
  case True
  hence "e = load64 (kmem s) (entry_addr t i)" "s1 = s"
    using ea by (auto simp: entry_or_alloc_def Let_def)
  thus ?thesis
    using True ready
    by (simp add: map_ready_def changes_within_def same_walks_def del: table_pages.simps tree_wf.simps)
next
  case False
  obtain f sA where al: "alloc_frame s = (f, sA)" by fastforce
  define m1 where "m1 = store64 (entry_addr t i) (f OR perms) (kmem sA)"
  have e: "e = f OR perms" and s1: "s1 = sA\<lparr>kmem := m1\<rparr>"
    using ea False al by (auto simp: entry_or_alloc_def Let_def m1_def)
  note at = alloc_table [OF ready i False perms al, folded m1_def]
    and tr = alloc_table_tree [OF ready i False perms al, folded m1_def]
  have base: "Suc n \<le> card (free_frames (memmap_arr s))"
    "table_pages (kmem s) h (Suc n) t \<inter> free_pages s = {}"
    using ready by (simp_all add: map_ready_def)
  have fp: "free_pages s1 = free_pages s - {f + h}" using at(2) by (simp add: s1 free_pages_def)
  have "changes_within (table_pages (kmem s) h (Suc n) t \<union> free_pages s) (kmem s) m1"
    using at(1,9) root_in_pages [of t "kmem s" h "Suc n"]
    unfolding changes_within_def by blast
  moreover have "n \<le> card (free_frames (memmap_arr sA))" using at(3) base(1) by linarith
  moreover have "insert (f + h) (table_pages (kmem s) h (Suc n) t) \<subseteq>
      table_pages (kmem s) h (Suc n) t \<union> free_pages s"
    "insert (f + h) (table_pages (kmem s) h (Suc n) t) \<inter> (free_pages s - {f + h}) = {}"
    "free_pages s - {f + h} \<subseteq> free_pages s"
    using at(1) base(2) by blast+
  ultimately show ?thesis
    using tr at(4,5,7) unfolding fp e
    by (simp add: s1 del: table_pages.simps tree_wf.simps)
qed

section \<open>Mapping one path of the tree\<close>

definition map_done ::
  "u64 \<Rightarrow> nat \<Rightarrow> u64 \<Rightarrow> u64 list \<Rightarrow> u64 \<Rightarrow> 'a pmm_scheme \<Rightarrow> 'a pmm_scheme \<Rightarrow> bool" where
  "map_done h n t path leaf s s' \<longleftrightarrow> hhdm_offset s' = h \<and> regions_wf (memmap_arr s') \<and>
     tree_wf (kmem s') h n t \<and>
     table_pages (kmem s') h n t \<subseteq> table_pages (kmem s) h n t \<union> free_pages s \<and>
     table_pages (kmem s') h n t \<inter> free_pages s' = {} \<and> free_pages s' \<subseteq> free_pages s \<and>
     changes_within (table_pages (kmem s) h n t \<union> free_pages s) (kmem s) (kmem s') \<and>
     mmu_walk (kmem s') h t path = (if leaf AND 1 = 0 then None else Some leaf) \<and>
     same_walks h n t (kmem s) (kmem s') {path}"

lemma map_leaf_done:
  assumes ready: "map_ready h 0 t s" and i: "i < 512"
  shows "map_done h 0 t [i] leaf s (s\<lparr>kmem := store64 (entry_addr t i) leaf (kmem s)\<rparr>)"
proof -
  have "changes_within {t} (kmem s) (store64 (entry_addr t i) leaf (kmem s))"
    by (simp add: changes_within_def store64_outside_page [OF i])
  moreover have "same_walks h 0 t (kmem s) (store64 (entry_addr t i) leaf (kmem s)) {[i]}"
    unfolding same_walks_def
  proof (intro allI impI)
    fix path :: "u64 list"
    assume p: "length path = Suc 0" "\<forall>j\<in>set path. j < 512" "path \<notin> {[i]}"
    then obtain j where "path = [j]" "j < 512" "j \<noteq> i" by (auto simp: length_Suc_conv)
    thus "mmu_walk (store64 (entry_addr t i) leaf (kmem s)) h t path = mmu_walk (kmem s) h t path"
      using load64_store64_entry [OF i, of j] by (simp add: Let_def)
  qed
  ultimately show ?thesis
    using ready by (auto simp: map_done_def map_ready_def free_pages_def changes_within_def Let_def)
qed

lemma map_step_done:
  assumes s1: "hhdm_offset s1 = h" "h AND 0xfff = 0" "regions_wf (memmap_arr s1)"
    "tree_wf (kmem s1) h (Suc n) t" "table_pages (kmem s1) h (Suc n) t \<inter> free_pages s1 = {}"
    and i: "i < 512" "present (kmem s1) t i" and rest: "length rest = Suc n"
    and don: "map_done h n (child (kmem s1) h t i) rest leaf s1 s2"
  shows "map_done h (Suc n) t (i # rest) leaf s1 s2"
proof -
  let ?c = "child (kmem s1) h t i"
  have d: "hhdm_offset s2 = h" "regions_wf (memmap_arr s2)" "tree_wf (kmem s2) h n ?c"
    "table_pages (kmem s2) h n ?c \<subseteq> table_pages (kmem s1) h n ?c \<union> free_pages s1"
    "table_pages (kmem s2) h n ?c \<inter> free_pages s2 = {}" "free_pages s2 \<subseteq> free_pages s1"
    "changes_within (table_pages (kmem s1) h n ?c \<union> free_pages s1) (kmem s1) (kmem s2)"
    "mmu_walk (kmem s2) h ?c rest = (if leaf AND 1 = 0 then None else Some leaf)"
    "same_walks h n ?c (kmem s1) (kmem s2) {rest}"
    using don by (simp_all only: map_done_def)
  have al: "\<forall>p\<in>free_pages s1. p AND 0xfff = 0"
    using free_pages_aligned [OF s1(3)] s1(1,2) by blast
  have dj: "free_pages s1 \<inter> table_pages (kmem s1) h (Suc n) t = {}" using s1(5) by blast
  note st = tree_child_step [OF s1(4) i dj al d(7,3,4)]
  have "table_pages (kmem s2) h (Suc n) t \<inter> free_pages s2 = {}"
    using st(5) d(5,6) dj by blast
  moreover have "same_walks h (Suc n) t (kmem s1) (kmem s2) {i # rest}"
    unfolding same_walks_def
  proof (intro allI impI)
    fix path :: "u64 list"
    assume p: "length path = Suc (Suc n)" "\<forall>j\<in>set path. j < 512" "path \<notin> {i # rest}"
    then obtain j r where jr: "path = j # r" "length r = Suc n" "j < 512" "r \<noteq> []" by (cases path) force+
    show "mmu_walk (kmem s2) h t path = mmu_walk (kmem s1) h t path"
    proof (cases "j = i")
      case True
      hence "mmu_walk (kmem s2) h ?c r = mmu_walk (kmem s1) h ?c r"
        using d(9) p jr by (auto simp: same_walks_def)
      thus ?thesis using True st(1) [OF i(1)] i(2) jr by (simp add: Let_def)
    next
      case False
      thus ?thesis
        using mmu_walk_cong [OF st(2) [OF jr(3) False] jr(2)] st(1) [OF jr(3)] p(2) jr
        by (simp add: Let_def)
    qed
  qed
  moreover have "changes_within (table_pages (kmem s1) h (Suc n) t \<union> free_pages s1) (kmem s1) (kmem s2)"
    using d(7) child_pages_subset [OF i, of h n] unfolding changes_within_def by blast
  moreover have "mmu_walk (kmem s2) h t (i # rest) = (if leaf AND 1 = 0 then None else Some leaf)"
    using st(1) [OF i(1)] i(2) d(8) rest by (auto simp: Let_def)
  ultimately show ?thesis
    using d st(3,4) by (simp only: map_done_def)
qed

lemma map_done_extend:
  assumes "table_pages (kmem s1) h n t \<subseteq> table_pages (kmem s) h n t \<union> free_pages s"
    and "free_pages s1 \<subseteq> free_pages s"
    and "changes_within (table_pages (kmem s) h n t \<union> free_pages s) (kmem s) (kmem s1)"
    and "same_walks h n t (kmem s) (kmem s1) {}" and "map_done h n t path leaf s1 s2"
  shows "map_done h n t path leaf s s2"
proof -
  have "changes_within (table_pages (kmem s) h n t \<union> free_pages s) (kmem s) (kmem s2)"
  proof (rule changes_within_trans [OF assms(3)])
    show "changes_within (table_pages (kmem s1) h n t \<union> free_pages s1) (kmem s1) (kmem s2)"
      using assms(5) by (simp add: map_done_def)
  qed (use assms(1,2) in auto)
  moreover have "same_walks h n t (kmem s) (kmem s2) {path}"
    using assms(4,5) by (simp add: map_done_def same_walks_def)
  ultimately show ?thesis using assms(1,2,5) unfolding map_done_def by blast
qed

lemma map_path_done:
  assumes "length path = Suc n" "\<forall>i\<in>set path. i < 512" "map_ready h n t s"
    and perms: "perms AND 1 \<noteq> 0" "perms AND NOT 0xfff = 0"
  shows "map_done h n t path leaf s (map_path t path leaf perms s)"
  using assms(1-3)
proof (induction n arbitrary: t path s)
  case 0
  then obtain i where "path = [i]" "i < 512" by (auto simp: length_Suc_conv)
  thus ?case using map_leaf_done [OF 0(3)] by simp
next
  case (Suc n)
  then obtain i rest where p: "path = i # rest" "length rest = Suc n" "i < 512" "rest \<noteq> []"
    by (cases path) force+
  obtain e s1 where ea: "entry_or_alloc t i perms s = (e, s1)" by fastforce
  have sp: "e = load64 (kmem s1) (entry_addr t i)" "present (kmem s1) t i" "hhdm_offset s1 = h"
    "regions_wf (memmap_arr s1)" "n \<le> card (free_frames (memmap_arr s1))"
    "tree_wf (kmem s1) h (Suc n) t"
    "table_pages (kmem s1) h (Suc n) t \<subseteq> table_pages (kmem s) h (Suc n) t \<union> free_pages s"
    "table_pages (kmem s1) h (Suc n) t \<inter> free_pages s1 = {}" "free_pages s1 \<subseteq> free_pages s"
    "changes_within (table_pages (kmem s) h (Suc n) t \<union> free_pages s) (kmem s) (kmem s1)"
    "same_walks h (Suc n) t (kmem s) (kmem s1) {}"
    using entry_or_alloc_spec [OF Suc.prems(3) p(3) perms ea] by (simp_all only: simp_thms)
  have h: "h AND 0xfff = 0" using Suc.prems(3) by (simp add: map_ready_def)
  let ?c = "child (kmem s1) h t i"
  have "tree_wf (kmem s1) h n ?c" using sp(2,6) p(3) by simp
  moreover have "table_pages (kmem s1) h n ?c \<inter> free_pages s1 = {}"
    using child_pages_subset [OF p(3) sp(2), of h n] sp(8) by blast
  ultimately have "map_ready h n ?c s1" using sp(3,4,5) h by (simp add: map_ready_def)
  hence "map_done h n ?c rest leaf s1 (map_path ?c rest leaf perms s1)"
    using Suc.IH p Suc.prems(2) by simp
  from map_step_done [OF sp(3) h sp(4,6,8) p(3) sp(2) p(2) this]
  have "map_done h (Suc n) t path leaf s1 (map_path ?c rest leaf perms s1)" by (simp only: p(1))
  moreover have "map_path t path leaf perms s = map_path ?c rest leaf perms s1"
    using p ea sp(1,3) by simp
  ultimately show ?case using map_done_extend [OF sp(7,9,10,11)] by simp
qed

lemma map_page_tables_path:
  "map_page_tables pml4 phys virt perms s =
     map_path pml4 (page_path virt) (phys OR perms) perms s"
  by (simp add: map_page_tables_def page_path_def Let_def split: prod.split)

lemma index_bound:
  "pml4_index v < 512" "pdpt_index v < 512" "pd_index v < 512" "pt_index v < 512"
proof -
  have "x AND 0x1FF < (512 :: u64)" for x
    by (rule le_less_trans [OF word_and_le1]) simp
  thus "pml4_index v < 512" "pdpt_index v < 512" "pd_index v < 512" "pt_index v < 512"
    by (simp_all add: pml4_index_def pdpt_index_def pd_index_def pt_index_def)
qed

lemma page_path_ok: "length (page_path v) = 4" "\<forall>i\<in>set (page_path v). i < 512"
  by (simp_all add: page_path_def index_bound)

section \<open>Removing a leaf\<close>

fun leaf_table :: "mem \<Rightarrow> u64 \<Rightarrow> u64 \<Rightarrow> u64 list \<Rightarrow> u64" where
  "leaf_table m h t [] = t"
| "leaf_table m h t (i # path) = (if path = [] then t else leaf_table m h (child m h t i) path)"

lemma walk_pt_leaf_table:
  "walk_pt s pml4 v = leaf_table (kmem s) (hhdm_offset s) pml4 (page_path v)"
  by (simp add: walk_pt_def page_path_def table_entry_def Let_def)

lemma mmu_walk_leaf_table:
  "mmu_walk m h t path = Some e \<Longrightarrow> load64 m (entry_addr (leaf_table m h t path) (last path)) = e"
  by (induction path arbitrary: t) (auto simp: Let_def split: if_splits)

lemma leaf_update_done:
  assumes "length path = Suc n" "\<forall>i\<in>set path. i < 512"
    and "hhdm_offset s = h" "h AND 0xfff = 0" "regions_wf (memmap_arr s)" "tree_wf (kmem s) h n t"
    "table_pages (kmem s) h n t \<inter> free_pages s = {}" "mmu_walk (kmem s) h t path \<noteq> None"
  shows "map_done h n t path leaf s
    (s\<lparr>kmem := store64 (entry_addr (leaf_table (kmem s) h t path) (last path)) leaf (kmem s)\<rparr>)"
  using assms(1,2,6-8)
proof (induction n arbitrary: t path)
  case 0
  then obtain i where "path = [i]" "i < 512" by (auto simp: length_Suc_conv)
  moreover have "map_ready h 0 t s" using 0 assms(3-5) by (simp add: map_ready_def)
  ultimately show ?case using map_leaf_done by simp
next
  case (Suc n)
  then obtain i rest where p: "path = i # rest" "length rest = Suc n" "i < 512" "rest \<noteq> []"
    by (cases path) force+
  have pi: "present (kmem s) t i" using Suc.prems(5) p by (auto simp: Let_def split: if_splits)
  let ?c = "child (kmem s) h t i"
  have "tree_wf (kmem s) h n ?c" using Suc.prems(3) p(3) pi by simp
  moreover have "table_pages (kmem s) h n ?c \<inter> free_pages s = {}"
    using child_pages_subset [OF p(3) pi, of h n] Suc.prems(4) by blast
  moreover have "mmu_walk (kmem s) h ?c rest \<noteq> None" using Suc.prems(5) pi p by (simp add: Let_def)
  ultimately have "map_done h n ?c rest leaf s
      (s\<lparr>kmem := store64 (entry_addr (leaf_table (kmem s) h ?c rest) (last rest)) leaf (kmem s)\<rparr>)"
    using Suc.IH p Suc.prems(2) by simp
  from map_step_done [OF assms(3-5) Suc.prems(3,4) p(3) pi p(2) this] show ?case
    using p by simp
qed

section \<open>What the table walk leaves alone\<close>

definition frames_only :: "'a pmm_scheme \<Rightarrow> 'a pmm_scheme \<Rightarrow> bool" where
  "frames_only s s' \<longleftrightarrow>
     (\<exists>rs l m. s' = s\<lparr>memmap_arr := rs, last_alloced_frame := l, kmem := m\<rparr>)"

lemma frames_only_refl [simp]: "frames_only s s"
  unfolding frames_only_def
  by (rule exI [of _ "memmap_arr s"], rule exI [of _ "last_alloced_frame s"], rule exI [of _ "kmem s"])
    (cases s; simp)

lemma frames_only_trans: "frames_only s s1 \<Longrightarrow> frames_only s1 s2 \<Longrightarrow> frames_only s s2"
  unfolding frames_only_def by (cases s) auto

lemma frames_only_kmem [simp]: "frames_only s (s1\<lparr>kmem := m\<rparr>) \<longleftrightarrow> frames_only s s1"
  unfolding frames_only_def
proof
  assume "\<exists>rs l k. s1\<lparr>kmem := m\<rparr> = s\<lparr>memmap_arr := rs, last_alloced_frame := l, kmem := k\<rparr>"
  then obtain rs l k where "s1\<lparr>kmem := m\<rparr> = s\<lparr>memmap_arr := rs, last_alloced_frame := l, kmem := k\<rparr>"
    by blast
  hence "s1 = s\<lparr>memmap_arr := rs, last_alloced_frame := l, kmem := kmem s1\<rparr>"
    by (cases s; cases s1) auto
  thus "\<exists>rs l k. s1 = s\<lparr>memmap_arr := rs, last_alloced_frame := l, kmem := k\<rparr>" by blast
qed force

lemma alloc_frame_frames_only: "frames_only s (snd (alloc_frame s))"
  unfolding alloc_frame_def
  by (cases "alloc_walk (memmap_arr s)") (simp, force simp: frames_only_def)

lemma entry_or_alloc_frames_only: "frames_only s (snd (entry_or_alloc t i perms s))"
  using alloc_frame_frames_only [of s]
  by (auto simp: entry_or_alloc_def Let_def split: prod.split)

lemma map_path_frames_only: "frames_only s (map_path t path leaf perms s)"
proof (induction path arbitrary: t s)
  case (Cons i path)
  have "frames_only s (snd (entry_or_alloc t i perms s))" by (rule entry_or_alloc_frames_only)
  thus ?case using Cons.IH by (auto split: prod.split intro: frames_only_trans)
qed simp

lemma frames_only_kernel:
  fixes s s' :: "'a kernel_scheme"
  assumes "frames_only s s'"
  shows "irq_enabled s' = irq_enabled s" "hhdm_offset s' = hhdm_offset s" "heap_pages s' = heap_pages s"
    "scheduling_started s' = scheduling_started s" "threads s' = threads s"
    "running_thread s' = running_thread s"
  using assms by (auto simp: frames_only_def)

lemma map_done_facts:
  assumes "map_done h n t path leaf s s'"
  shows "tree_wf (kmem s') h n t" "table_pages (kmem s') h n t \<inter> free_pages s' = {}"
    "mmu_walk (kmem s') h t path = (if leaf AND 1 = 0 then None else Some leaf)"
    "same_walks h n t (kmem s) (kmem s') {path}"
  using assms by (simp_all only: map_done_def)

lemma same_walks_page:
  "same_walks h 3 t m m' {page_path virt} \<Longrightarrow> page_path v \<noteq> page_path virt \<Longrightarrow>
   mmu_walk m' h t (page_path v) = mmu_walk m h t (page_path v)"
  using page_path_ok [of v] by (simp add: same_walks_def)

section \<open>The mapping array of a thread\<close>

definition mappings_ok :: "thread_mappings \<Rightarrow> bool" where
  "mappings_ok mp \<longleftrightarrow> length (mapped_virt_addresses_array mp) = unat (max_mappings mp) \<and>
     unat (num_mappings mp) = length (filter mv_used (mapped_virt_addresses_array mp)) \<and>
     (\<forall>e\<in>set (mapped_virt_addresses_array mp). \<not> mv_used e \<longrightarrow> mv_virt_address e = 0)"

lemma unused_slot:
  assumes "mappings_ok mp" "unat (num_mappings mp) < unat (max_mappings mp)"
  obtains i where "find (\<lambda>i. \<not> mv_used (mapped_virt_addresses_array mp ! i))
      [0..<unat (max_mappings mp)] = Some i" "i < length (mapped_virt_addresses_array mp)"
    "\<not> mv_used (mapped_virt_addresses_array mp ! i)"
proof -
  let ?arr = "mapped_virt_addresses_array mp"
  have "\<exists>i<length ?arr. \<not> mv_used (?arr ! i)"
  proof (rule ccontr)
    assume "\<not> ?thesis"
    hence "filter mv_used ?arr = ?arr" by (simp add: filter_id_conv all_set_conv_all_nth)
    thus False using assms by (simp add: mappings_ok_def)
  qed
  hence "find (\<lambda>i. \<not> mv_used (?arr ! i)) [0..<unat (max_mappings mp)] \<noteq> None"
    using assms(1) by (auto simp: find_upt_None_iff mappings_ok_def)
  then obtain i where i: "find (\<lambda>i. \<not> mv_used (?arr ! i)) [0..<unat (max_mappings mp)] = Some i"
    by blast
  thus ?thesis using that [OF i] assms(1) by (auto simp: find_upt_Some_iff mappings_ok_def)
qed

definition add_mapping :: "u64 \<Rightarrow> nat \<Rightarrow> thread_mappings \<Rightarrow> thread_mappings" where
  "add_mapping v i mp =
     (let arr = mapped_virt_addresses_array mp in
      mp\<lparr>mapped_virt_addresses_array := arr[i := (arr ! i)\<lparr>mv_virt_address := v, mv_used := True\<rparr>],
         num_mappings := num_mappings mp + 1\<rparr>)"

lemma mappings_ok_add:
  assumes ok: "mappings_ok mp" and i: "i < length (mapped_virt_addresses_array mp)"
    "\<not> mv_used (mapped_virt_addresses_array mp ! i)"
    and room: "unat (num_mappings mp) < unat (max_mappings mp)"
  shows "mappings_ok (add_mapping v i mp)"
proof -
  have "unat (num_mappings mp + 1) = unat (num_mappings mp) + 1" by (rule unat_succ [OF room])
  thus ?thesis
    using ok i length_filter_update [OF i(1), of mv_used] set_update_subset_insert
    by (fastforce simp: mappings_ok_def add_mapping_def Let_def)
qed

lemma record_mapping_spec:
  assumes t: "threads s (running_thread s) = Some t" and ok: "mappings_ok (mappings t)"
    and room: "unat (num_mappings (mappings t)) + 1 < unat (max_mappings (mappings t))"
  obtains i where "i < length (mapped_virt_addresses_array (mappings t))"
    "mappings_ok (add_mapping v i (mappings t))"
    "record_mapping v s = Some (of_nat i, s\<lparr>threads := (threads s)(running_thread s \<mapsto>
       t\<lparr>mappings := add_mapping v i (mappings t)\<rparr>)\<rparr>)"
proof -
  let ?mp = "mappings t"
  obtain i where i: "find (\<lambda>i. \<not> mv_used (mapped_virt_addresses_array ?mp ! i))
      [0..<unat (max_mappings ?mp)] = Some i" "i < length (mapped_virt_addresses_array ?mp)"
      "\<not> mv_used (mapped_virt_addresses_array ?mp ! i)"
    using unused_slot [OF ok] room by (metis add_lessD1)
  have "unat (num_mappings ?mp + 1) = unat (num_mappings ?mp) + 1"
    by (rule unat_succ [OF add_lessD1 [OF room]])
  hence "num_mappings ?mp + 1 \<noteq> max_mappings ?mp" using room by (metis less_irrefl)
  hence "record_mapping v s = Some (of_nat i, s\<lparr>threads := (threads s)(running_thread s \<mapsto>
       t\<lparr>mappings := add_mapping v i ?mp\<rparr>)\<rparr>)"
    using t ok i
    by (simp add: record_mapping_def get_current_thread_def Let_def mappings_ok_def add_mapping_def
        grow_mappings_def)
  thus ?thesis using that [OF i(2)] mappings_ok_add [OF ok i(2,3)] room by simp
qed

section \<open>Properties\<close>

text \<open>C1: \<open>map_page\<close> before scheduling starts maps exactly one page.  On a well-formed tree of page
  tables that uses no free frame, with at least three free frames, and for permissions that are
  present and fit the low 12 bits, it returns with interrupts as they were; the hardware walk of
  the address then ends in the entry \<open>phys | permissions\<close>, the walk of every other page is
  unchanged, and the tree is still well formed and disjoint from the free frames.\<close>
theorem map_page_maps_one_page:
  assumes ready: "map_ready h 3 pml4 s" and sched: "\<not> scheduling_started s"
    and perms: "perms AND 1 \<noteq> 0" "perms AND NOT 0xfff = 0"
  shows "\<exists>s'. map_page pml4 phys virt perms s = Some (UINT64_MAX, s') \<and>
     irq_enabled s' = irq_enabled s \<and>
     mmu_walk (kmem s') h pml4 (page_path virt) = Some (phys OR perms) \<and>
     (\<forall>v. page_path v \<noteq> page_path virt \<longrightarrow>
        mmu_walk (kmem s') h pml4 (page_path v) = mmu_walk (kmem s) h pml4 (page_path v)) \<and>
     tree_wf (kmem s') h 3 pml4 \<and> table_pages (kmem s') h 3 pml4 \<inter> free_pages s' = {}"
proof -
  let ?s = "s\<lparr>irq_enabled := False\<rparr>"
  let ?s2 = "map_page_tables pml4 phys virt perms ?s"
  have "map_ready h 3 pml4 ?s" using ready by (auto simp: map_ready_def free_pages_def)
  hence "map_done h 3 pml4 (page_path virt) (phys OR perms) ?s ?s2"
    unfolding map_page_tables_path using page_path_ok perms by (intro map_path_done) auto
  note d = map_done_facts [OF this]
  have fr: "frames_only ?s ?s2" unfolding map_page_tables_path by (rule map_path_frames_only)
  have "(phys OR perms) AND 1 \<noteq> 0" using perms(1) by (simp add: and_1_iff bit_simps)
  moreover have "map_page pml4 phys virt perms s =
      Some (UINT64_MAX, irq_restore (Some (irq_enabled s)) ?s2)"
    using sched frames_only_kernel(4) [OF fr] by (simp add: map_page_def Let_def)
  ultimately show ?thesis
    using d frames_only_kernel(1) [OF fr] same_walks_page [OF d(4)] by (auto simp: free_pages_def)
qed

definition sample_kernel :: kernel where
  "sample_kernel = \<lparr>irq_enabled = True, kmem = (\<lambda>_. 0), heap_pages = [],
     memmap_arr = [init_region \<lparr>me_base = 0x1000, me_length = 0x4000, me_type = 0\<rparr>],
     memmap_bitmap = 0, usable_memmaps_amount = 1, starting_address = 0x1000,
     last_alloced_frame = 0, hhdm_offset = 0xffff800000000000,
     pml4_address_virt_glob = 0xffff800000010000, cr3_global = 0x10000, cr3_register = 0x10000,
     rsp_register = 0, rip_register = 0, gp_registers = [], fpu_registers = [], tss_rsp0 = 0, threads = (\<lambda>_. None),
     fd_tables = (\<lambda>_. None), running_thread = 0, num_threads = 0, scheduling_started = False, first_thread = True,
     sched_first = False, new_pid = 0\<rparr>"

definition sample_running :: kernel where
  "sample_running = sample_kernel\<lparr>threads := [0x5000 \<mapsto> sample_thread], running_thread := 0x5000,
     scheduling_started := True\<rparr>"

lemma sample_kernel_frames:
  "regions_wf (memmap_arr sample_kernel)"
  "{0x1000, 0x2000, 0x3000} \<subseteq> free_frames (memmap_arr sample_kernel)"
  "a \<in> free_frames (memmap_arr sample_kernel) \<Longrightarrow> unat a < 0x5000"
proof -
  let ?rs = "memmap_arr sample_kernel"
  show wf: "regions_wf ?rs" by (simp add: regions_wf_def sample_kernel_def init_region_def)
  have "frame_free ?rs 0 0" "frame_free ?rs 0 1" "frame_free ?rs 0 2" by code_simp+
  moreover have "frame_addr (?rs ! 0) 0 = 0x1000" "frame_addr (?rs ! 0) 1 = 0x2000"
    "frame_addr (?rs ! 0) 2 = 0x3000"
    by (simp_all add: frame_addr_def sample_kernel_def init_region_def)
  ultimately have "0x1000 \<in> free_frames ?rs" "0x2000 \<in> free_frames ?rs" "0x3000 \<in> free_frames ?rs"
    unfolding free_frames_def mem_Collect_eq by metis+
  thus "{0x1000, 0x2000, 0x3000} \<subseteq> free_frames ?rs" by simp
  assume "a \<in> free_frames ?rs"
  then obtain i where i: "i < frame_count (?rs ! 0)" "a = frame_addr (?rs ! 0) i"
    unfolding free_frames_def frame_free_def by (auto simp: sample_kernel_def)
  show "unat a < 0x5000"
    using frame_addr_range(2) [OF wf _ i(1)] i(2) by (simp add: sample_kernel_def init_region_def)
qed

lemma sample_kernel_ready:
  "map_ready 0xffff800000000000 3 0xffff800000010000 sample_kernel"
proof -
  let ?h = "0xffff800000000000 :: u64" and ?t = "0xffff800000010000 :: u64"
  have km: "kmem sample_kernel = (\<lambda>_. 0)" "hhdm_offset sample_kernel = ?h"
    by (simp_all add: sample_kernel_def)
  have "3 \<le> card (free_frames (memmap_arr sample_kernel))"
    using card_mono [OF finite_free_frames sample_kernel_frames(2)] by simp
  moreover have "table_pages (\<lambda>_. 0) ?h 3 ?t = {?t}" "tree_wf (\<lambda>_. 0) ?h 3 ?t"
    by (rule zero_page_tree; simp)+
  moreover have "?t \<notin> free_pages sample_kernel"
  proof
    assume "?t \<in> free_pages sample_kernel"
    then obtain a where a: "a \<in> free_frames (memmap_arr sample_kernel)" "?t = a + ?h"
      by (auto simp: free_pages_def km)
    hence "a = ?t - ?h" by (simp add: eq_diff_eq)
    thus False using sample_kernel_frames(3) [OF a(1)] by simp
  qed
  ultimately show ?thesis using sample_kernel_frames(1) km by (simp add: map_ready_def)
qed

theorem map_page_maps_one_page_witness:
  "\<exists>s'. map_page 0xffff800000010000 0x9000 0x400000 3 sample_kernel = Some (UINT64_MAX, s') \<and>
     mmu_walk (kmem s') 0xffff800000000000 0xffff800000010000 (page_path 0x400000) = Some 0x9003"
  using map_page_maps_one_page [OF sample_kernel_ready, of 3 "0x9000" "0x400000"]
  by (auto simp: sample_kernel_def)

lemma sample_mapped:
  obtains s' where "map_page 0xffff800000010000 0x9000 0x400123 3 sample_kernel = Some (UINT64_MAX, s')"
    "hhdm_offset s' = 0xffff800000000000" "regions_wf (memmap_arr s')" "\<not> scheduling_started s'"
    "tree_wf (kmem s') 0xffff800000000000 3 0xffff800000010000"
    "table_pages (kmem s') 0xffff800000000000 3 0xffff800000010000 \<inter> free_pages s' = {}"
    "mmu_walk (kmem s') 0xffff800000000000 0xffff800000010000 (page_path 0x400123) = Some 0x9003"
proof -
  let ?pml4 = "0xffff800000010000 :: u64" and ?v = "0x400123 :: u64"
  let ?s = "sample_kernel\<lparr>irq_enabled := False\<rparr>"
  let ?s1 = "map_page_tables ?pml4 0x9000 ?v 3 ?s"
  have "map_ready 0xffff800000000000 3 ?pml4 ?s"
    using sample_kernel_ready by (auto simp: map_ready_def free_pages_def)
  hence "map_done 0xffff800000000000 3 ?pml4 (page_path ?v) (0x9000 OR 3) ?s ?s1"
    unfolding map_page_tables_path using page_path_ok by (intro map_path_done) auto
  note d = map_done_facts [OF this] this [unfolded map_done_def]
  have fr: "frames_only ?s ?s1" unfolding map_page_tables_path by (rule map_path_frames_only)
  note f = frames_only_kernel [OF fr]
  have "map_page ?pml4 0x9000 ?v 3 sample_kernel = Some (UINT64_MAX, ?s1\<lparr>irq_enabled := True\<rparr>)"
    using f(4) by (simp add: map_page_def Let_def sample_kernel_def)
  moreover have "\<not> scheduling_started ?s1" using f(4) by (simp add: sample_kernel_def)
  ultimately show ?thesis
    using d by (intro that [of "?s1\<lparr>irq_enabled := True\<rparr>"]) (simp_all add: free_pages_def)
qed



text \<open>Once scheduling has started, \<open>map_page\<close> records the mapping in the running thread and
  returns with interrupts disabled, whatever they were before.  When the thread's mapping array is
  consistent and has room for two more entries, the returned index is that of a formerly unused
  entry, which now holds the address and is used; the array stays consistent, so \<open>num_mappings\<close>
  still counts its used entries.\<close>
lemma map_page_records_mapping:
  assumes sched: "scheduling_started s" and t: "threads s (running_thread s) = Some t"
    and ok: "mappings_ok (mappings t)"
    and room: "unat (num_mappings (mappings t)) + 1 < unat (max_mappings (mappings t))"
  shows "\<exists>i s' t'. map_page pml4 phys virt perms s = Some (of_nat i, s') \<and> \<not> irq_enabled s' \<and>
     threads s' (running_thread s) = Some t' \<and> mappings_ok (mappings t') \<and>
     i < length (mapped_virt_addresses_array (mappings t)) \<and>
     mv_virt_address (mapped_virt_addresses_array (mappings t') ! i) = virt \<and>
     mv_used (mapped_virt_addresses_array (mappings t') ! i) \<and>
     num_mappings (mappings t') = num_mappings (mappings t) + 1"
proof -
  let ?s = "s\<lparr>irq_enabled := False\<rparr>"
  let ?s2 = "map_page_tables pml4 phys virt perms ?s"
  have fr: "frames_only ?s ?s2" unfolding map_page_tables_path by (rule map_path_frames_only)
  note f = frames_only_kernel [OF fr]
  have "threads ?s2 (running_thread ?s2) = Some t" using f t by simp
  then obtain i where i: "i < length (mapped_virt_addresses_array (mappings t))"
    "mappings_ok (add_mapping virt i (mappings t))"
    "record_mapping virt ?s2 = Some (of_nat i, ?s2\<lparr>threads := (threads ?s2)(running_thread ?s2 \<mapsto>
       t\<lparr>mappings := add_mapping virt i (mappings t)\<rparr>)\<rparr>)"
    using record_mapping_spec [OF _ ok room] by blast
  have "map_page pml4 phys virt perms s = record_mapping virt ?s2"
    using sched f(4) by (simp add: map_page_def Let_def)
  thus ?thesis
    using i f by (intro exI [of _ i]) (simp add: add_mapping_def Let_def)
qed

lemma forget_mapping_returns:
  assumes "threads s (running_thread s) = Some t" "mappings_ok (mappings t)"
  shows "\<exists>s'. forget_mapping virt s = Some s' \<and> kmem s' = kmem s \<and> irq_enabled s' = irq_enabled s"
  using assms by (cases "find (\<lambda>i. mv_virt_address (mapped_virt_addresses_array (mappings t) ! i) = virt)
      [0..<unat (max_mappings (mappings t))]")
    (simp_all add: forget_mapping_def get_current_thread_def Let_def mappings_ok_def thread_upd_def)

lemma map_page_records_mapping_witness:
  "\<exists>i s' t'. map_page 0xffff800000010000 0x9000 0x400000 3 sample_running = Some (of_nat i, s') \<and>
     \<not> irq_enabled s' \<and> threads s' 0x5000 = Some t' \<and>
     mv_virt_address (mapped_virt_addresses_array (mappings t') ! i) = 0x400000 \<and>
     num_mappings (mappings t') = 1"
proof -
  have "mappings_ok (mappings sample_thread)"
    by (simp add: mappings_ok_def sample_thread_def)
  thus ?thesis
    using map_page_records_mapping [of sample_running sample_thread "0xffff800000010000" "0x9000" "0x400000" 3]
    by (auto simp: sample_running_def sample_thread_def)
qed

text \<open>C18: \<open>unmap_page\<close> removes exactly one page.  On a well-formed tree in which the address is
  mapped, with the running thread's mapping array in place if scheduling has started, it returns
  with interrupts as they were; the walk of the address then ends in no entry and the walk of every
  other page is unchanged.\<close>
theorem unmap_page_removes_one_page:
  assumes h: "hhdm_offset s = h" "h AND 0xfff = 0" and wf: "regions_wf (memmap_arr s)"
    and tree: "tree_wf (kmem s) h 3 pml4" "table_pages (kmem s) h 3 pml4 \<inter> free_pages s = {}"
    and mapped: "mmu_walk (kmem s) h pml4 (page_path virt) \<noteq> None"
    and t: "scheduling_started s \<longrightarrow>
      (\<exists>t. threads s (running_thread s) = Some t \<and> mappings_ok (mappings t))"
  shows "\<exists>s'. unmap_page pml4 virt s = Some s' \<and> irq_enabled s' = irq_enabled s \<and>
     mmu_walk (kmem s') h pml4 (page_path virt) = None \<and>
     (\<forall>v. page_path v \<noteq> page_path virt \<longrightarrow>
        mmu_walk (kmem s') h pml4 (page_path v) = mmu_walk (kmem s) h pml4 (page_path v))"
proof -
  let ?s = "s\<lparr>irq_enabled := False\<rparr>"
  let ?m = "store64 (entry_addr (leaf_table (kmem s) h pml4 (page_path virt)) (last (page_path virt))) 0 (kmem s)"
  have "map_done h 3 pml4 (page_path virt) 0 s (s\<lparr>kmem := ?m\<rparr>)"
    using page_path_ok [of virt] by (intro leaf_update_done [OF _ _ h wf tree mapped]) simp_all
  note d = map_done_facts [OF this]
  define s2 where "s2 = ?s\<lparr>kmem := store64 (entry_addr (walk_pt ?s pml4 virt) (pt_index virt)) 0 (kmem ?s)\<rparr>"
  have pt: "walk_pt ?s pml4 virt = leaf_table (kmem s) h pml4 (page_path virt)"
    "pt_index virt = last (page_path virt)"
    using h(1) by (simp_all add: walk_pt_leaf_table) (simp add: page_path_def)
  have s2: "kmem s2 = ?m" "irq_enabled s2 = False" "threads s2 = threads s"
    "running_thread s2 = running_thread s" "scheduling_started s2 = scheduling_started s"
    by (simp_all add: s2_def pt)
  obtain s' where s': "(if scheduling_started s2 then forget_mapping virt s2 else Some s2) = Some s'"
    "kmem s' = ?m" "irq_enabled s' = False"
    using s2 t forget_mapping_returns [of s2 _ virt] by (cases "scheduling_started s2") force+
  have "unmap_page pml4 virt s = Some (irq_restore (Some (irq_enabled s)) s')"
    by (simp only: unmap_page_def irq_disable_save_simp Let_def prod.case s2_def [symmetric] s'
        option.map)
  then obtain s3 where "unmap_page pml4 virt s = Some s3" "kmem s3 = ?m" "irq_enabled s3 = irq_enabled s"
    using s' by simp
  thus ?thesis using d(3) same_walks_page [OF d(4)] by simp
qed

theorem unmap_page_removes_one_page_witness:
  "\<exists>s1 s2. map_page 0xffff800000010000 0x9000 0x400123 3 sample_kernel = Some (UINT64_MAX, s1) \<and>
     unmap_page 0xffff800000010000 0x400123 s1 = Some s2 \<and>
     mmu_walk (kmem s2) 0xffff800000000000 0xffff800000010000 (page_path 0x400123) = None"
proof -
  obtain s1 where s1: "map_page 0xffff800000010000 0x9000 0x400123 3 sample_kernel = Some (UINT64_MAX, s1)"
    "hhdm_offset s1 = 0xffff800000000000" "regions_wf (memmap_arr s1)" "\<not> scheduling_started s1"
    "tree_wf (kmem s1) 0xffff800000000000 3 0xffff800000010000"
    "table_pages (kmem s1) 0xffff800000000000 3 0xffff800000010000 \<inter> free_pages s1 = {}"
    "mmu_walk (kmem s1) 0xffff800000000000 0xffff800000010000 (page_path 0x400123) = Some 0x9003"
    by (rule sample_mapped)
  have a: "(0xffff800000000000 :: u64) AND 0xfff = 0" by simp
  have b: "mmu_walk (kmem s1) 0xffff800000000000 0xffff800000010000 (page_path 0x400123) \<noteq> None"
    and c: "scheduling_started s1 \<longrightarrow>
      (\<exists>t. threads s1 (running_thread s1) = Some t \<and> mappings_ok (mappings t))"
    using s1(4,7) by simp_all
  show ?thesis
    using unmap_page_removes_one_page [OF s1(2) a s1(3,5,6) b c] s1(1) by blast
qed

end
