(* ===== verification/Loader.thy ===== *)
theory Loader
  imports Paging Cstring
begin

text \<open>
  The ELF loader (loader.c, loader.h): loading and unloading the segments of a program, entering
  user space and building the initial user stack.  User addresses are accessed through the page
  tables that CR3 points to; an access to an unmapped page is a fault.  Addresses of the kernel
  half are accessed directly.
\<close>

section \<open>ELF headers\<close>

definition load16 :: "mem \<Rightarrow> u64 \<Rightarrow> u16" where
  "load16 m a = ucast (m a) OR push_bit 8 (ucast (m (a + 1)))"

definition load32 :: "mem \<Rightarrow> u64 \<Rightarrow> u32" where
  "load32 m a = ucast (m a) OR push_bit 8 (ucast (m (a + 1))) OR push_bit 16 (ucast (m (a + 2))) OR
     push_bit 24 (ucast (m (a + 3)))"

record Elf64_Ehdr =
  e_ident :: "u8 list"
  e_type :: u16
  e_machine :: u16
  e_version :: u32
  e_entry :: u64
  e_phoff :: u64
  e_shoff :: u64
  e_flags :: u32
  e_ehsize :: u16
  e_phentsize :: u16
  e_phnum :: u16
  e_shentsize :: u16
  e_shnum :: u16
  e_shstrndx :: u16

record Elf64_Phdr =
  p_type :: u32
  p_flags :: u32
  p_offset :: u64
  p_vaddr :: u64
  p_paddr :: u64
  p_filesz :: u64
  p_memsz :: u64
  p_align :: u64

definition read_ehdr :: "mem \<Rightarrow> u64 \<Rightarrow> Elf64_Ehdr" where
  "read_ehdr m a =
     \<lparr>e_ident = read_bytes m a 16, e_type = load16 m (a + 16), e_machine = load16 m (a + 18),
      e_version = load32 m (a + 20), e_entry = load64 m (a + 24), e_phoff = load64 m (a + 32),
      e_shoff = load64 m (a + 40), e_flags = load32 m (a + 48), e_ehsize = load16 m (a + 52),
      e_phentsize = load16 m (a + 54), e_phnum = load16 m (a + 56), e_shentsize = load16 m (a + 58),
      e_shnum = load16 m (a + 60), e_shstrndx = load16 m (a + 62)\<rparr>"

definition read_phdr :: "mem \<Rightarrow> u64 \<Rightarrow> Elf64_Phdr" where
  "read_phdr m a =
     \<lparr>p_type = load32 m a, p_flags = load32 m (a + 4), p_offset = load64 m (a + 8),
      p_vaddr = load64 m (a + 16), p_paddr = load64 m (a + 24), p_filesz = load64 m (a + 32),
      p_memsz = load64 m (a + 40), p_align = load64 m (a + 48)\<rparr>"

section \<open>Access through the page tables\<close>

definition KERNEL_HALF :: u64 where
  "KERNEL_HALF = 0xffff800000000000"

definition translate :: "'a kernel_scheme \<Rightarrow> u64 \<Rightarrow> u64 option" where
  "translate s v =
     (if KERNEL_HALF \<le> v then Some v
      else map_option (\<lambda>e. (e AND NOT 0xfff) + (v AND 0xfff) + hhdm_offset s)
             (mmu_walk (kmem s) (hhdm_offset s) (cr3_register s + hhdm_offset s) (page_path v)))"

fun user_memset :: "u64 \<Rightarrow> u8 \<Rightarrow> nat \<Rightarrow> 'a kernel_scheme \<Rightarrow> 'a kernel_scheme option" where
  "user_memset p c 0 s = Some s"
| "user_memset p c (Suc n) s =
     (case translate s p of
        None \<Rightarrow> None
      | Some a \<Rightarrow> user_memset (p + 1) c n (s\<lparr>kmem := (kmem s)(a := c)\<rparr>))"

fun user_memcpy :: "u64 \<Rightarrow> u64 \<Rightarrow> nat \<Rightarrow> 'a kernel_scheme \<Rightarrow> 'a kernel_scheme option" where
  "user_memcpy dest src 0 s = Some s"
| "user_memcpy dest src (Suc n) s =
     (case (translate s dest, translate s src) of
        (Some d, Some a) \<Rightarrow> user_memcpy (dest + 1) (src + 1) n (s\<lparr>kmem := (kmem s)(d := kmem s a)\<rparr>)
      | _ \<Rightarrow> None)"

section \<open>Loading\<close>

definition load_segment :: "u64 \<Rightarrow> u64 \<Rightarrow> Elf64_Phdr \<Rightarrow> 'a kernel_scheme \<Rightarrow> 'a kernel_scheme option" where
  "load_segment elf cr3_virt phdr s =
     Option.bind (map_range cr3_virt (p_vaddr phdr) 7 (p_memsz phdr) 7 s) (\<lambda>(_, s1).
     Option.bind (user_memset (p_vaddr phdr AND NOT 0xfff) 0
         (unat (p_memsz phdr + (p_vaddr phdr AND 0xfff))) s1) (\<lambda>s2.
     Option.bind (user_memcpy (p_vaddr phdr) (elf + p_offset phdr) (unat (p_filesz phdr)) s2) (\<lambda>s3.
     if p_memsz phdr > p_filesz phdr
     then user_memset (p_vaddr phdr + p_filesz phdr) 0 (unat (p_memsz phdr - p_filesz phdr)) s3
     else Some s3)))"

definition phdr_at :: "mem \<Rightarrow> u64 \<Rightarrow> nat \<Rightarrow> Elf64_Phdr" where
  "phdr_at m elf i =
     (let ehdr = read_ehdr m elf
      in read_phdr m (e_phoff ehdr + of_nat i * ucast (e_phentsize ehdr) + elf))"

lemma e_phnum_bound: "unat (e_phnum h) < 65536"
  using unsigned_less [of "e_phnum h", where 'a = nat] by simp

function load_elf_loop :: "u64 \<Rightarrow> u64 \<Rightarrow> nat \<Rightarrow> 'a kernel_scheme \<Rightarrow> 'a kernel_scheme option" where
  "load_elf_loop elf cr3_virt i s =
     (if i < unat (e_phnum (read_ehdr (kmem s) elf)) then
        (let phdr = phdr_at (kmem s) elf i in
         if p_type phdr = 1 then
           Option.bind (load_segment elf cr3_virt phdr s) (load_elf_loop elf cr3_virt (Suc i))
         else load_elf_loop elf cr3_virt (Suc i) s)
      else Some s)"
  by pat_completeness auto
termination
  by (relation "measure (\<lambda>(elf, cr3_virt, i, s). 65536 - i)")
    (auto dest: less_trans [OF _ e_phnum_bound])

declare load_elf_loop.simps [simp del]

definition load_elf :: "u64 \<Rightarrow> u64 \<Rightarrow> 'a kernel_scheme \<Rightarrow> (u64 \<times> 'a kernel_scheme) option" where
  "load_elf elf cr3_virt s =
     map_option (\<lambda>s1. (e_entry (read_ehdr (kmem s1) elf), s1)) (load_elf_loop elf cr3_virt 0 s)"

section \<open>Unloading\<close>

definition release_page :: "u64 \<Rightarrow> u64 \<Rightarrow> 'a kernel_scheme \<Rightarrow> 'a kernel_scheme option" where
  "release_page cr3_virt virt s =
     Option.bind (free_frame (virt_to_phys_page virt cr3_virt s) s) (unmap_page cr3_virt virt)"

fun release_pages :: "u64 \<Rightarrow> u64 \<Rightarrow> nat \<Rightarrow> nat \<Rightarrow> 'a kernel_scheme \<Rightarrow> 'a kernel_scheme option" where
  "release_pages cr3_virt virt j 0 s = Some s"
| "release_pages cr3_virt virt j (Suc k) s =
     Option.bind (release_page cr3_virt (virt + 4096 * of_nat j) s) (release_pages cr3_virt virt (Suc j) k)"

definition unload_segment :: "u64 \<Rightarrow> Elf64_Phdr \<Rightarrow> 'a kernel_scheme \<Rightarrow> 'a kernel_scheme option" where
  "unload_segment cr3_virt phdr s =
     (let v = p_vaddr phdr; total = (v AND 0xfff) + p_memsz phdr in
      if p_memsz phdr < 4096 then release_page cr3_virt v s
      else if p_memsz phdr mod 4096 = 0 then
        Option.bind (release_page cr3_virt v s)
          (release_pages cr3_virt v 1 (unat (total div 4096 - 1)))
      else if p_memsz phdr mod 4096 \<noteq> 0 \<and> p_memsz phdr > 4096 then
        Option.bind (release_page cr3_virt v s)
          (release_pages cr3_virt v 1 (unat (total div 4096 + 1) - 1))
      else Some s)"

function unload_elf_loop :: "u64 \<Rightarrow> u64 \<Rightarrow> nat \<Rightarrow> 'a kernel_scheme \<Rightarrow> 'a kernel_scheme option" where
  "unload_elf_loop elf cr3_virt i s =
     (if i < unat (e_phnum (read_ehdr (kmem s) elf)) then
        (let phdr = phdr_at (kmem s) elf i in
         if p_type phdr = 1 then
           Option.bind (unload_segment cr3_virt phdr s) (unload_elf_loop elf cr3_virt (Suc i))
         else unload_elf_loop elf cr3_virt (Suc i) s)
      else Some s)"
  by pat_completeness auto
termination
  by (relation "measure (\<lambda>(elf, cr3_virt, i, s). 65536 - i)")
    (auto dest: less_trans [OF _ e_phnum_bound])

declare unload_elf_loop.simps [simp del]

definition unload_elf :: "u64 \<Rightarrow> u64 \<Rightarrow> 'a kernel_scheme \<Rightarrow> 'a kernel_scheme option" where
  "unload_elf elf cr3_virt s = unload_elf_loop elf cr3_virt 0 s"

section \<open>The initial user stack\<close>

record com_elf_data =
  ed_entry :: u64
  ed_phdr :: u64
  ed_phent_sz :: u64
  ed_phent_num :: u64

definition PUSH :: "u64 \<Rightarrow> u64 \<times> mem \<Rightarrow> u64 \<times> mem" where
  "PUSH x st = (fst st - 8, store64 (fst st - 8) x (snd st))"

text \<open>\<open>push_strings\<close> copies the strings of a NULL-terminated pointer array below the stack
  pointer; \<open>fill_vector\<close> writes the array of their new addresses.\<close>

partial_function (option) push_strings ::
  "u64 \<Rightarrow> nat \<Rightarrow> u64 \<Rightarrow> mem \<Rightarrow> (nat \<times> u64 \<times> mem) option" where
  "push_strings vec i sp m =
     (let str = load64 m (vec + of_nat (8 * i)) in
      if str = NULL then Some (i, sp, m)
      else
        (case strlen m str of
           None \<Rightarrow> None
         | Some n \<Rightarrow>
             push_strings vec (Suc i) (sp - (n + 1)) (memcpy (sp - (n + 1)) str (n + 1) m)))"

fun fill_vector :: "u64 \<Rightarrow> u64 \<Rightarrow> u64 \<Rightarrow> nat \<Rightarrow> nat \<Rightarrow> u64 \<Rightarrow> mem \<Rightarrow> (u64 \<times> mem) option" where
  "fill_vector vec sp stack_end i 0 off m = Some (off, m)"
| "fill_vector vec sp stack_end i (Suc k) off m =
     (case strlen m (load64 m (vec + of_nat (8 * i))) of
        None \<Rightarrow> None
      | Some n \<Rightarrow>
          fill_vector vec sp stack_end (Suc i) k (off + (n + 1))
            (store64 (sp + of_nat (8 * i)) (stack_end - (off + (n + 1))) m))"

definition stack_finish :: "nat \<Rightarrow> u64 \<Rightarrow> u64 \<times> mem \<Rightarrow> u64 \<times> mem" where
  "stack_finish argc stack_end_virt st =
     (let (stackptr, m) = PUSH (of_nat argc) st;
          (_, m') = (PUSH 0xDEADBEEFCAFEBABE ^^ 100) (stackptr - 2400, m)
      in (stack_end_virt - (stack_end_virt - stackptr), m'))"

definition com_sys_elf64_prepare_stack ::
  "com_elf_data \<Rightarrow> u64 \<Rightarrow> u64 \<Rightarrow> u64 \<Rightarrow> mem \<Rightarrow> (u64 \<times> mem) option" where
  "com_sys_elf64_prepare_stack elf_data stack_end_virt argv envp m0 =
     (case push_strings envp 0 stack_end_virt m0 of
        None \<Rightarrow> None
      | Some (envc, sp1, m1) \<Rightarrow>
          (case push_strings argv 0 sp1 m1 of
             None \<Rightarrow> None
           | Some (argc, sp2, m2) \<Rightarrow>
               (let sp3 = sp2 AND NOT 0xF;
                    sp4 = (if (argc + envc + 1) mod 2 \<noteq> 0 then sp3 - 8 else sp3);
                    (sp5, m5) = fold PUSH
                      [0, 0, ed_entry elf_data, 9, ed_phdr elf_data, 3, ed_phent_sz elf_data, 4,
                       ed_phent_num elf_data, 5, 0] (sp4, m2);
                    sp6 = sp5 - of_nat (8 * envc)
                in case fill_vector envp sp6 stack_end_virt 0 envc 0 m5 of
                     None \<Rightarrow> None
                   | Some (off, m6) \<Rightarrow>
                       (let (sp7, m7) = PUSH 0 (sp6, m6);
                            sp8 = sp7 - of_nat (8 * argc)
                        in case fill_vector argv sp8 stack_end_virt 0 argc off m7 of
                             None \<Rightarrow> None
                           | Some (off', m8) \<Rightarrow> Some (stack_finish argc stack_end_virt (sp8, m8))))))"

section \<open>Entering user space\<close>

text \<open>Addresses the linker fixes, and the addresses of the two empty arrays that
  \<open>userspace_run_elf\<close> passes as argument and environment vectors.\<close>

record code_symbols =
  sym_scheduler_return :: u64
  sym_disable_preemption :: u64
  sym_enable_preemption :: u64
  sym_idle_thread :: u64
  sym_userspace_run_elf :: u64
  sym_syscall_user_thread_exit :: u64
  sym_scheduling_started :: u64
  sym_root_dir :: u64
  local_argv :: u64
  local_envp :: u64

definition jump_to_user :: "u64 \<Rightarrow> u64 \<Rightarrow> 'a kernel_scheme \<Rightarrow> 'a kernel_scheme" where
  "jump_to_user rdi rsi s = s\<lparr>rip_register := rdi, rsp_register := rsi, irq_enabled := True\<rparr>"

definition user_stack_pages :: "thread_context \<Rightarrow> 'a kernel_scheme \<Rightarrow> 'a kernel_scheme" where
  "user_stack_pages t s =
     fold (\<lambda>i. change_page_map (cr3 t) (user_rsp t - THREAD_STACK_SIZE + of_nat (i * 4000)) 7) [0..<5] s"

definition userspace_run_elf :: "code_symbols \<Rightarrow> 'a kernel_scheme \<Rightarrow> 'a kernel_scheme option" where
  "userspace_run_elf cs s =
     (let (irq, s0) = irq_disable_save s; p = get_current_thread s0 in
      if p = NULL then None
      else
        (let (block, s1) = kmalloc_byte_interruptable THREAD_STACK_SIZE s0 in
         if block = NULL then None
         else
           Option.bind (thread_upd p (\<lambda>t. t\<lparr>user_rsp := block + THREAD_STACK_SIZE\<rparr>) s1) (\<lambda>s2.
           Option.bind (threads s2 p) (\<lambda>t.
           let s3 = user_stack_pages t s2;
               s4 = s3\<lparr>kmem := memset (user_rsp t - THREAD_STACK_SIZE) 0 THREAD_STACK_SIZE (kmem s3)\<rparr>;
               s5 = change_page_map (cr3 t) (sym_scheduling_started cs) 7 s4;
               rsp' = (if elf_file t = NULL then user_rsp t - 8 else user_rsp t);
               s6 = (if elf_file t = NULL
                     then s5\<lparr>kmem := store64 rsp' (sym_syscall_user_thread_exit cs) (kmem s5)\<rparr> else s5)
           in Option.bind (thread_upd p (\<lambda>t. t\<lparr>status := (status t)[4 := 1], user_rsp := rsp'\<rparr>) s6) (\<lambda>s7.
              case com_sys_elf64_prepare_stack \<lparr>ed_entry = 0, ed_phdr = 0, ed_phent_sz = 0, ed_phent_num = 0\<rparr>
                     rsp' (local_argv cs) (local_envp cs) (kmem s7) of
                None \<Rightarrow> None
              | Some (_, m) \<Rightarrow>
                  (let s8 = s7\<lparr>kmem := m\<rparr> in
                   if elf_entry t \<noteq> NULL then Some (jump_to_user (elf_entry t) rsp' s8) else Some s8))))))"

section \<open>Properties\<close>

lemma fold_PUSH_fst: "fst (fold PUSH xs st) = fst st - of_nat (8 * length xs)"
  by (induction xs arbitrary: st) (simp_all add: PUSH_def)

lemma low_nibble: "(x :: u64) AND 0xF = take_bit 4 x"
  by (simp add: take_bit_eq_mask mask_eq_exp_minus_1)

lemma aligned_step:
  fixes x :: u64
  assumes "x AND 0xF = 0" "even k"
  shows "(x - of_nat (8 * k)) AND 0xF = 0"
proof -
  obtain j where j: "k = 2 * j" using assms(2) by auto
  have "x = push_bit 4 (drop_bit 4 x)"
    using bits_ident [of 4 x] assms(1) by (simp add: low_nibble)
  hence "x - of_nat (8 * k) = push_bit 4 (drop_bit 4 x - of_nat j)"
    by (simp add: j push_bit_eq_mult algebra_simps)
  thus ?thesis by (simp add: low_nibble take_bit_push_bit)
qed

lemma masked_aligned: "((x :: u64) AND NOT 0xF) AND 0xF = 0"
  by (simp add: and.assoc)

lemma sub_words: "(x :: u64) - of_nat (8 * a) - of_nat (8 * b) = x - of_nat (8 * (a + b))"
  by (simp add: algebra_simps)

lemma junk_below:
  "n \<le> 100 \<Longrightarrow> (PUSH x ^^ n) (sp - 2400, m) = (sp - 2400 - of_nat (8 * n), snd ((PUSH x ^^ n) (sp - 2400, m))) \<and>
     load64 (snd ((PUSH x ^^ n) (sp - 2400, m))) sp = load64 m sp"
proof (induction n)
  case (Suc n)
  let ?st = "(PUSH x ^^ n) (sp - 2400, m)"
  let ?a = "sp - 2400 - of_nat (8 * n) - 8"
  have IH: "fst ?st = sp - 2400 - of_nat (8 * n)" "load64 (snd ?st) sp = load64 m sp"
    using Suc by (metis fst_conv Suc_leD)+
  have st: "(PUSH x ^^ Suc n) (sp - 2400, m) = (?a, store64 ?a x (snd ?st))"
    by (simp add: PUSH_def IH(1))
  have "sp - ?a = of_nat (2408 + 8 * n)" by simp
  moreover have "unat (of_nat (2408 + 8 * n) :: u64) = 2408 + 8 * n"
    by (rule unat_of_nat_u64) (use Suc.prems in simp)
  ultimately have "unat (sp - ?a) = 2408 + 8 * n" by (simp only:)
  hence "load64 (store64 ?a x (snd ?st)) sp = load64 (snd ?st) sp"
    using Suc.prems by (intro load64_store64_other) simp_all
  moreover have "?a = sp - 2400 - of_nat (8 * Suc n)" by (simp add: algebra_simps)
  ultimately show ?case by (simp only: st IH snd_conv)
qed simp

lemma stack_finish_spec:
  "fst (stack_finish argc stack_end st) = fst st - 8 \<and>
   load64 (snd (stack_finish argc stack_end st)) (fst st - 8) = of_nat argc"
proof -
  let ?m = "store64 (fst st - 8) (of_nat argc) (snd st)"
  note j = junk_below [of 100 "0xDEADBEEFCAFEBABE" "fst st - 8" ?m]
  have "stack_finish argc stack_end st =
      (stack_end - (stack_end - (fst st - 8)), snd ((PUSH 0xDEADBEEFCAFEBABE ^^ 100) (fst st - 8 - 2400, ?m)))"
    by (simp only: stack_finish_def Let_def PUSH_def [of "of_nat argc"] prod.case case_prod_beta fst_conv snd_conv)
  thus ?thesis using j by simp
qed

text \<open>Whatever strings it copies, \<open>com_sys_elf64_prepare_stack\<close> returns a stack pointer that is
  16-byte aligned, as the System V ABI requires at program entry, with the argument count in the
  word it points to.\<close>
lemma prepare_stack_aligned:
  assumes "com_sys_elf64_prepare_stack elf_data stack_end argv envp m = Some (sp, m')"
  shows "sp AND 0xF = 0 \<and> (\<exists>argc sp2 m2 envc sp1 m1. push_strings envp 0 stack_end m = Some (envc, sp1, m1) \<and>
     push_strings argv 0 sp1 m1 = Some (argc, sp2, m2) \<and> load64 m' sp = of_nat argc)"
proof -
  obtain envc sp1 m1 where 1: "push_strings envp 0 stack_end m = Some (envc, sp1, m1)"
    using assms by (auto simp: com_sys_elf64_prepare_stack_def split: option.splits)
  obtain argc sp2 m2 where 2: "push_strings argv 0 sp1 m1 = Some (argc, sp2, m2)"
    using assms 1 by (auto simp: com_sys_elf64_prepare_stack_def split: option.splits)
  define pad where "pad = (if even (argc + envc) then 1 else 0 :: nat)"
  define sp4 where "sp4 = (if (argc + envc + 1) mod 2 \<noteq> 0 then (sp2 AND NOT 0xF) - 8 else sp2 AND NOT 0xF)"
  have sp4: "sp4 = (sp2 AND NOT 0xF) - of_nat (8 * pad)"
    by (auto simp: sp4_def pad_def even_iff_mod_2_eq_zero) presburger+
  define xs where "xs = [0, 0, ed_entry elf_data, 9, ed_phdr elf_data, 3, ed_phent_sz elf_data, 4,
    ed_phent_num elf_data, 5, 0]"
  obtain sp5 m5 where 5: "fold PUSH xs (sp4, m2) = (sp5, m5)" by fastforce
  have sp5: "sp5 = sp4 - of_nat (8 * 11)"
    using fold_PUSH_fst [of xs "(sp4, m2)"] 5 by (simp add: xs_def)
  define sp8 where "sp8 = sp5 - of_nat (8 * envc) - 8 - of_nat (8 * argc)"
  note def = assms [unfolded com_sys_elf64_prepare_stack_def 1 2 option.case prod.case Let_def,
      folded sp4_def xs_def, unfolded 5 prod.case PUSH_def fst_conv snd_conv, folded sp8_def]
  then obtain m8 where "stack_finish argc stack_end (sp8, m8) = (sp, m')"
    by (auto split: option.splits)
  hence sp: "sp = sp8 - 8" "load64 m' sp = of_nat argc"
    using stack_finish_spec [of argc stack_end "(sp8, m8)"] by (auto dest: arg_cong [of _ _ fst] arg_cong [of _ _ snd])
  have "sp = (sp2 AND NOT 0xF) - of_nat (8 * (pad + 13 + envc + argc))"
    by (simp add: sp(1) sp8_def sp5 sp4 algebra_simps)
  moreover have "even (pad + 13 + envc + argc)" by (auto simp: pad_def)
  ultimately have "sp AND 0xF = 0" using aligned_step [OF masked_aligned] by metis
  thus ?thesis using 1 2 sp(2) by blast
qed

lemma push_strings_zero: "push_strings vec 0 sp (\<lambda>_. 0) = Some (0, sp, \<lambda>_. 0)"
  using load64_const [of 0] by (subst push_strings.simps) simp

lemma prepare_stack_aligned_witness:
  "\<exists>sp m'. com_sys_elf64_prepare_stack \<lparr>ed_entry = 0, ed_phdr = 0, ed_phent_sz = 0, ed_phent_num = 0\<rparr>
       0x8008 0x100 0x200 (\<lambda>_. 0) = Some (sp, m') \<and> sp AND 0xF = 0 \<and> load64 m' sp = 0"
proof -
  let ?d = "\<lparr>ed_entry = 0, ed_phdr = 0, ed_phent_sz = 0, ed_phent_num = 0\<rparr>"
  have "\<exists>r. com_sys_elf64_prepare_stack ?d 0x8008 0x100 0x200 (\<lambda>_. 0) = Some r"
    by (simp add: com_sys_elf64_prepare_stack_def push_strings_zero Let_def case_prod_beta)
  then obtain sp m' where r: "com_sys_elf64_prepare_stack ?d 0x8008 0x100 0x200 (\<lambda>_. 0) = Some (sp, m')"
    by auto
  show ?thesis using prepare_stack_aligned [OF r] r push_strings_zero by auto
qed

section \<open>Loading and unloading the same pages\<close>

definition map_pages :: "u64 \<Rightarrow> u64 \<Rightarrow> nat" where
  "map_pages v sz =
     (let total = sz + (v AND 0xfff) in
      if total \<le> 4096 then 1
      else if total mod 4096 = 0 then unat (total div 4096) else unat (total div 4096 + 1))"

lemma map_range_pages:
  "sz \<noteq> 0 \<Longrightarrow> map_range cr3_virt v perms sz flag s =
     map_option (Pair 0) (map_range_loop cr3_virt v perms flag 0 (map_pages v sz) s)"
  by (auto simp: map_range_def map_pages_def Let_def PAGE_SIZE_DEFINED_def split: option.split)

lemma release_pages_0: "release_pages cr3_virt v j 0 = Some"
  by (rule ext) simp

lemma release_pages_1: "release_pages cr3_virt v 0 (Suc n) s =
    Option.bind (release_page cr3_virt v s) (release_pages cr3_virt v (Suc 0) n)"
  by simp

text \<open>For a segment whose address is page aligned, unloading releases exactly the pages that
  loading mapped: both run over the same number of pages from the segment's address.\<close>
lemma unload_releases_loaded_pages:
  assumes aligned: "p_vaddr ph AND 0xfff = 0" and sz: "p_memsz ph \<noteq> 0"
  shows "\<exists>n. map_range cr3_virt (p_vaddr ph) 7 (p_memsz ph) 7 s =
        map_option (Pair 0) (map_range_loop cr3_virt (p_vaddr ph) 7 7 0 n s) \<and>
      unload_segment cr3_virt ph s' = release_pages cr3_virt (p_vaddr ph) 0 n s'"
proof -
  let ?v = "p_vaddr ph" and ?sz = "p_memsz ph"
  have "unload_segment cr3_virt ph s' = release_pages cr3_virt ?v 0 (map_pages ?v ?sz) s'"
  proof (cases "?sz \<le> 4096")
    case True
    hence "?sz < 4096 \<or> ?sz = 4096" by auto
    thus ?thesis using aligned by (auto simp: unload_segment_def map_pages_def Let_def release_pages_0)
  next
    case False
    hence gt: "4096 < ?sz" by simp
    let ?q = "?sz div 4096"
    have q: "unat ?q = unat ?sz div 4096" by (simp add: unat_div)
    have "1 \<le> unat ?sz div 4096" using gt by (simp add: word_less_nat_alt)
    hence "unat ?q = Suc (unat (?q - 1))" using q by (subst unat_minus_one) auto
    moreover have "unat ?sz div 4096 < 2 ^ 52"
      using unat_u64_bound [of ?sz] by (simp add: div_less_iff_less_mult)
    hence "unat (?q + 1) = unat ?q + 1" using q by (subst unat_add_no_wrap) simp_all
    then obtain n where "unat (?q + 1) = Suc n" by simp
    ultimately show ?thesis
      using gt aligned False
      by (auto simp: unload_segment_def map_pages_def Let_def simp del: release_pages.simps
          simp flip: release_pages_1)
  qed
  thus ?thesis using map_range_pages [OF sz] by blast
qed

lemma unload_releases_loaded_pages_witness:
  "\<exists>n. map_range 0xffff800000010000 0x400000 7 0x1800 7 sample_kernel =
        map_option (Pair 0) (map_range_loop 0xffff800000010000 0x400000 7 7 0 n sample_kernel) \<and>
      unload_segment 0xffff800000010000 \<lparr>p_type = 1, p_flags = 5, p_offset = 0, p_vaddr = 0x400000,
        p_paddr = 0, p_filesz = 0x1800, p_memsz = 0x1800, p_align = 0x1000\<rparr> sample_kernel =
      release_pages 0xffff800000010000 0x400000 0 n sample_kernel"
  using unload_releases_loaded_pages [of "\<lparr>p_type = 1, p_flags = 5, p_offset = 0, p_vaddr = 0x400000,
      p_paddr = 0, p_filesz = 0x1800, p_memsz = 0x1800, p_align = 0x1000\<rparr>"]
  by simp



end
