(* ===== verification/Kutils.thy ===== *)
theory Kutils
  imports Cstring Vmm "HOL-Library.Signed_Division"
begin

text \<open>
  Utilities of kutils.c and main.c: number printing, the keyboard maps, the ustar reader, model
  specific registers and \<open>strdup\<close>.  C strings are read and written in the byte memory; a search for
  a missing terminator does not return.  What a function prints is the list of bytes it hands to
  the terminal.  An \<open>int\<close> is a 32-bit word read with \<open>sint\<close>; signed overflow wraps.
\<close>

section \<open>Strings (main.c)\<close>

partial_function (option) kstrlen_loop :: "mem \<Rightarrow> u64 \<Rightarrow> u64 \<Rightarrow> u64 option" where
  "kstrlen_loop m msg s = (if m (msg + s) \<noteq> 0 then kstrlen_loop m msg (s + 1) else Some s)"

definition kstrlen :: "mem \<Rightarrow> u64 \<Rightarrow> u64 option" where
  "kstrlen m msg = (if msg = NULL then Some 0 else kstrlen_loop m msg 0)"

definition strdup :: "u64 \<Rightarrow> 'a vmm_scheme \<Rightarrow> (u64 \<times> 'a vmm_scheme) option" where
  "strdup p s =
     map_option (\<lambda>l. let (d, s1) = kmalloc_byte (l + 1) s in
         if d = NULL then (NULL, s1) else (d, s1\<lparr>kmem := memcpy d p (l + 1) (kmem s1)\<rparr>))
       (strlen (kmem s) p)"

definition kprint :: "mem \<Rightarrow> u64 \<Rightarrow> u8 list option" where
  "kprint m msg = map_option (\<lambda>l. read_bytes m msg (unat l)) (kstrlen m msg)"

definition kprintln :: "mem \<Rightarrow> u64 \<Rightarrow> u8 list option" where
  "kprintln m msg = map_option (\<lambda>bs. bs @ [10]) (kprint m msg)"

definition kprint_char :: "u8 \<Rightarrow> u8 list" where
  "kprint_char c = (if c = 0 then [] else [c])"

section \<open>Decimal output (kutils.c)\<close>

function utos_digits :: "u64 \<Rightarrow> u64 \<Rightarrow> mem \<Rightarrow> u64 \<times> mem" where
  "utos_digits val ptr m =
     (if val > 0 then utos_digits (val div 10) (ptr + 1) (m(ptr := 48 + ucast (val mod 10)))
      else (ptr, m))"
  by pat_completeness auto
termination
  by (relation "measure (\<lambda>(val, ptr, m). unat val)") (auto simp: unat_div unat_gt_0)

declare utos_digits.simps [simp del]

function utos_reverse :: "u64 \<Rightarrow> u64 \<Rightarrow> mem \<Rightarrow> mem" where
  "utos_reverse start ende m =
     (if start < ende
      then utos_reverse (start + 1) (ende - 1) (let temp = m start in m(start := m ende, ende := temp))
      else m)"
  by pat_completeness auto
termination
proof (relation "measure (\<lambda>(start, ende, m). unat ende - unat start)", goal_cases)
  case (2 start ende m)
  hence lt: "unat start < unat ende" by (simp add: word_less_nat_alt)
  hence "unat (start + 1) = unat start + 1" by (rule unat_succ)
  moreover have "unat (ende - 1) = unat ende - 1"
    using lt by (intro unat_minus_one) auto
  ultimately show ?case using lt by simp
qed simp

declare utos_reverse.simps [simp del]

definition uint64_to_string :: "u64 \<Rightarrow> u64 \<Rightarrow> mem \<Rightarrow> mem" where
  "uint64_to_string val buffer m =
     (let (ptr, m1) = (if val = 0 then (buffer + 1, m(buffer := 48)) else utos_digits val buffer m)
      in utos_reverse buffer (ptr - 1) (m1(ptr := 0)))"

definition kprint_uint64 :: "u64 \<Rightarrow> u64 \<Rightarrow> mem \<Rightarrow> u8 list option" where
  "kprint_uint64 num strr m = kprint (uint64_to_string num strr m) strr"

definition kprintln_uint64 :: "u64 \<Rightarrow> u64 \<Rightarrow> mem \<Rightarrow> u8 list option" where
  "kprintln_uint64 num strr m = map_option (\<lambda>bs. bs @ [10]) (kprint_uint64 num strr m)"

definition kprintln_uint64_to_binary :: "u64 \<Rightarrow> u8 list" where
  "kprintln_uint64_to_binary val =
     concat (map (\<lambda>i. (if val AND push_bit i 1 \<noteq> 0 then [49] else [48]) @
       (if i mod 8 = 0 \<and> i \<noteq> 0 then [32] else [])) (rev [0..<64])) @ [10]"

text \<open>\<open>itoa\<close> works on \<open>int\<close>; division and remainder truncate.\<close>

function itoa_digits :: "int \<Rightarrow> u64 \<Rightarrow> nat \<Rightarrow> mem \<Rightarrow> nat \<times> mem" where
  "itoa_digits n s i m =
     (let m1 = m(s + of_nat i := word_of_int (n smod 10 + 48)); n' = n sdiv 10
      in if n' > 0 then itoa_digits n' s (Suc i) m1 else (Suc i, m1))"
  by pat_completeness auto
termination
  by (relation "measure (\<lambda>(n, s, i, m). nat n)") (auto simp: signed_divide_int_def sgn_if split: if_splits)

declare itoa_digits.simps [simp del]

function itoa_reverse_loop :: "u64 \<Rightarrow> int \<Rightarrow> int \<Rightarrow> mem \<Rightarrow> mem" where
  "itoa_reverse_loop s i j m =
     (if i < j
      then itoa_reverse_loop s (i + 1) (j - 1)
        (let c = m (s + word_of_int i) in m(s + word_of_int i := m (s + word_of_int j), s + word_of_int j := c))
      else m)"
  by pat_completeness auto
termination
  by (relation "measure (\<lambda>(s, i, j, m). nat (j - i))") auto

declare itoa_reverse_loop.simps [simp del]

definition itoa_reverse :: "u64 \<Rightarrow> mem \<Rightarrow> mem option" where
  "itoa_reverse s m =
     map_option (\<lambda>l. itoa_reverse_loop s 0 (sint (ucast l :: u32) - 1) m) (kstrlen m s)"

definition itoa :: "u32 \<Rightarrow> u64 \<Rightarrow> mem \<Rightarrow> mem option" where
  "itoa n s m =
     (let n' = (if sint n < 0 then sint (- n) else sint n);
          (i, m1) = itoa_digits n' s 0 m;
          (i', m2) = (if sint n < 0 then (Suc i, m1(s + of_nat i := 45)) else (i, m1))
      in itoa_reverse s (m2(s + of_nat i' := 0)))"

section \<open>Keyboard (kutils.c)\<close>

definition bytes_of :: "string \<Rightarrow> u8 list" where
  "bytes_of cs = map (\<lambda>c. of_nat (of_char c)) cs"

definition scanmap_set1 :: "u8 list" where
  "scanmap_set1 =
     [0, 0] @ bytes_of ''1234567890-='' @ [8, 9] @
     bytes_of ''qwertyuiop[]'' @ [10, 0] @ bytes_of ''as'' @
     bytes_of ''dfghjkl;'' @ [39] @ bytes_of ''`'' @ [0, 92] @ bytes_of ''zxcv'' @
     bytes_of ''bnm,./'' @ [0] @ bytes_of ''*'' @ [0, 32] @ replicate 6 0 @ replicate 64 0"

definition scanmap_set1_upper :: "u8 list" where
  "scanmap_set1_upper =
     [0, 0] @ bytes_of ''!@#$%^&*()_+'' @ [8, 9] @
     bytes_of ''QWERTYUIOP{}'' @ [10, 0] @ bytes_of ''AS'' @
     bytes_of ''DFGHJKL:'' @ [34] @ bytes_of ''~'' @ [0, 124] @ bytes_of ''ZXCV'' @
     bytes_of ''BNM<>?'' @ [0] @ bytes_of ''*'' @ [0, 32] @ replicate 6 0 @ replicate 64 0"

text \<open>The keyboard state is \<open>lshift_status\<close>.\<close>

definition is_lshift :: "u8 \<Rightarrow> bool \<Rightarrow> bool \<times> bool" where
  "is_lshift scancode lshift_status =
     (if scancode = 0xaa then (False, False)
      else if scancode = 0x2a then (True, True)
      else (False, lshift_status))"

definition print_kb :: "u8 \<Rightarrow> bool \<Rightarrow> u8 list" where
  "print_kb key lshift_status =
     (if key = 0x2a \<or> key = 0xaa \<or> key \<ge> 0x80 then []
      else
        (let c = (if lshift_status then scanmap_set1_upper ! unat key else scanmap_set1 ! unat key)
         in if c = 8 then [8, 32, 8] else [c]))"

definition ps2_keyboard_handler :: "u8 \<Rightarrow> bool \<Rightarrow> u8 list \<times> bool" where
  "ps2_keyboard_handler scancode lshift_status =
     (let (_, sh) = is_lshift scancode lshift_status in (print_kb scancode sh, sh))"

section \<open>Tar archives (kutils.c)\<close>

fun oct2bin_loop :: "mem \<Rightarrow> u64 \<Rightarrow> nat \<Rightarrow> u32 \<Rightarrow> u32" where
  "oct2bin_loop m c 0 n = n"
| "oct2bin_loop m c (Suc k) n = oct2bin_loop m (c + 1) k (n * 8 + (ucast (m c) - 48))"

definition oct2bin :: "mem \<Rightarrow> u64 \<Rightarrow> u32 \<Rightarrow> u32" where
  "oct2bin m str sz = oct2bin_loop m str (nat (sint sz)) 0"

definition ustar :: "u8 list" where
  "ustar = bytes_of ''ustar''"

definition tar_step :: "u32 \<Rightarrow> u64" where
  "tar_step filesize = scast ((word_of_int (sint (filesize + 511) sdiv 512) + 1) * 512 :: u32)"

text \<open>The result is the file size and the data pointer, if the file was found.\<close>

partial_function (option) tar_lookup :: "mem \<Rightarrow> u64 \<Rightarrow> u64 \<Rightarrow> (u32 \<times> u64 option) option" where
  "tar_lookup m ptr filename =
     (if read_bytes m (ptr + 257) 5 = ustar then
        (let filesize = oct2bin m (ptr + 0x7c) 11 in
         Option.bind (kstrlen m filename) (\<lambda>l.
         if memcmp m ptr filename (l + 1) = 0 then Some (filesize, Some (ptr + 512))
         else tar_lookup m (ptr + tar_step filesize) filename))
      else Some (0, None))"

definition tar_lookup_bin :: "mem \<Rightarrow> u64 \<Rightarrow> u64 \<Rightarrow> (u32 \<times> u64 option) option" where
  "tar_lookup_bin m tarball filename = map_option (\<lambda>(ret, out). (ret + 1, out)) (tar_lookup m tarball filename)"

section \<open>Model specific registers (kutils.c)\<close>

text \<open>The register file maps a register to its high and low halves.\<close>

definition rdmsr :: "u32 \<Rightarrow> (u32 \<Rightarrow> u32 \<times> u32) \<Rightarrow> u64" where
  "rdmsr msr f = (let (high, low) = f msr in push_bit 32 (ucast high) OR ucast low)"

definition wrmsr :: "u32 \<Rightarrow> u64 \<Rightarrow> (u32 \<Rightarrow> u32 \<times> u32) \<Rightarrow> (u32 \<Rightarrow> u32 \<times> u32)" where
  "wrmsr msr val f = f(msr := (ucast (drop_bit 32 val), ucast val))"

section \<open>Decimal digits\<close>

text \<open>The decimal digits of a number, least significant first, and the value of a digit string.\<close>

fun dec_digits :: "nat \<Rightarrow> u8 list" where
  "dec_digits n = (if n = 0 then [] else of_nat (48 + n mod 10) # dec_digits (n div 10))"

declare dec_digits.simps [simp del]

definition digits_value :: "nat \<Rightarrow> u8 list \<Rightarrow> nat" where
  "digits_value b ds = foldl (\<lambda>v d. b * v + (unat d - 48)) 0 ds"

definition is_digit :: "u8 \<Rightarrow> bool" where
  "is_digit d \<longleftrightarrow> 48 \<le> unat d \<and> unat d < 58"

lemma unat_digit: "d < 10 \<Longrightarrow> unat (of_nat (48 + d) :: u8) = 48 + d"
  by (rule unat_of_nat_small) simp

lemma dec_digits_value: "digits_value 10 (rev (dec_digits n)) = n"
proof (induction n rule: dec_digits.induct)
  case (1 n)
  show ?case
  proof (cases "n = 0")
    case False
    have "digits_value 10 (rev (dec_digits n)) = 10 * digits_value 10 (rev (dec_digits (n div 10))) + n mod 10"
      using False unat_digit [of "n mod 10"]
      by (subst dec_digits.simps) (simp add: digits_value_def del: of_nat_add)
    thus ?thesis using 1 False by simp
  qed (simp add: dec_digits.simps digits_value_def)
qed

lemma dec_digits_digit: "d \<in> set (dec_digits n) \<Longrightarrow> is_digit d"
proof (induction n rule: dec_digits.induct)
  case (1 n)
  thus ?case using unat_digit [of "n mod 10"]
    by (cases "n = 0") (auto simp: dec_digits.simps [of n] dec_digits.simps [of 0] is_digit_def simp del: of_nat_add)
qed

lemma dec_digits_length: "n < 10 ^ k \<Longrightarrow> length (dec_digits n) \<le> k"
proof (induction k arbitrary: n)
  case (Suc k)
  hence "n div 10 < 10 ^ k" by (auto simp: less_mult_imp_div_less mult.commute)
  thus ?case using Suc.IH by (subst dec_digits.simps) simp
qed (simp add: dec_digits.simps)

lemma dec_digits_last: "0 < n \<Longrightarrow> dec_digits n \<noteq> [] \<and> last (dec_digits n) \<noteq> 48"
proof (induction n rule: dec_digits.induct)
  case (1 n)
  show ?case
  proof (cases "n div 10 = 0")
    case True
    hence "n < 10" by (simp add: div_eq_0_iff)
    hence "unat (of_nat (48 + n mod 10) :: u8) \<noteq> 48" using unat_digit [of "n mod 10"] 1(2) by simp
    hence "(of_nat (48 + n mod 10) :: u8) \<noteq> 48" by (auto simp del: of_nat_add)
    thus ?thesis using 1(2) True by (simp add: dec_digits.simps [of n] dec_digits.simps [of 0] del: of_nat_add)
  next
    case False
    thus ?thesis using 1 by (simp add: dec_digits.simps [of n])
  qed
qed

section \<open>Writing and reversing bytes\<close>

definition put_bytes :: "u64 \<Rightarrow> u8 list \<Rightarrow> mem \<Rightarrow> mem" where
  "put_bytes p bs m = (\<lambda>a. if in_range p (length bs) a then bs ! unat (a - p) else m a)"

lemma put_bytes_Nil [simp]: "put_bytes p [] m = m"
  by (simp add: put_bytes_def)

lemma put_bytes_Cons:
  assumes "Suc (length bs) \<le> 2 ^ 64"
  shows "put_bytes (p + 1) bs (m(p := b)) = put_bytes p (b # bs) m"
proof
  fix a
  show "put_bytes (p + 1) bs (m(p := b)) a = put_bytes p (b # bs) m a"
  proof (cases "a = p")
    case True
    have "\<not> in_range (p + 1) (length bs) p" using assms by (simp add: in_range_def unsigned_minus_1_eq_mask mask_eq_exp_minus_1)
    thus ?thesis using True by (simp add: put_bytes_def in_range_def)
  next
    case False
    have "unat (a - p) = Suc (unat (a - (p + 1)))"
    proof -
      have "a - p \<noteq> 0" using False by simp
      hence "unat (a - p - 1) = unat (a - p) - 1" "0 < unat (a - p)"
        by (simp_all add: unat_minus_one unat_gt_0)
      thus ?thesis by (simp add: diff_diff_add)
    qed
    thus ?thesis using False by (simp add: put_bytes_def in_range_def)
  qed
qed

lemma utos_digits_spec:
  assumes "length (dec_digits (unat val)) < 2 ^ 64"
  shows "utos_digits val ptr m =
     (ptr + of_nat (length (dec_digits (unat val))), put_bytes ptr (dec_digits (unat val)) m)"
  using assms
proof (induction val ptr m rule: utos_digits.induct)
  case (1 val ptr m)
  show ?case
  proof (cases "val > 0")
    case True
    hence n: "unat val \<noteq> 0" by (simp add: word_less_nat_alt)
    have d: "(48 + ucast (val mod 10) :: u8) = of_nat (48 + unat val mod 10)"
    proof -
      have "unat val mod 10 = unat (val mod 10)" by (simp add: unat_mod)
      thus ?thesis by simp
    qed
    have ds: "dec_digits (unat val) = of_nat (48 + unat val mod 10) # dec_digits (unat (val div 10))"
      using n by (subst dec_digits.simps) (simp add: unat_div)
    have "length (dec_digits (unat (val div 10))) < 2 ^ 64" using 1(2) ds by simp
    note IH = 1(1) [OF True this]
    have "utos_digits val ptr m = utos_digits (val div 10) (ptr + 1) (m(ptr := 48 + ucast (val mod 10)))"
      using True by (subst utos_digits.simps) simp
    also have "\<dots> = (ptr + 1 + of_nat (length (dec_digits (unat (val div 10)))),
        put_bytes ptr (dec_digits (unat val)) m)"
      unfolding IH using put_bytes_Cons [of "dec_digits (unat (val div 10))"] 1(2) by (simp add: ds d del: of_nat_add)
    finally show ?thesis by (simp add: ds algebra_simps)
  next
    case False
    hence "val = 0" using word_gt_0 by blast
    thus ?thesis by (simp add: utos_digits.simps dec_digits.simps)
  qed
qed

lemma swap_bytes_at:
  assumes "i < 2 ^ 64" "j < 2 ^ 64" "k < 2 ^ 64"
  shows "((m :: mem)(p + of_nat i := x, p + of_nat j := y)) (p + of_nat k) =
     (if k = j then y else if k = i then x else m (p + of_nat k))"
  using assms of_nat_inj_u64 [of k i] of_nat_inj_u64 [of k j] by auto

lemma utos_reverse_spec:
  assumes "no_wrap p n" "i + j + 1 = n" "i \<le> j + 1" "k < 2 ^ 64"
  shows "utos_reverse (p + of_nat i) (p + of_nat j) m (p + of_nat k) =
     (if i \<le> k \<and> k \<le> j then m (p + of_nat (n - 1 - k)) else m (p + of_nat k))"
  using assms
proof (induction "j - i" arbitrary: i j m rule: less_induct)
  case less
  have ij: "i < 2 ^ 64" "j < 2 ^ 64" and n: "n \<le> 2 ^ 64" "i < n" "j < n"
    using less.prems by (auto simp: no_wrap_def)
  have u: "unat (p + of_nat i) = unat p + i" "unat (p + of_nat j) = unat p + j"
    using less.prems(1) n by (simp_all add: unat_add_of_nat)
  show ?case
  proof (cases "i < j")
    case False
    hence "\<not> p + of_nat i < p + of_nat j" by (simp add: word_less_nat_alt u)
    hence "utos_reverse (p + of_nat i) (p + of_nat j) m = m" by (subst utos_reverse.simps) simp
    moreover have "n - 1 - k = k" if "i \<le> k" "k \<le> j" using that False less.prems(2) by auto
    ultimately show ?thesis by simp
  next
    case True
    let ?m = "m(p + of_nat i := m (p + of_nat j), p + of_nat j := m (p + of_nat i))"
    have "p + of_nat i < p + of_nat j" using True by (simp add: word_less_nat_alt u)
    moreover have "p + of_nat j - 1 = p + of_nat (j - 1)" using True by (simp add: of_nat_diff)
    moreover have "p + of_nat i + 1 = p + of_nat (Suc i)" by (simp add: algebra_simps)
    ultimately have step: "utos_reverse (p + of_nat i) (p + of_nat j) m = utos_reverse (p + of_nat (Suc i)) (p + of_nat (j - 1)) ?m"
      by (subst utos_reverse.simps) (simp only: Let_def if_True)
    have IH: "utos_reverse (p + of_nat (Suc i)) (p + of_nat (j - 1)) ?m (p + of_nat k) =
        (if Suc i \<le> k \<and> k \<le> j - 1 then ?m (p + of_nat (n - 1 - k)) else ?m (p + of_nat k))"
      by (rule less.hyps) (use True less.prems in auto)
    define f where "f = (\<lambda>x. m (p + of_nat x))"
    have m: "?m (p + of_nat x) = (if x = j then f i else if x = i then f j else f x)" if "x < 2 ^ 64" for x
      unfolding f_def by (rule swap_bytes_at [OF ij that])
    have "n - 1 - k < 2 ^ 64" using n by linarith
    hence "utos_reverse (p + of_nat i) (p + of_nat j) m (p + of_nat k) =
        (if Suc i \<le> k \<and> k \<le> j - 1
         then if n - 1 - k = j then f i else if n - 1 - k = i then f j else f (n - 1 - k)
         else if k = j then f i else if k = i then f j else f k)"
      by (simp only: step IH m less.prems(4))
    also have "\<dots> = (if i \<le> k \<and> k \<le> j then f (n - 1 - k) else f k)"
    proof -
      have "n - 1 - i = j" "n - 1 - j = i" using less.prems(2) by auto
      thus ?thesis using True less.prems(2) by auto
    qed
    finally show ?thesis by (simp only: f_def)
  qed
qed

lemma mem_eqI:
  assumes "\<And>k. k < 2 ^ 64 \<Longrightarrow> m (p + of_nat k) = m' (p + of_nat k)"
  shows "m = (m' :: mem)"
proof
  fix a
  have "a = p + of_nat (unat (a - p))" by simp
  thus "m a = m' a" using assms [of "unat (a - p)"] unat_u64_bound [of "a - p"] by simp
qed

lemma put_bytes_at:
  "k < 2 ^ 64 \<Longrightarrow> put_bytes p bs m (p + of_nat k) = (if k < length bs then bs ! k else m (p + of_nat k))"
  by (simp add: put_bytes_def in_range_def unat_of_nat_u64)

lemma read_put_bytes:
  assumes "length bs \<le> 2 ^ 64"
  shows "read_bytes (put_bytes p bs m) p (length bs) = bs"
  by (rule nth_equalityI) (use assms in \<open>simp_all add: nth_read_bytes put_bytes_at\<close>)

lemma put_bytes_snoc:
  assumes "length bs < 2 ^ 64"
  shows "(put_bytes p bs m)(p + of_nat (length bs) := b) = put_bytes p (bs @ [b]) m"
proof (rule mem_eqI [of _ p])
  fix k :: nat assume k: "k < 2 ^ 64"
  have "p + of_nat k = p + of_nat (length bs) \<longleftrightarrow> k = length bs" using of_nat_inj_u64 k assms by auto
  thus "((put_bytes p bs m)(p + of_nat (length bs) := b)) (p + of_nat k) = put_bytes p (bs @ [b]) m (p + of_nat k)"
    using k by (simp add: put_bytes_at nth_append)
qed

lemma utos_reverse_put:
  assumes "no_wrap p (length bs)" "bs \<noteq> []"
  shows "utos_reverse p (p + of_nat (length bs) - 1) (put_bytes p (bs @ [0]) m) = put_bytes p (rev bs @ [0]) m"
proof (rule mem_eqI [of _ p])
  fix k :: nat assume k: "k < 2 ^ 64"
  let ?n = "length bs"
  have n: "?n \<le> 2 ^ 64" "0 < ?n" using assms by (auto simp: no_wrap_def)
  have p0: "p + of_nat 0 = p" by simp
  have "of_nat (?n - 1) = (of_nat ?n - 1 :: u64)" 
    by (subst of_nat_diff) (use assms(2) in \<open>simp_all add: Suc_le_eq\<close>)
  hence "p + of_nat ?n - 1 = p + of_nat (?n - 1)" by simp
  hence "utos_reverse p (p + of_nat ?n - 1) = utos_reverse (p + of_nat 0) (p + of_nat (?n - 1))"
    unfolding p0 by (simp only:)
  moreover have "?n - 1 - k < 2 ^ 64" using n by auto
  ultimately have "utos_reverse p (p + of_nat ?n - 1) (put_bytes p (bs @ [0]) m) (p + of_nat k) =
      (if 0 \<le> k \<and> k \<le> ?n - 1 then put_bytes p (bs @ [0]) m (p + of_nat (?n - 1 - k))
       else put_bytes p (bs @ [0]) m (p + of_nat k))"
    using n k by (simp only:) (rule utos_reverse_spec [OF assms(1)], auto)
  also have "\<dots> = put_bytes p (rev bs @ [0]) m (p + of_nat k)"
  proof (cases "k < ?n")
    case True
    have "put_bytes p (bs @ [0]) m (p + of_nat (?n - 1 - k)) = bs ! (?n - 1 - k)"
      using n True by (subst put_bytes_at) (auto simp: nth_append)
    moreover have "put_bytes p (rev bs @ [0]) m (p + of_nat k) = rev bs ! k"
      using k True by (subst put_bytes_at) (auto simp: nth_append)
    moreover have "k \<le> ?n - 1" using True by linarith
    ultimately show ?thesis using True by (simp add: rev_nth del: of_nat_diff)
  next
    case False
    hence "\<not> k \<le> ?n - 1" using n by linarith
    thus ?thesis using k False by (simp add: put_bytes_at nth_append)
  qed
  finally show "utos_reverse p (p + of_nat ?n - 1) (put_bytes p (bs @ [0]) m) (p + of_nat k) =
      put_bytes p (rev bs @ [0]) m (p + of_nat k)" .
qed

definition dec_string :: "u64 \<Rightarrow> u8 list" where
  "dec_string val = (if val = 0 then [48] else rev (dec_digits (unat val)))"

lemma dec_string_length: "0 < length (dec_string val) \<and> length (dec_string val) \<le> 20"
proof -
  have "unat val < 10 ^ 20" by (rule less_le_trans [OF unsigned_less]) simp
  thus ?thesis using dec_digits_length [of "unat val" 20] dec_digits_last [of "unat val"]
    by (auto simp: dec_string_def unat_gt_0)
qed

lemma uint64_to_string_digits:
  assumes "no_wrap buffer 21"
  shows "uint64_to_string val buffer m = put_bytes buffer (dec_string val @ [0]) m"
proof -
  let ?ds = "rev (dec_string val)"
  have len: "length ?ds \<le> 20" "?ds \<noteq> []" using dec_string_length [of val] by auto
  have one: "m(buffer := 48) = put_bytes buffer [48] m"
    using put_bytes_Cons [of "[]" buffer m 48] by simp
  have "(if val = 0 then (buffer + 1, m(buffer := 48)) else utos_digits val buffer m) =
      (buffer + of_nat (length ?ds), put_bytes buffer ?ds m)"
    using len by (auto simp: utos_digits_spec one dec_string_def split: if_splits)
  hence "uint64_to_string val buffer m = utos_reverse buffer (buffer + of_nat (length ?ds) - 1)
      (put_bytes buffer (?ds @ [0]) m)"
    using put_bytes_snoc [of ?ds buffer m 0] len by (simp add: uint64_to_string_def)
  also have "\<dots> = put_bytes buffer (dec_string val @ [0]) m"
    using utos_reverse_put [of buffer ?ds m] assms len by (simp add: no_wrap_def)
  finally show ?thesis .
qed

section \<open>Archives\<close>

text \<open>A tar archive in memory, as the list of its files' names and sizes.\<close>

definition oct_field :: "u8 list \<Rightarrow> nat \<Rightarrow> bool" where
  "oct_field bs n \<longleftrightarrow> (\<forall>d\<in>set bs. 48 \<le> unat d \<and> unat d < 56) \<and> digits_value 8 bs = n"

definition tar_blocks :: "nat \<Rightarrow> u64" where
  "tar_blocks n = of_nat (512 * ((n + 511) div 512 + 1))"

fun tar_archive :: "mem \<Rightarrow> u64 \<Rightarrow> (u8 list \<times> nat) list \<Rightarrow> bool" where
  "tar_archive m p [] \<longleftrightarrow> read_bytes m (p + 257) 5 \<noteq> ustar"
| "tar_archive m p ((name, n) # es) \<longleftrightarrow> read_bytes m (p + 257) 5 = ustar \<and>
     0 \<notin> set name \<and> read_bytes m p (Suc (length name)) = name @ [0] \<and>
     n < 2 ^ 31 - 1024 \<and> oct_field (read_bytes m (p + 0x7c) 11) n \<and> tar_archive m (p + tar_blocks n) es"

fun tar_find :: "u64 \<Rightarrow> (u8 list \<times> nat) list \<Rightarrow> u8 list \<Rightarrow> u32 \<times> u64 option" where
  "tar_find p [] f = (0, None)"
| "tar_find p ((name, n) # es) f =
     (if name = f then (of_nat n, Some (p + 512)) else tar_find (p + tar_blocks n) es f)"

lemma oct2bin_loop_value:
  assumes "\<forall>d\<in>set (read_bytes m c k). 48 \<le> unat d"
  shows "oct2bin_loop m c k (of_nat v) = of_nat (foldl (\<lambda>v d. 8 * v + (unat d - 48)) v (read_bytes m c k))"
  using assms
proof (induction k arbitrary: c v)
  case (Suc k)
  let ?v = "8 * v + (unat (m c) - 48)"
  have "(of_nat v * 8 + (ucast (m c) - 48) :: u32) = of_nat ?v"
    using Suc.prems by (simp add: of_nat_diff)
  moreover have "\<forall>d\<in>set (read_bytes m (c + 1) k). 48 \<le> unat d" using Suc.prems by simp
  note Suc.IH [OF this, of ?v]
  ultimately show ?case by (simp only: oct2bin_loop.simps read_bytes.simps foldl_Cons)
qed simp

lemma oct2bin_field:
  assumes "oct_field (read_bytes m c 11) n"
  shows "oct2bin m c 11 = of_nat n"
proof -
  have "nat (sint (11 :: u32)) = 11" by simp
  thus ?thesis using assms oct2bin_loop_value [of m c 11 0]
    by (simp add: oct2bin_def oct_field_def digits_value_def del: read_bytes.simps)
qed

lemma tar_step_blocks:
  assumes "n < 2 ^ 31 - 1024"
  shows "tar_step (of_nat n) = tar_blocks n"
proof -
  have s: "sint (of_nat k :: u32) = int k" if "k < 2 ^ 31" for k
    using that by (simp add: signed_of_nat signed_take_bit_int_eq_self)
  let ?q = "(n + 511) div 512"
  have "sint (of_nat n + 511 :: u32) = int (n + 511)" using s [of "n + 511"] assms by simp
  hence "sint (of_nat n + 511 :: u32) sdiv 512 = int ?q"
    by (simp add: signed_divide_int_def zdiv_int)
  hence "(word_of_int (sint (of_nat n + 511 :: u32) sdiv 512) + 1) * 512 = (of_nat (512 * (?q + 1)) :: u32)"
    by (simp add: algebra_simps)
  moreover have "512 * (?q + 1) < 2 ^ 31"
    using assms div_times_less_eq_dividend [of "n + 511" 512] by simp
  ultimately have "tar_step (of_nat n) = word_of_int (int (512 * (?q + 1)))"
    unfolding tar_step_def by (simp only: scast_eq s)
  thus ?thesis by (simp add: tar_blocks_def)
qed

lemma kstrlen_cstr:
  assumes "cstr m p n" "p \<noteq> NULL"
  shows "kstrlen m p = Some (of_nat n)"
proof -
  have "kstrlen_loop m p (of_nat i) = Some (of_nat n)" if "i \<le> n" for i
    using that
  proof (induction "n - i" arbitrary: i)
    case 0
    thus ?case using assms(1) by (subst kstrlen_loop.simps) (simp add: cstr_def)
  next
    case (Suc k)
    hence "kstrlen_loop m p (of_nat (Suc i)) = Some (of_nat n)" by (intro Suc.hyps) auto
    thus ?case using assms(1) Suc by (subst kstrlen_loop.simps) (simp add: cstr_def add.commute)
  qed
  from this [of 0] show ?thesis using assms(2) by (simp add: kstrlen_def)
qed

lemma read_cstr:
  assumes "read_bytes m p (Suc (length f)) = f @ [0]" "0 \<notin> set f" "length f < 2 ^ 64"
  shows "cstr m p (length f)"
proof -
  have nth: "m (p + of_nat i) = (f @ [0]) ! i" if "i < Suc (length f)" for i
    using nth_read_bytes [OF that, of m p] assms(1) by simp
  have "m (p + of_nat i) \<noteq> 0" if "i < length f" for i
    using nth [of i] that assms(2) by (auto simp: nth_append in_set_conv_nth)
  moreover have "m (p + of_nat (length f)) = 0" using nth [of "length f"] by (simp add: nth_append)
  ultimately show ?thesis using assms(3) by (simp add: cstr_def)
qed

lemma same_cstr:
  assumes "read_bytes m p (Suc (length name)) = name @ [0]" "0 \<notin> set name"
    and "read_bytes m p (Suc (length f)) = f @ [0]" "0 \<notin> set f"
  shows "name = f"
proof -
  have e: "(name @ [0]) ! i = (f @ [0]) ! i" if "i \<le> length name" "i \<le> length f" for i
    using nth_read_bytes [of i "Suc (length name)" m p] nth_read_bytes [of i "Suc (length f)" m p]
      assms(1,3) that by (simp del: read_bytes.simps)
  have "length name = length f"
    using e [of "min (length name) (length f)"] assms(2,4)
    by (cases "length name" "length f" rule: linorder_cases) (auto simp: nth_append in_set_conv_nth)
  thus ?thesis using assms(1,3) by simp
qed

section \<open>Properties\<close>

text \<open>C38: \<open>uint64_to_string\<close> writes the decimal notation of its argument: a zero-terminated string
  of at most 20 digits without leading zeros whose value is the argument, and no byte outside the
  string and its terminator changes.\<close>
theorem uint64_to_string_prints_decimal:
  assumes "no_wrap buffer 21"
  shows "\<exists>ds. length ds \<le> 20 \<and> (\<forall>d\<in>set ds. is_digit d) \<and> (val \<noteq> 0 \<longrightarrow> hd ds \<noteq> 48) \<and> digits_value 10 ds = unat val \<and>
     read_bytes (uint64_to_string val buffer m) buffer (length ds + 1) = ds @ [0] \<and>
     (\<forall>a. \<not> in_range buffer (length ds + 1) a \<longrightarrow> uint64_to_string val buffer m a = m a)"
proof (intro exI conjI)
  let ?ds = "dec_string val"
  show len: "length ?ds \<le> 20" using dec_string_length by simp
  show "\<forall>d\<in>set ?ds. is_digit d"
    using dec_digits_digit by (auto simp: dec_string_def is_digit_def split: if_splits)
  show "val \<noteq> 0 \<longrightarrow> hd ?ds \<noteq> 48"
    using dec_digits_last [of "unat val"] by (auto simp: dec_string_def hd_rev unat_gt_0)
  show "digits_value 10 ?ds = unat val"
    using dec_digits_value by (auto simp: dec_string_def digits_value_def)
  show "read_bytes (uint64_to_string val buffer m) buffer (length ?ds + 1) = ?ds @ [0]"
    using read_put_bytes [of "?ds @ [0]" buffer m] len by (simp add: uint64_to_string_digits [OF assms])
  show "\<forall>a. \<not> in_range buffer (length ?ds + 1) a \<longrightarrow> uint64_to_string val buffer m a = m a"
    by (simp add: uint64_to_string_digits [OF assms] put_bytes_def)
qed

theorem uint64_to_string_prints_decimal_witness:
  "\<exists>ds. length ds \<le> 20 \<and> digits_value 10 ds = 1234 \<and>
     read_bytes (uint64_to_string 1234 0x1000 (\<lambda>_. 7)) 0x1000 (length ds + 1) = ds @ [0]"
proof -
  have "no_wrap 0x1000 21" by (simp add: no_wrap_def)
  from uint64_to_string_prints_decimal [OF this, of 1234 "\<lambda>_. 7"] show ?thesis by auto
qed

text \<open>C39: \<open>tar_lookup\<close> reads ustar archives.  For an archive in memory that holds the files \<open>es\<close> it
  returns, for every name, the size and data address of the first file with exactly that name,
  and 0 and no address when there is none.\<close>
theorem tar_lookup_finds_file:
  assumes "tar_archive m archive es" "read_bytes m filename (Suc (length f)) = f @ [0]" "0 \<notin> set f"
    "filename \<noteq> NULL" "length f < 2 ^ 63"
  shows "tar_lookup m archive filename = Some (tar_find archive es f)"
  using assms(1)
proof (induction es arbitrary: archive)
  case Nil
  thus ?case by (subst tar_lookup.simps) simp
next
  case (Cons e es)
  obtain name n where e: "e = (name, n)" by fastforce
  have "cstr m filename (length f)" using assms by (intro read_cstr) auto
  hence l: "kstrlen m filename = Some (of_nat (length f))" by (rule kstrlen_cstr [OF _ assms(4)])
  have "unat (of_nat (Suc (length f)) :: u64) = Suc (length f)"
    by (rule unat_of_nat_u64) (use assms(5) in simp)
  hence "unat (of_nat (length f) + 1 :: u64) = Suc (length f)" by (simp add: add.commute)
  hence "memcmp m archive filename (of_nat (length f) + 1) = 0 \<longleftrightarrow> read_bytes m archive (Suc (length f)) = f @ [0]"
    using assms(2) by (simp add: memcmp_0_iff del: read_bytes.simps)
  also have "\<dots> \<longleftrightarrow> name = f"
    using Cons.prems same_cstr [of m archive name f] assms(3) by (auto simp: e simp del: read_bytes.simps)
  finally have eq: "memcmp m archive filename (of_nat (length f) + 1) = 0 \<longleftrightarrow> name = f" .
  have sz: "oct2bin m (archive + 0x7c) 11 = of_nat n" "tar_step (of_nat n) = tar_blocks n"
    using Cons.prems by (simp_all add: e oct2bin_field tar_step_blocks del: read_bytes.simps)
  show ?case using Cons by (subst tar_lookup.simps) (simp add: e l eq sz del: read_bytes.simps)
qed

definition sample_tar :: mem where
  "sample_tar = (\<lambda>_. 0)(0x10000 := 97, 0x1007c := 48, 0x1007d := 48, 0x1007e := 48, 0x1007f := 48, 0x10080 := 48,
     0x10081 := 48, 0x10082 := 48, 0x10083 := 48, 0x10084 := 48, 0x10085 := 48, 0x10086 := 53,
     0x10101 := 117, 0x10102 := 115, 0x10103 := 116, 0x10104 := 97, 0x10105 := 114, 0x9000 :=
     97)"

theorem tar_lookup_finds_file_witness:
  "tar_lookup sample_tar 0x10000 0x9000 = Some (5, Some 0x10200)"
proof -
  have b: "tar_blocks 5 = 1024" by (simp add: tar_blocks_def)
  have "read_bytes sample_tar (0x10000 + 257) 5 = ustar" "read_bytes sample_tar (0x10000 + 1024 + 257) 5 \<noteq> ustar"
    "read_bytes sample_tar 0x10000 (Suc (length (bytes_of ''a''))) = bytes_of ''a'' @ [0]"
    "oct_field (read_bytes sample_tar (0x10000 + 0x7c) 11) 5" "0 \<notin> set (bytes_of ''a'')" by code_simp+
  hence "tar_archive sample_tar 0x10000 [(bytes_of ''a'', 5)]"
    by (simp only: tar_archive.simps b) simp
  moreover have "read_bytes sample_tar 0x9000 (Suc (length (bytes_of ''a''))) = bytes_of ''a'' @ [0]" by code_simp
  moreover have "0 \<notin> set (bytes_of ''a'')" "length (bytes_of ''a'') < 2 ^ 63" by (simp_all add: bytes_of_def)
  ultimately have "tar_lookup sample_tar 0x10000 0x9000 = Some (tar_find 0x10000 [(bytes_of ''a'', 5)] (bytes_of ''a''))"
    by (intro tar_lookup_finds_file) simp_all
  thus ?thesis by simp
qed

end
