(* ===== verification/Timers.thy ===== *)
theory Timers
  imports Loader Kutils "HOL-Library.Monad_Syntax"
begin

text \<open>
  Interrupt controllers and clocks: the ACPI tables and the local APIC (apic.c, apic.h), the
  I/O APIC (ioapic.c, ioapic.h), the HPET (hpet.c), the time stamp counter (tsc.c) and the interrupt
  handlers that acknowledge them (idt.c).  A memory-mapped register holds the value last written to
  it, and the sequence of writes is kept, latest first; what a device counts by itself (time stamps,
  the HPET and local APIC counters, whether a timer interrupt arrives) is an argument.  Registers
  are addressed by 32 bits, as the code computes their addresses.  Arrays indexed by the APIC id have
  \<open>NUM_CORES\<close> elements; the model has no value for an access outside them, for a division by zero and
  for a NULL table.  Console output is left out, and uACPI, which finds the tables, is an argument.
\<close>

section \<open>State\<close>

definition NUM_CORES :: nat where
  "NUM_CORES = 64"

record HPET_registers =
  capabilities :: u64
  configuration :: u64
  main_counter :: u64

record ioapic_reg_t =
  rt_vector :: u8
  delivery_mode :: u32
  destination_mode :: bool
  delivery_status :: bool
  pin_polarity :: bool
  remote_irr :: bool
  trigger_mode :: bool
  rt_mask :: bool
  destination :: u8

record devices = kernel +
  ACPI_MADT :: u64
  ACPI_HPET :: u64
  mmio :: "u32 \<Rightarrow> u32"
  mmio_writes :: "(u32 \<times> u32) list"
  port_writes :: "(u16 \<times> u8) list"
  msr_file :: "u32 \<Rightarrow> u32 \<times> u32"
  hpet_regs :: u64
  hpet_device :: HPET_registers
  lapic_timer_converted :: "u64 list"
  sleep_locks :: "u32 list"
  tsc_freq :: u64

definition mmio_store :: "u32 \<Rightarrow> u32 \<Rightarrow> 'a devices_scheme \<Rightarrow> 'a devices_scheme" where
  "mmio_store a v s = s\<lparr>mmio := (mmio s)(a := v), mmio_writes := (a, v) # mmio_writes s\<rparr>"

section \<open>Ports and the legacy interrupt controller (apic.c)\<close>

definition outb :: "u16 \<Rightarrow> u8 \<Rightarrow> 'a devices_scheme \<Rightarrow> 'a devices_scheme" where
  "outb port val s = s\<lparr>port_writes := (port, val) # port_writes s\<rparr>"

definition pic_disable :: "'a devices_scheme \<Rightarrow> 'a devices_scheme" where
  "pic_disable s = outb (0xA0 + 1) 0xff (outb (0x20 + 1) 0xff s)"

section \<open>ACPI tables (apic.c, apic.h)\<close>

definition MADT_lapic_addr :: "mem \<Rightarrow> u64 \<Rightarrow> u32" where
  "MADT_lapic_addr m p = load32 m (p + 36)"

definition HPET_address :: "mem \<Rightarrow> u64 \<Rightarrow> u64" where
  "HPET_address m p = load64 m (p + 44)"

definition byte_sum :: "mem \<Rightarrow> u64 \<Rightarrow> nat \<Rightarrow> u8" where
  "byte_sum m p n = fold (\<lambda>i c. c + m (p + of_nat i)) [0..<n] 0"

text \<open>The validations print a checksum that is not zero; nothing else depends on it.\<close>

definition complaint :: "u8 \<Rightarrow> u8 option" where
  "complaint checksum = (if checksum \<noteq> 0 then Some checksum else None)"

definition validate_sdt :: "mem \<Rightarrow> u64 \<Rightarrow> u8 option" where
  "validate_sdt m pSDT = complaint (byte_sum m pSDT (unat (load32 m (pSDT + 4))))"

definition validate_rsdp :: "mem \<Rightarrow> u64 \<Rightarrow> u8 option" where
  "validate_rsdp m pRSDP = complaint (byte_sum m pRSDP 20)"

definition validate_xsdp :: "mem \<Rightarrow> u64 \<Rightarrow> u8 option" where
  "validate_xsdp m pXSDP = complaint (byte_sum m pXSDP 36)"

definition parse_sdt :: "u64 \<Rightarrow> 'a devices_scheme \<Rightarrow> 'a devices_scheme" where
  "parse_sdt pSDT s =
     (let s1 = (if read_bytes (kmem s) pSDT 4 = bytes_of ''APIC'' then s\<lparr>ACPI_MADT := pSDT\<rparr> else s)
      in if read_bytes (kmem s) pSDT 4 = bytes_of ''HPET'' then s1\<lparr>ACPI_HPET := pSDT\<rparr> else s1)"

definition xsdt_entries :: "mem \<Rightarrow> u64 \<Rightarrow> u64 list" where
  "xsdt_entries m pXSDT =
     map (\<lambda>i. load64 m (pXSDT + 36 + of_nat (8 * i)))
       [0..<unat ((ucast (load32 m (pXSDT + 4)) - 36 :: u64) div 8)]"

definition rsdt_entries :: "mem \<Rightarrow> u64 \<Rightarrow> u64 list" where
  "rsdt_entries m pRSDT =
     map (\<lambda>i. ucast (load32 m (pRSDT + 36 + of_nat (4 * i))))
       [0..<unat ((ucast (load32 m (pRSDT + 4)) - 36 :: u64) div 4)]"

definition acpi_parse_rsdp :: "u64 \<Rightarrow> 'a devices_scheme \<Rightarrow> 'a devices_scheme option" where
  "acpi_parse_rsdp pRSDP s =
     (if kmem s (pRSDP + 15) > 0 then
        (let xsdt = load64 (kmem s) (pRSDP + 24) in
         do {
           (_, s1) \<leftarrow> map_page (pml4_address_virt_glob s) xsdt xsdt 3 s;
           let pXSDT = load64 (kmem s1) (pRSDP + 24);
           Some (fold parse_sdt (xsdt_entries (kmem s1) pXSDT) s1)
         })
      else
        (let rsdt = ucast (load32 (kmem s) (pRSDP + 16)) in
         do {
           (_, s1) \<leftarrow> map_page (pml4_address_virt_glob s) rsdt rsdt 3 s;
           let pRSDT = ucast (load32 (kmem s1) (pRSDP + 16));
           Some (fold parse_sdt (rsdt_entries (kmem s1) pRSDT) s1)
         }))"

text \<open>\<open>madt\<close> and \<open>hpet\<close> are the tables uACPI finds; printing their fields dereferences them.\<close>

definition uacpi_init :: "u64 \<Rightarrow> u64 \<Rightarrow> 'a devices_scheme \<Rightarrow> 'a devices_scheme option" where
  "uacpi_init madt hpet s =
     (if madt = NULL \<or> hpet = NULL then None else Some (s\<lparr>ACPI_MADT := madt, ACPI_HPET := hpet\<rparr>))"

section \<open>Local APIC (apic.c)\<close>

definition lapic_reg :: "u32 \<Rightarrow> 'a devices_scheme \<Rightarrow> u32 option" where
  "lapic_reg offset s =
     (if ACPI_MADT s = NULL then None else Some (MADT_lapic_addr (kmem s) (ACPI_MADT s) + offset))"

definition lapic_write :: "u32 \<Rightarrow> u32 \<Rightarrow> 'a devices_scheme \<Rightarrow> 'a devices_scheme option" where
  "lapic_write offset v s = map_option (\<lambda>a. mmio_store a v s) (lapic_reg offset s)"

definition lapic_read :: "u32 \<Rightarrow> 'a devices_scheme \<Rightarrow> u32 option" where
  "lapic_read offset s = map_option (mmio s) (lapic_reg offset s)"

text \<open>The index \<open>(*lapic_id) >> 24\<close> of the running core in the per-core arrays.\<close>

definition core_index :: "'a devices_scheme \<Rightarrow> nat option" where
  "core_index s = do {
     v \<leftarrow> lapic_read 0x20 s;
     let i = unat (drop_bit 24 v);
     if i < NUM_CORES then Some i else None
   }"

definition ms_to_count :: "u64 \<Rightarrow> u64 \<Rightarrow> u32" where
  "ms_to_count ms converted = ucast (ms * converted div 1000)"

definition write_ms_count :: "u64 \<Rightarrow> 'a devices_scheme \<Rightarrow> 'a devices_scheme option" where
  "write_ms_count ms s = do {
     i \<leftarrow> core_index s;
     lapic_write 0x380 (ms_to_count ms (lapic_timer_converted s ! i)) s
   }"

definition lapic_oneshot :: "u64 \<Rightarrow> u8 \<Rightarrow> u8 \<Rightarrow> bool \<Rightarrow> 'a devices_scheme \<Rightarrow> 'a devices_scheme option" where
  "lapic_oneshot ms vector divider ms_or_ticks s = do {
     s1 \<leftarrow> lapic_write 0x3e0 (ucast divider) s;
     s2 \<leftarrow> lapic_write 0x320 (0 OR ucast vector) s1;
     if \<not> ms_or_ticks then write_ms_count ms s2 else lapic_write 0x380 (ucast ms) s2
   }"

definition lapic_periodic :: "u64 \<Rightarrow> u8 \<Rightarrow> u8 \<Rightarrow> bool \<Rightarrow> 'a devices_scheme \<Rightarrow> 'a devices_scheme option" where
  "lapic_periodic ms vector divider ms_or_ticks s = do {
     s1 \<leftarrow> lapic_write 0x3e0 (ucast divider) s;
     s2 \<leftarrow> lapic_write 0x320 (0x20000 OR ucast vector) s1;
     if \<not> ms_or_ticks then write_ms_count ms s2 else lapic_write 0x380 (ucast ms) s2
   }"

section \<open>Time stamp counter (tsc.c)\<close>

definition ONE_SECOND :: u64 where
  "ONE_SECOND = 1000000000"

definition tsc_ticks_to_ns :: "u64 \<Rightarrow> 'a devices_scheme \<Rightarrow> u64 option" where
  "tsc_ticks_to_ns ticks s =
     (let quot = ticks div tsc_freq s; remainder = ticks mod tsc_freq s in
      if tsc_freq s = 0 then None
      else Some (quot * ONE_SECOND + remainder * ONE_SECOND div tsc_freq s))"

definition tsc_ns_to_ticks :: "u64 \<Rightarrow> 'a devices_scheme \<Rightarrow> u64" where
  "tsc_ns_to_ticks time s = tsc_freq s * time div ONE_SECOND"

text \<open>The argument is the value of the counter, as \<open>rdtsc\<close> puts it together from two registers.\<close>

definition rdtsc :: "u32 \<Rightarrow> u32 \<Rightarrow> u64" where
  "rdtsc low high = push_bit 32 (ucast high) OR ucast low"

definition tsc_read_ns :: "u64 \<Rightarrow> 'a devices_scheme \<Rightarrow> u64 option" where
  "tsc_read_ns ticks s = tsc_ticks_to_ns ticks s"

definition tsc_read_ms :: "u64 \<Rightarrow> 'a devices_scheme \<Rightarrow> u64 option" where
  "tsc_read_ms ticks s = map_option (\<lambda>t. t div 1000000) (tsc_read_ns ticks s)"

definition tsc_read_s :: "u64 \<Rightarrow> 'a devices_scheme \<Rightarrow> u64 option" where
  "tsc_read_s ticks s = map_option (\<lambda>t. t div 1000) (tsc_read_ms ticks s)"

section \<open>Interrupt handlers (idt.c)\<close>

definition apic_tick_handler :: "'a devices_scheme \<Rightarrow> 'a devices_scheme option" where
  "apic_tick_handler s = lapic_write 0xb0 0 s"

definition sleep_handler :: "'a devices_scheme \<Rightarrow> 'a devices_scheme option" where
  "sleep_handler s = do {
     i \<leftarrow> core_index s;
     lapic_write 0xb0 0 (s\<lparr>sleep_locks := (sleep_locks s)[i := 0]\<rparr>)
   }"

definition thread_handler :: "'a devices_scheme \<Rightarrow> 'a devices_scheme option" where
  "thread_handler s = lapic_write 0xb0 0 s"

text \<open>The time is read, which divides by the frequency; the loop over the ready queue leaves at
  its first statement.\<close>

definition thread_sleep_handler :: "u64 \<Rightarrow> 'a devices_scheme \<Rightarrow> 'a devices_scheme option" where
  "thread_sleep_handler ticks s = do {
     s1 \<leftarrow> lapic_write 0xb0 0 s;
     _ \<leftarrow> tsc_read_ns ticks s1;
     Some s1
   }"

section \<open>Waiting (apic.c) and the frequency of the time stamp counter (tsc.c)\<close>

text \<open>\<open>turns\<close> says in which turn of the waiting loop the timer interrupt arrives, \<open>early\<close> whether it
  arrives after the count is written and before the lock is set.  An interrupt is taken only while
  interrupts are enabled.\<close>

definition timer_interrupt :: "bool \<Rightarrow> 'a devices_scheme \<Rightarrow> 'a devices_scheme option" where
  "timer_interrupt arrives s = (if arrives \<and> irq_enabled s then sleep_handler s else Some s)"

fun kpass_wait :: "bool list \<Rightarrow> 'a devices_scheme \<Rightarrow> 'a devices_scheme option" where
  "kpass_wait [] s =
     Option.bind (core_index s) (\<lambda>i. if sleep_locks s ! i = 0 then Some s else None)"
| "kpass_wait (t # turns) s =
     Option.bind (core_index s) (\<lambda>i. if sleep_locks s ! i = 0 then Some s
       else Option.bind (timer_interrupt t s) (kpass_wait turns))"

definition kpass :: "u64 \<Rightarrow> bool \<Rightarrow> bool list \<Rightarrow> 'a devices_scheme \<Rightarrow> 'a devices_scheme option" where
  "kpass ms early turns s = do {
     s1 \<leftarrow> lapic_write 0x3e0 3 s;
     s2 \<leftarrow> lapic_write 0x320 0x42 s1;
     s3 \<leftarrow> write_ms_count ms s2;
     s4 \<leftarrow> timer_interrupt early s3;
     i \<leftarrow> core_index s4;
     kpass_wait turns (s4\<lparr>sleep_locks := (sleep_locks s4)[i := 1]\<rparr>)
   }"

definition tsc_init :: "u64 \<Rightarrow> u64 \<Rightarrow> bool \<Rightarrow> bool list \<Rightarrow> 'a devices_scheme \<Rightarrow> 'a devices_scheme option" where
  "tsc_init tsc_start tsc_end early turns s = do {
     s1 \<leftarrow> kpass 10 early turns s;
     Some (s1\<lparr>tsc_freq := (tsc_end - tsc_start) * 100\<rparr>)
   }"

section \<open>HPET (hpet.c)\<close>

definition hpet_get_elapsed_ns :: "HPET_registers \<Rightarrow> u64" where
  "hpet_get_elapsed_ns r = main_counter r * (drop_bit 32 (capabilities r) div 1000000)"

definition hpet_reset :: "'a devices_scheme \<Rightarrow> 'a devices_scheme option" where
  "hpet_reset s =
     (if hpet_regs s = NULL then None
      else Some (s\<lparr>hpet_device := (hpet_device s)\<lparr>main_counter := 0\<rparr>\<rparr>))"

definition hpet_setup :: "u64 \<Rightarrow> 'a devices_scheme \<Rightarrow> 'a devices_scheme option" where
  "hpet_setup addr s = do {
     (_, s1) \<leftarrow> map_page (pml4_address_virt_glob s) addr addr 3 s;
     Some (s1\<lparr>hpet_regs := addr, hpet_device := (hpet_device s1)\<lparr>configuration := 1\<rparr>\<rparr>)
   }"

definition hpet_init :: "'a devices_scheme \<Rightarrow> 'a devices_scheme option" where
  "hpet_init s =
     (if ACPI_HPET s = NULL then None else hpet_setup (HPET_address (kmem s) (ACPI_HPET s)) s)"

section \<open>Calibration of the local APIC timer (apic.c)\<close>

text \<open>What the counters show before and after the loop that passes the time.\<close>

record calibration =
  hpet_before :: u64
  hpet_after :: u64
  lapic_before :: u32
  lapic_after :: u32

definition enable_lapic :: "'a devices_scheme \<Rightarrow> 'a devices_scheme option" where
  "enable_lapic s = do {
     let s1 = s\<lparr>msr_file := wrmsr 0x1b (rdmsr 0x1b (msr_file s) OR 0x800) (msr_file s)\<rparr>;
     a \<leftarrow> lapic_reg 0 s1;
     (_, s2) \<leftarrow> map_page (pml4_address_virt_glob s1) (ucast a) (ucast a) 3 s1;
     svr \<leftarrow> lapic_read 0xf0 s2;
     lapic_write 0xf0 (svr OR 0x100) s2
   }"

definition timer_ticks :: "calibration \<Rightarrow> HPET_registers \<Rightarrow> u64 option" where
  "timer_ticks c r =
     (let count_difference = ucast (lapic_before c) - ucast (lapic_after c);
          hpet_difference = hpet_get_elapsed_ns (r\<lparr>main_counter := hpet_after c\<rparr>) -
            hpet_get_elapsed_ns (r\<lparr>main_counter := hpet_before c\<rparr>)
      in if hpet_difference = 0 then None
         else Some (1000000000000000 div hpet_difference * count_difference div 1000000))"

definition calibrate_timer :: "calibration \<Rightarrow> 'a devices_scheme \<Rightarrow> 'a devices_scheme option" where
  "calibrate_timer c s = do {
     s1 \<leftarrow> hpet_reset s;
     s2 \<leftarrow> lapic_write 0xb0 0 s1;
     s3 \<leftarrow> lapic_write 0x3e0 3 s2;
     s4 \<leftarrow> lapic_write 0x320 0x40 s3;
     s5 \<leftarrow> lapic_write 0x380 0xffffffff s4;
     s6 \<leftarrow> lapic_write 0x380 0 s5;
     s7 \<leftarrow> lapic_write 0xb0 0 s6;
     n \<leftarrow> timer_ticks c (hpet_device s7);
     i \<leftarrow> core_index s7;
     lapic_write 0x380 0 (s7\<lparr>lapic_timer_converted := (lapic_timer_converted s7)[i := n]\<rparr>)
   }"

definition init_bsp_lapic :: "u64 \<Rightarrow> u64 \<Rightarrow> calibration \<Rightarrow> 'a devices_scheme \<Rightarrow> 'a devices_scheme option" where
  "init_bsp_lapic madt hpet c s = do {
     s1 \<leftarrow> uacpi_init madt hpet s;
     s2 \<leftarrow> enable_lapic s1;
     s3 \<leftarrow> lapic_write 0x3e0 3 s2;
     s4 \<leftarrow> hpet_init s3;
     calibrate_timer c s4
   }"

definition init_ap_lapic :: "u64 \<Rightarrow> u64 \<Rightarrow> calibration \<Rightarrow> 'a devices_scheme \<Rightarrow> 'a devices_scheme option" where
  "init_ap_lapic madt hpet c s = do {
     s1 \<leftarrow> uacpi_init madt hpet s;
     s2 \<leftarrow> enable_lapic s1;
     calibrate_timer c s2
   }"

section \<open>I/O APIC (ioapic.c)\<close>

definition ioapic_base :: u32 where
  "ioapic_base = 0xfec00000"

definition keyboard_redtbl :: ioapic_reg_t where
  "keyboard_redtbl = \<lparr>rt_vector = 224, delivery_mode = 0, destination_mode = False,
     delivery_status = False, pin_polarity = False, remote_irr = False, trigger_mode = False,
     rt_mask = False, destination = 0\<rparr>"

definition redtbl_low :: "ioapic_reg_t \<Rightarrow> u32" where
  "redtbl_low r = (ucast (rt_vector r) AND 0xFF) OR push_bit 8 (delivery_mode r) OR
     push_bit 11 (of_bool (destination_mode r)) OR push_bit 12 (ucast (destination r)) OR
     push_bit 13 (of_bool (delivery_status r)) OR push_bit 14 (of_bool (pin_polarity r)) OR
     push_bit 15 (of_bool (trigger_mode r)) OR push_bit 16 (of_bool (rt_mask r))"

definition init_ioapic :: "'a devices_scheme \<Rightarrow> 'a devices_scheme option" where
  "init_ioapic s = do {
     (_, s1) \<leftarrow> map_page (pml4_address_virt_glob s) (ucast ioapic_base) (ucast ioapic_base) 3 s;
     let irq = 1;
     let s2 = mmio_store ioapic_base (0x10 + irq * 2) s1;
     let s3 = mmio_store (ioapic_base + 0x10) (redtbl_low keyboard_redtbl) s2;
     let s4 = mmio_store ioapic_base (0x10 + irq * 2 + 1) s3;
     Some (mmio_store (ioapic_base + 0x10) (push_bit 24 (ucast (destination keyboard_redtbl))) s4)
   }"

definition find_ioapic :: u64 where
  "find_ioapic = NULL"

section \<open>Conversions\<close>

lemma scaled_quotient: "(0 :: nat) < f \<Longrightarrow> t * n div f = t div f * n + t mod f * n div f"
proof -
  assume "0 < f"
  have "t * n = (t div f * n) * f + t mod f * n"
    by (subst div_mult_mod_eq [of t f, symmetric]) (simp only: distrib_right mult.assoc mult.commute [of n f])
  thus ?thesis using \<open>0 < f\<close> by (simp only: div_mult_self3 neq0_conv)
qed

lemma unat_ONE_SECOND [simp]: "unat ONE_SECOND = 10 ^ 9"
  by (simp add: ONE_SECOND_def)

text \<open>C37: \<open>tsc_ticks_to_ns\<close> is exact.  For every frequency up to 18.4 GHz at which the product with
  \<open>ONE_SECOND\<close> of a remainder cannot wrap around, and every time that fits into 64 bits, the split
  computation gives the whole nanoseconds of \<open>ticks * 10^9 / tsc_freq\<close>, although the product itself
  may be far beyond 64 bits.\<close>

theorem tsc_ticks_to_ns_exact:
  assumes "0 < tsc_freq s" "unat (tsc_freq s) \<le> 18446744073"
    and "unat ticks * 10 ^ 9 div unat (tsc_freq s) < 2 ^ 64"
  shows "map_option unat (tsc_ticks_to_ns ticks s) = Some (unat ticks * 10 ^ 9 div unat (tsc_freq s))"
proof -
  define f where "f = unat (tsc_freq s)"
  have f: "0 < f" "f \<le> 18446744073" using assms(1,2) by (auto simp: f_def word_less_nat_alt)
  note q = scaled_quotient [OF f(1), of "unat ticks" "10 ^ 9"]
  have "unat (ticks mod tsc_freq s) < f" using f(1) by (simp add: unat_mod f_def)
  hence m: "unat (ticks mod tsc_freq s * ONE_SECOND) = unat ticks mod f * 10 ^ 9"
    using f(2) by (subst unat_mult_no_wrap) (simp_all add: unat_mod f_def)
  have d: "unat (ticks div tsc_freq s * ONE_SECOND) = unat ticks div f * 10 ^ 9"
    using assms(3) q unfolding f_def [symmetric]
    by (subst unat_mult_no_wrap) (simp_all add: unat_div f_def [symmetric])
  have "unat (ticks div tsc_freq s * ONE_SECOND + ticks mod tsc_freq s * ONE_SECOND div tsc_freq s) =
      unat ticks * 10 ^ 9 div f"
    using assms(3) q unfolding f_def [symmetric]
    by (subst unat_add_no_wrap) (simp_all only: unat_div m d f_def [symmetric])
  thus ?thesis using assms(1) by (simp add: tsc_ticks_to_ns_def Let_def f_def word_gt_0)
qed

definition sample_devices :: devices where
  "sample_devices = kernel.extend (sample_kernel\<lparr>kmem := (\<lambda>_. 0), irq_enabled := True\<rparr>)
     (devices.fields 0x1000 0x2000 (\<lambda>_. 0) [] [] (\<lambda>_. (0, 0)) 0
        \<lparr>capabilities = 0x5F5E10000000000, configuration = 0, main_counter = 0\<rparr>
        (replicate 64 62500000) (replicate 64 0) 3000000000)"

lemma sample_devices_fields [simp]:
  "ACPI_MADT sample_devices = 0x1000" "mmio sample_devices = (\<lambda>_. 0)"
  "irq_enabled sample_devices" "sleep_locks sample_devices = replicate 64 0"
  "tsc_freq sample_devices = 3000000000"
  by (simp_all add: sample_devices_def kernel.defs devices.defs)

theorem tsc_ticks_to_ns_exact_witness:
  "map_option unat (tsc_ticks_to_ns 9000000000000000000 sample_devices) = Some 3000000000000000000"
  using tsc_ticks_to_ns_exact [of sample_devices 9000000000000000000] by simp

section \<open>The wait\<close>

lemma core_index_mmio_store [simp]:
  assumes "lapic_reg 0x20 s \<noteq> Some a"
  shows "core_index (mmio_store a v s) = core_index s"
  using assms by (auto simp: core_index_def lapic_read_def lapic_reg_def mmio_store_def)

lemma lapic_write_eq:
  "ACPI_MADT s \<noteq> NULL \<Longrightarrow>
   lapic_write off v s = Some (mmio_store (MADT_lapic_addr (kmem s) (ACPI_MADT s) + off) v s)"
  by (simp add: lapic_write_def lapic_reg_def)

lemma mmio_store_fields [simp]:
  "ACPI_MADT (mmio_store a v s) = ACPI_MADT s" "kmem (mmio_store a v s) = kmem s"
  "sleep_locks (mmio_store a v s) = sleep_locks s" "irq_enabled (mmio_store a v s) = irq_enabled s"
  "lapic_timer_converted (mmio_store a v s) = lapic_timer_converted s"
  by (simp_all add: mmio_store_def)

lemma core_index_locks [simp]: "core_index (s\<lparr>sleep_locks := l\<rparr>) = core_index s"
  by (simp add: core_index_def lapic_read_def lapic_reg_def)

lemma core_index_lapic:
  "core_index s = Some i \<Longrightarrow> off \<noteq> 0x20 \<Longrightarrow>
   core_index (mmio_store (MADT_lapic_addr (kmem s) (ACPI_MADT s) + off) v s) = Some i"
  by (subst core_index_mmio_store) (auto simp: lapic_reg_def)

lemma core_index_madt: "core_index s = Some i \<Longrightarrow> ACPI_MADT s \<noteq> NULL \<and> i < NUM_CORES"
  by (auto simp: core_index_def lapic_read_def lapic_reg_def Let_def split: if_splits bind_splits)

text \<open>What the wait depends on: the index of the core and the locks.\<close>

definition waiting :: "nat \<Rightarrow> bool \<Rightarrow> 'a devices_scheme \<Rightarrow> bool" where
  "waiting i irq s \<longleftrightarrow> core_index s = Some i \<and> length (sleep_locks s) = NUM_CORES \<and> irq_enabled s = irq"

lemma sleep_handler_unlocks:
  assumes "waiting i irq s"
  shows "\<exists>s'. sleep_handler s = Some s' \<and> waiting i irq s' \<and> sleep_locks s' ! i = 0"
  using assms core_index_madt [of s i]
    core_index_lapic [of "s\<lparr>sleep_locks := (sleep_locks s)[i := 0]\<rparr>" i "0xb0" 0]
  by (auto simp: waiting_def sleep_handler_def lapic_write_eq)

lemma kpass_wait_returns_iff:
  assumes "waiting i irq s" "sleep_locks s ! i \<noteq> 0"
  shows "(\<exists>s'. kpass_wait turns s = Some s') \<longleftrightarrow> irq \<and> True \<in> set turns"
  using assms
proof (induction turns)
  case (Cons t turns)
  obtain s' where s': "sleep_handler s = Some s'" "waiting i irq s'" "sleep_locks s' ! i = 0"
    using sleep_handler_unlocks [OF Cons.prems(1)] by blast
  have "kpass_wait turns s' = Some s'"
    using s'(2,3) by (cases turns) (simp_all add: waiting_def)
  thus ?case using Cons s'(1) by (auto simp: waiting_def timer_interrupt_def)
qed (simp add: waiting_def)

lemma timer_interrupt_waiting:
  "waiting i irq s \<Longrightarrow> \<exists>s'. timer_interrupt t s = Some s' \<and> waiting i irq s'"
  using sleep_handler_unlocks [of i irq s] by (auto simp: timer_interrupt_def)

lemma waiting_lapic:
  "waiting i irq s \<Longrightarrow> off \<noteq> 0x20 \<Longrightarrow> \<exists>s'. lapic_write off v s = Some s' \<and> waiting i irq s'"
  using core_index_madt [of s i] by (auto simp: waiting_def lapic_write_eq core_index_lapic)

text \<open>C36: \<open>kpass\<close> returns exactly when interrupts are enabled and the timer interrupt arrives while
  the loop is already waiting.  An interrupt that arrives earlier, after the count is written and
  before the lock is set, is lost: the lock is set over it and the one-shot timer does not fire
  again.\<close>

theorem kpass_returns_iff_late_interrupt:
  assumes "core_index s = Some i" "length (sleep_locks s) = NUM_CORES"
  shows "(\<exists>s'. kpass ms early turns s = Some s') \<longleftrightarrow> irq_enabled s \<and> True \<in> set turns"
proof -
  have w: "waiting i (irq_enabled s) s" using assms by (simp add: waiting_def)
  obtain s1 where s1: "lapic_write 0x3e0 3 s = Some s1" "waiting i (irq_enabled s) s1"
    using waiting_lapic [OF w, of "0x3e0" 3] by auto
  obtain s2 where s2: "lapic_write 0x320 0x42 s1 = Some s2" "waiting i (irq_enabled s) s2"
    using waiting_lapic [OF s1(2), of "0x320" "0x42"] by auto
  obtain s3 where s3: "write_ms_count ms s2 = Some s3" "waiting i (irq_enabled s) s3"
    using waiting_lapic [OF s2(2), of "0x380"] s2(2) by (auto simp: write_ms_count_def waiting_def)
  obtain s4 where s4: "timer_interrupt early s3 = Some s4" "waiting i (irq_enabled s) s4"
    using timer_interrupt_waiting [OF s3(2)] by blast
  have "waiting i (irq_enabled s) (s4\<lparr>sleep_locks := (sleep_locks s4)[i := 1]\<rparr>)"
    and "i < length (sleep_locks s4)"
    using s4(2) core_index_madt [of s4 i] by (auto simp: waiting_def)
  from kpass_wait_returns_iff [OF this(1)] this(2)
  show ?thesis using s1(1) s2(1) s3(1) s4 by (simp add: kpass_def waiting_def)
qed

theorem kpass_returns_iff_late_interrupt_witness:
  "\<not> (\<exists>s'. kpass 10 True [False, False] sample_devices = Some s') \<and>
   (\<exists>s'. kpass 10 False [False, True] sample_devices = Some s')"
proof -
  have "core_index sample_devices = Some 0" "length (sleep_locks sample_devices) = NUM_CORES"
    by (simp_all add: core_index_def lapic_read_def lapic_reg_def NUM_CORES_def)
  from kpass_returns_iff_late_interrupt [OF this] show ?thesis by simp
qed

section \<open>Calibration\<close>

lemma unat_less_exp32: "unat (x :: u32) < 2 ^ 32"
  by (rule order.strict_trans2 [OF unsigned_less]) simp

lemma unat_widen: "unat (ucast (x :: u32) :: u64) = unat x"
  using unat_less_exp32 [of x] by (simp add: unsigned_ucast_eq take_bit_nat_eq_self)

lemma rounded_rate:
  fixes h l a b :: nat
  assumes h: "0 < h" and b: "0 < b"
  defines "x \<equiv> a * b div h * l div b"
  shows "x \<le> l * a div h" "l * a div h \<le> x + l div b + 1"
proof -
  define k where "k = a * b div h"
  have "x * b \<le> k * l" by (simp add: x_def k_def)
  hence "x * b * h \<le> k * l * h" by simp
  also have "\<dots> \<le> a * b * l"
    using mult_le_mono1 [OF div_times_less_eq_dividend [of "a * b" h], of l] by (simp add: k_def ac_simps)
  finally have "b * (x * h) \<le> b * (l * a)" by (simp only: ac_simps)
  hence "x * h \<le> l * a" using b by (simp only: nat_mult_le_cancel1)
  thus "x \<le> l * a div h" using h by (simp add: less_eq_div_iff_mult_less_eq)
  define t where "t = l * a div h"
  have "t * b * h \<le> l * (a * b)" by (simp add: t_def mult.assoc [symmetric] mult.commute [of b])
  also have "\<dots> \<le> l * ((k + 1) * h)"
    using dividend_less_div_times [OF h, of "a * b"] by (intro mult_le_mono2) (simp add: k_def)
  finally have "h * (t * b) \<le> h * (l * (k + 1))" by (simp only: ac_simps)
  hence "t * b \<le> k * l + l" using h by (simp only: nat_mult_le_cancel1) (simp add: algebra_simps)
  also have "k * l < (x + 1) * b" using dividend_less_div_times [OF b, of "k * l"] by (simp add: x_def k_def)
  also have "l < (l div b + 1) * b" using dividend_less_div_times [OF b, of l] by simp
  finally have "t * b < (x + l div b + 2) * b" by (simp add: algebra_simps)
  hence "t < x + l div b + 2" using b by (simp only: mult_less_cancel2)
  thus "l * a div h \<le> x + l div b + 1" by (simp add: t_def)
qed

text \<open>The calibrated timer frequency is right up to a millionth of the counted ticks.  Where the
  local APIC timer counts \<open>l\<close> ticks down in \<open>h\<close> nanoseconds of the HPET, \<open>h\<close> at least 232831 so that
  the product does not wrap around, the stored number of ticks per second is at most the true
  quotient \<open>l * 10^9 / h\<close> and falls short of it by at most \<open>l / 10^6 + 1\<close>.\<close>

lemma timer_calibration_error:
  assumes "lapic_after c \<le> lapic_before c" "unat h \<ge> 232831"
    and "h = hpet_get_elapsed_ns (r\<lparr>main_counter := hpet_after c\<rparr>) -
             hpet_get_elapsed_ns (r\<lparr>main_counter := hpet_before c\<rparr>)"
    and "l = unat (lapic_before c) - unat (lapic_after c)"
  shows "\<exists>n. timer_ticks c r = Some n \<and> unat n \<le> l * 10 ^ 9 div unat h \<and>
           l * 10 ^ 9 div unat h \<le> unat n + l div 10 ^ 6 + 1"
proof -
  have k: "10 ^ 15 div unat h < 2 ^ 32"
    by (rule le_less_trans [OF div_le_mono2 [OF _ assms(2)]]) simp_all
  have b: "unat (lapic_before c) < 2 ^ 32" by (rule unat_less_exp32)
  have l: "unat (ucast (lapic_before c) - ucast (lapic_after c) :: u64) = l" "l < 2 ^ 32"
    using assms(1,4) b by (simp_all add: unat_sub word_le_nat_alt unat_widen)
  have "10 ^ 15 div unat h * l < 2 ^ 32 * 2 ^ 32"
    using k l(2) by (rule mult_strict_mono) simp_all
  hence n: "unat (1000000000000000 div h * (ucast (lapic_before c) - ucast (lapic_after c)) div 1000000) =
      10 ^ 15 div unat h * l div 10 ^ 6"
    by (simp only: unat_div unat_mult_no_wrap l) (simp add: unat_mult_no_wrap unat_div l)
  have "0 < unat h" "h \<noteq> 0" using assms(2) by auto
  thus ?thesis using rounded_rate [where h = "unat h" and b = "10 ^ 6" and a = "10 ^ 9" and l = l] n
    by (simp add: timer_ticks_def Let_def assms(3) [symmetric])
qed

definition sample_calibration :: calibration where
  "sample_calibration = \<lparr>hpet_before = 0, hpet_after = 100000, lapic_before = 4000000000,
     lapic_after = 3999000000\<rparr>"

definition sample_hpet :: HPET_registers where
  "sample_hpet = \<lparr>capabilities = 42949672960000000, configuration = 1, main_counter = 0\<rparr>"

lemma timer_calibration_error_witness:
  "\<exists>n. timer_ticks sample_calibration sample_hpet = Some n \<and>
       unat n \<le> 1000000000 \<and> 1000000000 \<le> unat n + 2"
proof -
  have p: "drop_bit 32 (42949672960000000 :: u64) = 10000000"
    by (rule word_unat_eq_iff [THEN iffD2]) (simp add: unat_drop_bit_eq drop_bit_eq_div)
  have h: "1000000 = hpet_get_elapsed_ns (sample_hpet\<lparr>main_counter := hpet_after sample_calibration\<rparr>) -
             hpet_get_elapsed_ns (sample_hpet\<lparr>main_counter := hpet_before sample_calibration\<rparr>)"
    by (simp add: hpet_get_elapsed_ns_def sample_hpet_def sample_calibration_def p)
  have l: "lapic_after sample_calibration \<le> lapic_before sample_calibration"
      "1000000 = unat (lapic_before sample_calibration) - unat (lapic_after sample_calibration)"
    by (simp_all add: sample_calibration_def)
  from timer_calibration_error [OF l(1) _ h l(2)] show ?thesis by simp
qed

end
