(* ===== verification/Heap_Init.thy ===== *)
theory Heap_Init
  imports Paging
begin

text \<open>
  Setting up the kernel heap (\<open>init_heap\<close> and \<open>print_heap\<close> of vmm.c) on top of the frame allocator
  and the page tables.  As in \<open>Vmm\<close> the chain of heap nodes is a list of records, so the stores of
  \<open>init_heap\<close> into the frames that hold the nodes extend that list and not the byte memory; the
  frames themselves are taken from the allocator as the code does.
\<close>

section \<open>Operations (vmm.c)\<close>

definition add_heap_page :: "'a kernel_scheme \<Rightarrow> 'a kernel_scheme" where
  "add_heap_page s = s\<lparr>heap_pages := heap_pages s @ [new_heap_page]\<rparr>"

fun init_heap_loop :: "nat \<Rightarrow> nat \<Rightarrow> 'a kernel_scheme \<Rightarrow> 'a kernel_scheme option" where
  "init_heap_loop i 0 s = Some s"
| "init_heap_loop i (Suc k) s =
     (if of_nat i mod (PAGE_SIZE_DEFINED div HEAP_CHUNK_SIZE_DEFINED) = 0 then
        (let (heap_page_phys, s1) = alloc_frame s in
         case map_page (pml4_address_virt_glob s1) heap_page_phys
                (HEAP_START_VIRT_DEFINED + of_nat i * HEAP_CHUNK_SIZE_DEFINED) 3 s1 of
           None \<Rightarrow> None
         | Some (_, s2) \<Rightarrow>
             (let (node_frame, s3) = alloc_frame s2 in init_heap_loop (Suc i) k (add_heap_page s3)))
      else init_heap_loop (Suc i) k (add_heap_page s))"

definition init_heap :: "'a kernel_scheme \<Rightarrow> (u64 \<times> 'a kernel_scheme) option" where
  "init_heap s =
     (let (head_frame, s1) = alloc_frame s in
      case map_page (pml4_address_virt_glob s1) head_frame HEAP_START_VIRT_DEFINED 3 s1 of
        None \<Rightarrow> None
      | Some (_, s2) \<Rightarrow>
          (let (heap_page_phys, s3) = alloc_frame (add_heap_page (s2\<lparr>heap_pages := []\<rparr>)) in
           case map_page (pml4_address_virt_glob s3) heap_page_phys HEAP_START_VIRT_DEFINED 3 s3 of
             None \<Rightarrow> None
           | Some (_, s4) \<Rightarrow>
               map_option (Pair HEAP_START_VIRT_DEFINED)
                 (init_heap_loop 1 (unat (HEAP_SIZE_DEFINED div HEAP_CHUNK_SIZE_DEFINED) - 1) s4)))"

text \<open>The lines printed: index, status, size and length; walking past the last node dereferences a
  NULL pointer.\<close>

definition print_heap :: "u64 \<Rightarrow> 'a vmm_scheme \<Rightarrow> (nat \<times> u8 \<times> u64 \<times> u64) list option" where
  "print_heap len s =
     (if unat len \<le> length (heap_pages s) then
        Some (map (\<lambda>i. let p = heap_pages s ! i in (i, hp_status p, hp_size p, hp_alloc_length p))
                [0..<unat len])
      else None)"

section \<open>Address spaces with free frames\<close>

definition space :: "u64 \<Rightarrow> u64 \<Rightarrow> nat \<Rightarrow> 'a kernel_scheme \<Rightarrow> bool" where
  "space h t n s \<longleftrightarrow> hhdm_offset s = h \<and> h AND 0xfff = 0 \<and> regions_wf (memmap_arr s) \<and>
     n \<le> card (free_frames (memmap_arr s)) \<and> tree_wf (kmem s) h 3 t \<and>
     table_pages (kmem s) h 3 t \<inter> free_pages s = {} \<and> pml4_address_virt_glob s = t \<and>
     \<not> scheduling_started s"

definition same_rest :: "'a kernel_scheme \<Rightarrow> 'a kernel_scheme \<Rightarrow> bool" where
  "same_rest s s' \<longleftrightarrow> heap_pages s' = heap_pages s \<and> irq_enabled s' = irq_enabled s \<and>
     free_frames (memmap_arr s') \<subseteq> free_frames (memmap_arr s)"

lemma space_ready: "space h t n s \<Longrightarrow> 3 \<le> n \<Longrightarrow> map_ready h 3 t s"
  by (auto simp: space_def map_ready_def)

lemma space_update [simp]:
  "space h t n (s\<lparr>heap_pages := hs\<rparr>) = space h t n s"
  "space h t n (s\<lparr>irq_enabled := b\<rparr>) = space h t n s"
  by (simp_all add: space_def free_pages_def)

lemma frames_only_space:
  fixes s s' :: "'a kernel_scheme"
  assumes "frames_only s s'"
  shows "pml4_address_virt_glob s' = pml4_address_virt_glob s"
  using assms by (auto simp: frames_only_def)

lemma alloc_frame_card:
  assumes "regions_wf (memmap_arr s)" "alloc_frame s = (f, s1)"
  shows "regions_wf (memmap_arr s1)" "card (free_frames (memmap_arr s)) \<le> Suc (card (free_frames (memmap_arr s1)))"
  using alloc_frame_spec [OF assms] assms(1) finite_free_frames by (cases "f = 0"; auto)+

lemma map_path_card:
  assumes "regions_wf (memmap_arr s)"
  shows "regions_wf (memmap_arr (map_path t path leaf perms s)) \<and>
    card (free_frames (memmap_arr s)) \<le>
      card (free_frames (memmap_arr (map_path t path leaf perms s))) + (length path - 1)"
  using assms
proof (induction path arbitrary: t s)
  case (Cons i path)
  obtain e s1 where ea: "entry_or_alloc t i perms s = (e, s1)" by fastforce
  obtain f sA where al: "alloc_frame s = (f, sA)" by fastforce
  have "regions_wf (memmap_arr s1)" "card (free_frames (memmap_arr s)) \<le> Suc (card (free_frames (memmap_arr s1)))"
    using ea al alloc_frame_card [OF Cons.prems al] Cons.prems
    by (auto simp: entry_or_alloc_def Let_def split: if_splits)
  hence "path \<noteq> [] \<Longrightarrow> ?case"
    using Cons.IH [of s1 "entry_table (hhdm_offset s1) e"] ea by (cases path) auto
  thus ?case using Cons.prems by (cases "path = []") simp_all
qed simp

lemma alloc_space:
  assumes sp: "space h t (Suc n) s" and al: "alloc_frame s = (f, s1)"
  shows "f \<in> free_frames (memmap_arr s)" "f \<notin> free_frames (memmap_arr s1)" "space h t n s1"
    "same_rest s s1" "mmu_walk (kmem s1) h t (page_path v) = mmu_walk (kmem s) h t (page_path v)"
proof -
  have b: "hhdm_offset s = h" "h AND 0xfff = 0" "regions_wf (memmap_arr s)" "tree_wf (kmem s) h 3 t"
    "table_pages (kmem s) h 3 t \<inter> free_pages s = {}" "free_frames (memmap_arr s) \<noteq> {}"
    using sp by (auto simp: space_def)
  note a = alloc_frame_spec [OF b(3) al]
  hence f: "f \<in> free_frames (memmap_arr s)" "f AND 0xfff = 0" "hhdm_offset s1 = h"
    "free_frames (memmap_arr s1) = free_frames (memmap_arr s) - {f}" "regions_wf (memmap_arr s1)"
    "\<forall>x. kmem s1 x = (if in_range (f + h) 4096 x then 0 else kmem s x)"
    using b(1,6) by auto
  show "f \<in> free_frames (memmap_arr s)" "f \<notin> free_frames (memmap_arr s1)" using f by auto
  have fr: "frames_only s s1" using alloc_frame_frames_only [of s] al by simp
  note k = frames_only_kernel [OF fr]
  show "same_rest s s1" using k f(4) by (auto simp: same_rest_def)
  have "f + h \<in> free_pages s" unfolding free_pages_def b(1) using f(1) by (rule imageI)
  hence "agree_on (table_pages (kmem s) h 3 t) (kmem s) (kmem s1)"
    using b(5) table_pages_aligned [OF b(4)] aligned_add [OF f(2) b(2)] f(6)
    by (intro changes_within_agree [of "{f + h}"]) (auto simp: changes_within_def)
  note c = table_pages_cong [OF this] tree_wf_cong [OF this] mmu_walk_cong [OF this]
  show "mmu_walk (kmem s1) h t (page_path v) = mmu_walk (kmem s) h t (page_path v)"
    using page_path_ok [of v] by (intro c(3)) simp_all
  have "free_pages s1 \<subseteq> free_pages s" using f(3,4) b(1) by (auto simp: free_pages_def)
  thus "space h t n s1"
    using sp f c(1,2) b(4,5) k(4) frames_only_space [OF fr] finite_free_frames
    by (auto simp: space_def)
qed

lemma map_space:
  assumes sp: "space h t (n + 3) s"
  obtains s' where "map_page t phys virt 3 s = Some (UINT64_MAX, s')" "space h t n s'" "same_rest s s'"
    "mmu_walk (kmem s') h t (page_path virt) = Some (phys OR 3)"
    "\<And>v. page_path v \<noteq> page_path virt \<Longrightarrow>
       mmu_walk (kmem s') h t (page_path v) = mmu_walk (kmem s) h t (page_path v)"
proof -
  let ?s = "s\<lparr>irq_enabled := False\<rparr>"
  define s1 where "s1 = map_page_tables t phys virt 3 ?s"
  have sp': "space h t (n + 3) ?s" using sp by simp
  have d: "map_done h 3 t (page_path virt) (phys OR 3) ?s s1"
    unfolding s1_def map_page_tables_path using space_ready [OF sp'] page_path_ok [of virt]
    by (intro map_path_done) auto
  have fr: "frames_only ?s s1" unfolding s1_def map_page_tables_path by (rule map_path_frames_only)
  note k = frames_only_kernel [OF fr] frames_only_space [OF fr]
  have "card (free_frames (memmap_arr s)) \<le> card (free_frames (memmap_arr s1)) + 3"
    using map_path_card [of ?s t "page_path virt" "phys OR 3" 3] sp page_path_ok(1) [of virt]
    unfolding s1_def map_page_tables_path by (simp add: space_def)
  moreover have "free_frames (memmap_arr s1) \<subseteq> free_frames (memmap_arr s)"
    using d sp by (auto simp: map_done_def free_pages_def space_def)
  moreover have "map_page t phys virt 3 s = Some (UINT64_MAX, irq_restore (Some (irq_enabled s)) s1)"
    using k(4) sp by (simp add: map_page_def Let_def s1_def space_def)
  moreover have "bit (phys OR 3) 0" unfolding bit_or_iff by simp
  hence "mmu_walk (kmem s1) h t (page_path virt) = Some (phys OR 3)"
    using map_done_facts(3) [OF d] by (simp add: and_1_iff)
  ultimately show ?thesis
    using d k sp same_walks_page [OF map_done_facts(4) [OF d]]
    by (intro that [of "irq_restore (Some (irq_enabled s)) s1"])
      (auto simp: map_done_def space_def same_rest_def free_pages_def)
qed

section \<open>The pages of the heap\<close>

abbreviation heap_page_at :: "nat \<Rightarrow> u64" where
  "heap_page_at p \<equiv> HEAP_START_VIRT_DEFINED + of_nat p * 4096"

lemma unat_and_1ff: "unat (x AND 0x1FF :: u64) = unat x mod 512"
proof -
  have "x AND 0x1FF = take_bit 9 x" by (simp add: take_bit_eq_mask mask_eq_exp_minus_1)
  thus ?thesis by (simp add: take_bit_eq_mod unat_mod)
qed

lemma heap_page_indices:
  assumes "p < 2 ^ 18"
  shows "unat (pt_index (heap_page_at p)) = p mod 512" "unat (pd_index (heap_page_at p)) = p div 512"
proof -
  have p: "unat (of_nat p * 4096 :: u64) = p * 4096"
    using assms by (subst unat_mult_no_wrap) (simp_all add: unat_of_nat_u64)
  have u: "unat (heap_page_at p) = 2 ^ 21 * 8796059467776 + p * 4096"
    using assms p by (subst unat_add_no_wrap) (simp_all add: HEAP_START_VIRT_DEFINED_def)
  have "unat (drop_bit 12 (heap_page_at p)) = p + 8796059467776 * 512"
    unfolding unat_drop_bit_eq u by (simp add: drop_bit_eq_div)
  thus "unat (pt_index (heap_page_at p)) = p mod 512"
    by (simp only: pt_index_def unat_and_1ff mod_mult_self1)
  have "unat (drop_bit 21 (heap_page_at p)) = p div 512 + 17179803648 * 512"
    unfolding unat_drop_bit_eq u by (simp add: drop_bit_eq_div div_plus_div_distrib_dvd_left)
  moreover have "p div 512 < 512" using assms by (simp add: less_mult_imp_div_less)
  ultimately show "unat (pd_index (heap_page_at p)) = p div 512"
    by (simp only: pd_index_def unat_and_1ff mod_mult_self1 mod_less)
qed

lemma heap_paths_distinct:
  assumes "p < 2 ^ 18" "q < 2 ^ 18" "page_path (heap_page_at p) = page_path (heap_page_at q)"
  shows "p = q"
proof -
  have "p mod 512 = q mod 512" "p div 512 = q div 512"
    using assms(3) heap_page_indices [OF assms(1)] heap_page_indices [OF assms(2)]
    by (simp_all add: page_path_def)
  thus ?thesis by (metis div_mult_mod_eq)
qed

section \<open>Filling the heap\<close>

text \<open>The first pages of the heap are mapped to the frames \<open>fs\<close>, all of them free in the beginning
  and not free any more; the other pages are mapped as in the beginning.\<close>

definition heap_mapped :: "u64 \<Rightarrow> u64 \<Rightarrow> 'a kernel_scheme \<Rightarrow> u64 list \<Rightarrow> 'a kernel_scheme \<Rightarrow> bool" where
  "heap_mapped h t s0 fs s \<longleftrightarrow> distinct fs \<and>
     free_frames (memmap_arr s) \<subseteq> free_frames (memmap_arr s0) \<and>
     set fs \<subseteq> free_frames (memmap_arr s0) - free_frames (memmap_arr s) \<and>
     (\<forall>p<length fs. mmu_walk (kmem s) h t (page_path (heap_page_at p)) = Some (fs ! p OR 3)) \<and>
     (\<forall>v. (\<forall>p<length fs. page_path v \<noteq> page_path (heap_page_at p)) \<longrightarrow>
        mmu_walk (kmem s) h t (page_path v) = mmu_walk (kmem s0) h t (page_path v))"

lemma heap_mapped_alloc:
  assumes "heap_mapped h t s0 fs s" "space h t (Suc n) s" "alloc_frame s = (f, s1)"
  shows "heap_mapped h t s0 fs s1"
  using assms(1) alloc_space [OF assms(2,3)]
  by (simp add: heap_mapped_def same_rest_def) blast

lemma heap_mapped_nodes [simp]: "heap_mapped h t s0 fs (s\<lparr>heap_pages := hs\<rparr>) = heap_mapped h t s0 fs s"
  by (simp add: heap_mapped_def)

lemma heap_mapped_page:
  assumes inv: "heap_mapped h t s0 fs s" and sp: "space h t (n + 4) s" and q: "length fs < 2 ^ 18"
    and al: "alloc_frame s = (f, s1)"
  obtains s2 where "map_page (pml4_address_virt_glob s1) f (heap_page_at (length fs)) 3 s1 = Some (UINT64_MAX, s2)"
    "heap_mapped h t s0 (fs @ [f]) s2" "space h t n s2" "same_rest s s2"
proof -
  have sp': "space h t (Suc (n + 3)) s" using sp by (simp add: add.commute)
  note a = alloc_space [OF sp' al]
  note i1 = heap_mapped_alloc [OF inv sp' al]
  obtain s2 where s2: "map_page t f (heap_page_at (length fs)) 3 s1 = Some (UINT64_MAX, s2)"
    "space h t n s2" "same_rest s1 s2"
    "mmu_walk (kmem s2) h t (page_path (heap_page_at (length fs))) = Some (f OR 3)"
    "\<And>v. page_path v \<noteq> page_path (heap_page_at (length fs)) \<Longrightarrow>
       mmu_walk (kmem s2) h t (page_path v) = mmu_walk (kmem s1) h t (page_path v)"
    by (rule map_space [OF a(3)]) (rule that)
  have "page_path (heap_page_at p) \<noteq> page_path (heap_page_at (length fs))" if "p < length fs" for p
    using heap_paths_distinct [of p "length fs"] that q by auto
  hence "heap_mapped h t s0 (fs @ [f]) s2"
    using i1 s2(3-5) a(1,2) inv
    by (auto simp: heap_mapped_def same_rest_def nth_append less_Suc_eq)
  thus ?thesis using that [of s2] s2(1,2,3) a(3,4) by (auto simp: space_def same_rest_def)
qed

text \<open>The pages that hold the first \<open>i\<close> chunks.\<close>

definition pages_of :: "nat \<Rightarrow> nat" where
  "pages_of i = (i + 63) div 64"

lemma chunk_starts_page:
  "i < 2 ^ 24 \<Longrightarrow> (of_nat i :: u64) mod (PAGE_SIZE_DEFINED div HEAP_CHUNK_SIZE_DEFINED) = 0 \<longleftrightarrow> i mod 64 = 0"
  by (simp add: word_unat_eq_iff unat_mod unat_div unat_of_nat_u64 PAGE_SIZE_DEFINED_def
      HEAP_CHUNK_SIZE_DEFINED_def)

lemma pages_of_Suc: "pages_of (Suc i) = (if i mod 64 = 0 then Suc (pages_of i) else pages_of i)"
proof -
  have "pages_of i = i div 64 + (if i mod 64 = 0 then 0 else 1)"
    unfolding pages_of_def by (subst div_add1_eq) (auto intro!: div_nat_eqI)
  moreover have "pages_of (Suc i) = i div 64 + 1" by (simp add: pages_of_def)
  ultimately show ?thesis by simp
qed

lemma pages_of_mono: "i \<le> j \<Longrightarrow> pages_of i \<le> pages_of j"
  by (simp add: pages_of_def div_le_mono)

lemma chunk_page: "i mod 64 = 0 \<Longrightarrow>
    HEAP_START_VIRT_DEFINED + of_nat i * HEAP_CHUNK_SIZE_DEFINED = heap_page_at (pages_of i)"
proof -
  assume "i mod 64 = 0"
  then obtain q where "i = 64 * q" by auto
  thus ?thesis by (simp add: HEAP_CHUNK_SIZE_DEFINED_def pages_of_def)
qed

lemma init_heap_loop_spec:
  assumes "heap_mapped h t s0 fs s" "length fs = pages_of i" "i + k \<le> 2 ^ 20"
    and "space h t (5 * (pages_of (i + k) - pages_of i)) s"
  shows "\<exists>s' fs'. init_heap_loop i k s = Some s' \<and> heap_mapped h t s0 fs' s' \<and>
     length fs' = pages_of (i + k) \<and> heap_pages s' = heap_pages s @ replicate k new_heap_page \<and>
     irq_enabled s' = irq_enabled s"
  using assms
proof (induction k arbitrary: i s fs)
  case (Suc k)
  show ?case
  proof (cases "i mod 64 = 0")
    case False
    hence "heap_mapped h t s0 fs (add_heap_page s)" "length fs = pages_of (Suc i)"
      "space h t (5 * (pages_of (Suc i + k) - pages_of (Suc i))) (add_heap_page s)"
      using Suc.prems by (simp_all add: add_heap_page_def pages_of_Suc)
    note ih = Suc.IH [OF this(1,2) _ this(3)]
    have "init_heap_loop i (Suc k) s = init_heap_loop (Suc i) k (add_heap_page s)"
      using Suc.prems(3) chunk_starts_page [of i] False by simp
    thus ?thesis using ih Suc.prems(3) by (simp add: add_heap_page_def)
  next
    case True
    define n where "n = 5 * (pages_of (Suc i + k) - pages_of (Suc i))"
    have "5 * (pages_of (i + Suc k) - pages_of i) = n + 5"
      using pages_of_mono [of "Suc i" "Suc i + k"] by (simp add: n_def pages_of_Suc True)
    hence sp: "space h t (Suc n + 4) s" using Suc.prems(4) by (simp add: add.commute)
    obtain f s1 where f: "alloc_frame s = (f, s1)" by fastforce
    have "length fs < 2 ^ 18" using Suc.prems(2,3) by (simp add: pages_of_def less_mult_imp_div_less)
    then obtain s2 where s2: "map_page (pml4_address_virt_glob s1) f (heap_page_at (length fs)) 3 s1 = Some (UINT64_MAX, s2)"
      "heap_mapped h t s0 (fs @ [f]) s2" "space h t (Suc n) s2" "same_rest s s2"
      by (rule heap_mapped_page [OF Suc.prems(1) sp _ f]) (rule that)
    obtain g s3 where g: "alloc_frame s2 = (g, s3)" by fastforce
    note a = alloc_space(3,4) [OF s2(3) g] heap_mapped_alloc [OF s2(2,3) g]
    have "heap_mapped h t s0 (fs @ [f]) (add_heap_page s3)" "length (fs @ [f]) = pages_of (Suc i)"
      "space h t n (add_heap_page s3)"
      using a Suc.prems(2) True by (simp_all add: add_heap_page_def pages_of_Suc)
    note ih = Suc.IH [OF this(1,2) _ this(3) [unfolded n_def]]
    have "init_heap_loop i (Suc k) s = init_heap_loop (Suc i) k (add_heap_page s3)"
      using f g s2(1) Suc.prems(2,3) chunk_starts_page [of i] chunk_page [OF True] True by simp
    moreover have "heap_pages (add_heap_page s3) = heap_pages s @ [new_heap_page]"
      "irq_enabled (add_heap_page s3) = irq_enabled s"
      using s2(4) a(2) by (simp_all add: add_heap_page_def same_rest_def)
    ultimately show ?thesis using ih Suc.prems(3) by simp
  qed
qed auto

lemma init_heap_first_page:
  assumes sp: "space h t (n + 8) s"
  obtains s4 f where "init_heap s = map_option (Pair HEAP_START_VIRT_DEFINED)
      (init_heap_loop 1 (unat (HEAP_SIZE_DEFINED div HEAP_CHUNK_SIZE_DEFINED) - 1) s4)"
    "heap_mapped h t s [f] s4" "space h t n s4" "heap_pages s4 = [new_heap_page]"
    "irq_enabled s4 = irq_enabled s"
proof -
  obtain f0 s1 where f0: "alloc_frame s = (f0, s1)" by fastforce
  have sp1: "space h t (n + 4 + 4) s" using sp by (simp add: add.commute)
  have m0: "heap_mapped h t s [] s" by (simp add: heap_mapped_def)
  obtain s2 where s2: "map_page (pml4_address_virt_glob s1) f0 (heap_page_at 0) 3 s1 = Some (UINT64_MAX, s2)"
    "heap_mapped h t s ([] @ [f0]) s2" "space h t (n + 4) s2" "same_rest s s2"
    using heap_mapped_page [OF m0 sp1 _ f0] by auto
  let ?s = "add_heap_page (s2\<lparr>heap_pages := []\<rparr>)"
  have m1: "heap_mapped h t ?s [] ?s" by (simp add: heap_mapped_def)
  have sp2: "space h t (n + 4) ?s" using s2(3) by (simp add: add_heap_page_def)
  obtain f s3 where f: "alloc_frame ?s = (f, s3)" by fastforce
  obtain s4 where s4: "map_page (pml4_address_virt_glob s3) f (heap_page_at 0) 3 s3 = Some (UINT64_MAX, s4)"
    "heap_mapped h t ?s ([] @ [f]) s4" "space h t n s4" "same_rest ?s s4"
    using heap_mapped_page [OF m1 sp2 _ f] by auto
  have "heap_mapped h t s [f] s4"
    using s2(2) s4(2) by (auto simp: heap_mapped_def add_heap_page_def)
  thus ?thesis
    using that [of s4 f] f0 s2(1,4) f s4(1,3,4)
    by (auto simp: init_heap_def same_rest_def add_heap_page_def)
qed


definition sample_boot :: kernel where
  "sample_boot = sample_kernel\<lparr>memmap_arr :=
     [init_region \<lparr>me_base = 0x100000, me_length = 0x20000000, me_type = 0\<rparr>]\<rparr>"

lemma sample_boot_frames:
  "free_frames (memmap_arr sample_boot) = (\<lambda>i. 0x100000 + of_nat i * 4096) ` {..<131072}"
proof -
  have "frame_free (memmap_arr sample_boot) c i \<longleftrightarrow> c = 0 \<and> i < 131072" for c i
    by (auto simp: frame_free_def sample_boot_def init_region_def frame_count_def bitmap_clear_spec
        word_unat_eq_iff unat_of_nat_u64)
  thus ?thesis
    by (auto simp: free_frames_def frame_addr_def sample_boot_def init_region_def image_iff)
qed

lemma unat_boot_frame:
  "i < 131072 \<Longrightarrow> unat (0x100000 + of_nat i * 4096 :: u64) = 1048576 + i * 4096"
  by (subst unat_add_no_wrap; subst unat_mult_no_wrap) (simp_all add: unat_of_nat_u64)

lemma sample_boot_card: "card (free_frames (memmap_arr sample_boot)) = 131072"
proof -
  have "inj_on (\<lambda>i. 0x100000 + of_nat i * 4096 :: u64) {..<131072}"
  proof (rule inj_onI)
    fix i j :: nat
    assume "i \<in> {..<131072}" "j \<in> {..<131072}"
      and "0x100000 + of_nat i * 4096 = (0x100000 + of_nat j * 4096 :: u64)"
    hence "1048576 + i * 4096 = 1048576 + j * 4096" using unat_boot_frame by (metis lessThan_iff)
    thus "i = j" by simp
  qed
  thus ?thesis by (simp add: sample_boot_frames card_image)
qed

lemma sample_boot_ready: "map_ready 0xffff800000000000 3 0xffff800000010000 sample_boot"
proof -
  let ?h = "0xffff800000000000 :: u64" and ?t = "0xffff800000010000 :: u64"
  have km: "kmem sample_boot = (\<lambda>_. 0)" "hhdm_offset sample_boot = ?h"
    by (simp_all add: sample_boot_def sample_kernel_def)
  have "table_pages (\<lambda>_. 0) ?h 3 ?t = {?t}" "tree_wf (\<lambda>_. 0) ?h 3 ?t"
    by (rule zero_page_tree; simp)+
  moreover have "?t \<notin> free_pages sample_boot"
  proof
    assume "?t \<in> free_pages sample_boot"
    then obtain i where i: "i < 131072" "?t = 0x100000 + of_nat i * 4096 + ?h"
      by (auto simp: free_pages_def km sample_boot_frames)
    hence "0x100000 + of_nat i * 4096 = (0x10000 :: u64)" by (simp add: eq_diff_eq [symmetric])
    hence "unat (0x100000 + of_nat i * 4096 :: u64) = 0x10000" by (simp only:) simp
    thus False using unat_boot_frame [OF i(1)] by linarith
  qed
  moreover have "regions_wf (memmap_arr sample_boot)"
    by (simp add: regions_wf_def sample_boot_def init_region_def)
  ultimately show ?thesis using km by (simp add: map_ready_def sample_boot_card)
qed


end
