(* ===== verification/Sync.thy ===== *)
theory Sync
  imports Paging
begin

text \<open>
  Mutexes and futex queues (mutex.c, mutex.h).  \<open>acquire_mutex\<close> is first the sequential function
  of one thread, then one atomic compare-and-exchange at a time in a transition system of
  threads that share a lock.  The futex array and its queues are C structures in the heap; they
  are read and written in the byte memory at their field offsets.
\<close>

section \<open>Mutexes\<close>

record mutex =
  locked :: bool
  mutex_object :: u64

text \<open>\<open>__atomic_compare_exchange\<close>: success flag, new memory value, new expected value.  On failure
  the builtin writes the value it found to the expected operand.\<close>

definition atomic_compare_exchange :: "bool \<Rightarrow> bool \<Rightarrow> bool \<Rightarrow> bool \<times> bool \<times> bool" where
  "atomic_compare_exchange mem_val expected desired =
     (if mem_val = expected then (True, desired, expected) else (False, mem_val, mem_val))"

partial_function (option) acquire_loop :: "bool \<Rightarrow> mutex \<Rightarrow> mutex option" where
  "acquire_loop old mx =
     (let (ok, l, old') = atomic_compare_exchange (locked mx) old True in
      if ok then Some (mx\<lparr>locked := l\<rparr>) else acquire_loop old' (mx\<lparr>locked := l\<rparr>))"

definition acquire_mutex :: "mutex \<Rightarrow> (bool \<times> mutex) option" where
  "acquire_mutex mx = map_option (Pair False) (acquire_loop False mx)"

definition release_mutex :: "mutex \<Rightarrow> bool \<times> mutex" where
  "release_mutex mx = (False, mx\<lparr>locked := fst (snd (atomic_compare_exchange (locked mx) True False))\<rparr>)"

section \<open>Interleaved execution\<close>

text \<open>Each thread is outside, between two attempts of \<open>acquire_mutex\<close> with its local variable
  \<open>old\<close>, or inside its critical section.\<close>

datatype mutex_pc = Outside | Trying bool | Inside

inductive mutex_step :: "bool \<times> (nat \<Rightarrow> mutex_pc) \<Rightarrow> bool \<times> (nat \<Rightarrow> mutex_pc) \<Rightarrow> bool" where
  call_acquire: "pcs t = Outside \<Longrightarrow> mutex_step (l, pcs) (l, pcs(t := Trying False))"
| try_acquire: "pcs t = Trying old \<Longrightarrow> atomic_compare_exchange l old True = (ok, l', old') \<Longrightarrow>
    mutex_step (l, pcs) (l', pcs(t := if ok then Inside else Trying old'))"
| call_release: "pcs t = Inside \<Longrightarrow> atomic_compare_exchange l True False = (ok, l', old') \<Longrightarrow>
    mutex_step (l, pcs) (l', pcs(t := Outside))"

section \<open>Futex queues\<close>

record sync_kernel = kernel +
  global_futex_array :: u64
  global_futex_array_size :: u64
  new_pid_mutex :: mutex

record futex_queue =
  fq_pointer :: u64
  fq_threads :: u64
  fq_size :: u64
  fq_max_size :: u64

definition read_queue :: "mem \<Rightarrow> u64 \<Rightarrow> futex_queue" where
  "read_queue m q =
     \<lparr>fq_pointer = load64 m q, fq_threads = load64 m (q + 8), fq_size = load64 m (q + 16),
      fq_max_size = load64 m (q + 24)\<rparr>"

definition write_queue :: "u64 \<Rightarrow> futex_queue \<Rightarrow> mem \<Rightarrow> mem" where
  "write_queue q fq m =
     store64 (q + 24) (fq_max_size fq) (store64 (q + 16) (fq_size fq)
       (store64 (q + 8) (fq_threads fq) (store64 q (fq_pointer fq) m)))"

definition init_futex :: "'a sync_kernel_scheme \<Rightarrow> 'a sync_kernel_scheme option" where
  "init_futex s =
     (let (a, s1) = kmalloc_byte 1024 s in
      if a = NULL then None
      else Some (s1\<lparr>global_futex_array := a, kmem := memset a 0 1024 (kmem s1),
                    global_futex_array_size := 128\<rparr>))"

text \<open>The search loop of \<open>futex_enqueue\<close> runs once: its bound is the quotient of two pointer sizes.
  Its inner test assigns \<open>i\<close>, an \<open>int\<close>, so a match reads the last entry of the reallocated array.\<close>

definition futex_find :: "u64 \<Rightarrow> 'a sync_kernel_scheme \<Rightarrow> (u64 \<times> 'a sync_kernel_scheme) option" where
  "futex_find pointer s =
     (let q = load64 (kmem s) (global_futex_array s) in
      if q = NULL then None
      else if fq_pointer (read_queue (kmem s) q) = pointer then
        (let i = scast (ucast (global_futex_array_size s - 1) :: 32 word) in
         Option.bind
           (if i \<noteq> 0 then
              map_option (\<lambda>(a, s1). s1\<lparr>global_futex_array := a\<rparr>)
                (krealloc_byte (global_futex_array s) (global_futex_array_size s + 128) s)
            else Some s)
           (\<lambda>s1. if global_futex_array s1 = NULL then None
                 else Some (load64 (kmem s1) (global_futex_array s1 + 8 * i), s1)))
      else Some (NULL, s))"

definition futex_new :: "u64 \<Rightarrow> 'a sync_kernel_scheme \<Rightarrow> (u64 \<times> 'a sync_kernel_scheme) option" where
  "futex_new pointer s =
     (let (q, s1) = kmalloc_byte_interruptable 32 s in
      if q = NULL then None
      else
        (let (ts, s2) = kmalloc_byte_interruptable (64 * 8) s1;
             fq = \<lparr>fq_pointer = pointer, fq_threads = ts, fq_size = 0, fq_max_size = 64\<rparr>
         in Some (q, s2\<lparr>kmem := store64 (global_futex_array s2) q (write_queue q fq (kmem s2))\<rparr>)))"

definition futex_push :: "u64 \<Rightarrow> u64 \<Rightarrow> 'a sync_kernel_scheme \<Rightarrow> 'a sync_kernel_scheme option" where
  "futex_push q thread s =
     (let fq = read_queue (kmem s) q in
      Option.bind
        (if fq_size fq = fq_max_size fq then
           map_option (\<lambda>(ts, s1).
               s1\<lparr>kmem := write_queue q (fq\<lparr>fq_max_size := fq_max_size fq + 64, fq_threads := ts\<rparr>) (kmem s1)\<rparr>)
             (krealloc_byte (fq_threads fq) ((fq_max_size fq + 64) * 8) s)
         else Some s)
        (\<lambda>s1. let fq1 = read_queue (kmem s1) q in
           if fq_threads fq1 = NULL then None
           else Some (s1\<lparr>kmem := write_queue q (fq1\<lparr>fq_size := fq_size fq1 + 1\<rparr>)
                  (store64 (fq_threads fq1 + 8 * fq_size fq1) thread (kmem s1))\<rparr>)))"

definition futex_enqueue :: "u64 \<Rightarrow> u64 \<Rightarrow> 'a sync_kernel_scheme \<Rightarrow> (int \<times> 'a sync_kernel_scheme) option" where
  "futex_enqueue pointer thread s =
     (let (irq, s0) = irq_disable_save s in
      Option.bind (futex_find pointer s0) (\<lambda>(q, s1).
      Option.bind (if q = NULL then futex_new pointer s1 else Some (q, s1)) (\<lambda>(q', s2).
      map_option (\<lambda>s3. (0, irq_restore (Some irq) s3)) (futex_push q' thread s2))))"

definition get_new_pid :: "'a sync_kernel_scheme \<Rightarrow> (u64 \<times> 'a sync_kernel_scheme) option" where
  "get_new_pid s =
     (case acquire_mutex (new_pid_mutex s) of
        None \<Rightarrow> None
      | Some (_, mx) \<Rightarrow>
          (let n = new_pid s + 1
           in Some (n, s\<lparr>new_pid_mutex := snd (release_mutex mx), new_pid := n\<rparr>)))"

section \<open>Properties\<close>

lemma acquire_loop_step:
  "acquire_loop old mx =
     (if locked mx = old then Some (mx\<lparr>locked := True\<rparr>) else acquire_loop (locked mx) mx)"
  by (subst acquire_loop.simps) (cases mx; auto simp: atomic_compare_exchange_def)

text \<open>\<open>acquire_mutex\<close> never waits: run alone it returns with the lock taken after at most two
  attempts, also when another owner holds the mutex.\<close>
lemma acquire_mutex_returns: "acquire_mutex mx = Some (False, mx\<lparr>locked := True\<rparr>)"
  by (simp add: acquire_mutex_def acquire_loop_step [of False] acquire_loop_step [of True])

text \<open>C23: the mutex does not exclude: from a free lock with every thread outside, two threads can
  be in their critical sections at the same time.\<close>
theorem mutual_exclusion_fails:
  "\<exists>l pcs. mutex_step\<^sup>*\<^sup>* (False, \<lambda>_. Outside) (l, pcs) \<and> pcs 0 = Inside \<and> pcs 1 = Inside"
proof -
  let ?o = "(\<lambda>_. Outside) :: nat \<Rightarrow> mutex_pc"
  have 1: "mutex_step (False, ?o) (False, ?o(0 := Trying False))" by (rule call_acquire) simp
  have 2: "mutex_step (False, ?o(0 := Trying False)) (True, ?o(0 := Inside))"
    using try_acquire [of "?o(0 := Trying False)" 0 False False True True False]
    by (simp add: atomic_compare_exchange_def)
  have 3: "mutex_step (True, ?o(0 := Inside)) (True, ?o(0 := Inside, 1 := Trying False))"
    by (rule call_acquire) simp
  have 4: "mutex_step (True, ?o(0 := Inside, 1 := Trying False)) (True, ?o(0 := Inside, 1 := Trying True))"
    using try_acquire [of "?o(0 := Inside, 1 := Trying False)" 1 False True False True True]
    by (simp add: atomic_compare_exchange_def)
  have 5: "mutex_step (True, ?o(0 := Inside, 1 := Trying True)) (True, ?o(0 := Inside, 1 := Inside))"
    using try_acquire [of "?o(0 := Inside, 1 := Trying True)" 1 True True True True True]
    by (simp add: atomic_compare_exchange_def)
  have "mutex_step\<^sup>*\<^sup>* (False, ?o) (True, ?o(0 := Inside, 1 := Inside))"
    using 1 2 3 4 5 by (meson converse_rtranclp_into_rtranclp rtranclp.rtrancl_refl)
  thus ?thesis by fastforce
qed

text \<open>The first \<open>futex_enqueue\<close> after \<open>init_futex\<close> faults: the loop dereferences the zeroed
  first entry of the array.\<close>
lemma futex_enqueue_faults_on_empty_array:
  assumes "init_futex s = Some s1"
  shows "futex_enqueue pointer thread s1 = None"
proof -
  obtain a s0 where a: "s1 = s0\<lparr>global_futex_array := a, kmem := memset a 0 1024 (kmem s0),
      global_futex_array_size := 128\<rparr>"
    using assms by (auto simp: init_futex_def Let_def split: prod.splits if_splits)
  have "load64 (memset a 0 1024 (kmem s0)) a = load64 (\<lambda>_. 0) a"
  proof (rule load64_cong)
    fix i :: nat assume "i < 8"
    thus "memset a 0 1024 (kmem s0) (a + of_nat i) = 0"
      by (simp add: memset_spec in_range_def unat_of_nat_u64)
  qed
  also have "\<dots> = 0" by (simp add: load64_unfold)
  finally show ?thesis by (simp add: futex_enqueue_def futex_find_def a Let_def)
qed

definition sample_sync :: sync_kernel where
  "sample_sync = \<lparr>irq_enabled = True, kmem = (\<lambda>_. 0), heap_pages = replicate 16 new_heap_page,
     memmap_arr = [], memmap_bitmap = 0, usable_memmaps_amount = 0, starting_address = 0,
     last_alloced_frame = 0, hhdm_offset = 0xffff800000000000,
     pml4_address_virt_glob = 0, cr3_global = 0, cr3_register = 0,
     rsp_register = 0, rip_register = 0, gp_registers = [], fpu_registers = [], tss_rsp0 = 0,
     threads = (\<lambda>_. None), fd_tables = (\<lambda>_. None), running_thread = 0, num_threads = 0,
     scheduling_started = False, first_thread = True, sched_first = False, new_pid = 0,
     global_futex_array = 0, global_futex_array_size = 0,
     new_pid_mutex = \<lparr>locked = False, mutex_object = 0\<rparr>\<rparr>"

lemma futex_enqueue_faults_on_empty_array_witness:
  "\<exists>s1. init_futex sample_sync = Some s1 \<and> futex_enqueue 0x1000 0x5000 s1 = None"
proof -
  have "fst (kmalloc_byte 1024 sample_sync) \<noteq> NULL" by code_simp
  then obtain s1 where "init_futex sample_sync = Some s1"
    by (cases "kmalloc_byte 1024 sample_sync") (auto simp: init_futex_def Let_def)
  with futex_enqueue_faults_on_empty_array [OF this, of "0x1000" "0x5000"] show ?thesis by blast
qed

end
