(* ===== verification/Scheduler.thy ===== *)
theory Scheduler
  imports Loader Sync
begin

text \<open>
  The scheduler (scheduler.c, scheduler.asm, the timer interrupt of idt.c).  Threads form a ring
  of contexts linked by \<open>next_thread\<close> and \<open>prev_thread\<close>; \<open>running_thread\<close> points into it.  An
  operation that may give the processor away has an outcome: it returns a value, or the context
  switch has continued another thread at the stack and instruction pointers in the registers;
  what the switched-out thread does after it is resumed is what follows the return address on its
  stack.  The stack pointer of the model is the one at the call of \<open>switch_thread\<close>; the C frames
  and interrupt frames above it, the local APIC and the console are not modelled.  A value \<open>None\<close>
  is an execution that does not go on: a failed assertion, a NULL pointer, a \<open>cli; hlt\<close> loop or
  an endless loop.  Time stamps and the addresses the linker fixes are arguments.
\<close>

section \<open>Context switch (scheduler.asm)\<close>

datatype ('v, 's) outcome = Returns 'v 's | Switches 's

definition push64 :: "u64 \<Rightarrow> 'a kernel_scheme \<Rightarrow> 'a kernel_scheme" where
  "push64 v s =
     (let rsp = rsp_register s - 8 in s\<lparr>rsp_register := rsp, kmem := store64 rsp v (kmem s)\<rparr>)"

text \<open>The registers are listed in push order, rax first; the last one pushed is popped first.\<close>

definition pop_regs :: "mem \<Rightarrow> u64 \<Rightarrow> u64 list" where
  "pop_regs m rsp = rev (map (\<lambda>i. load64 m (rsp + of_nat (8 * i))) [0..<15])"

text \<open>\<open>old_rsp\<close> is the thread whose \<open>current_rsp\<close> is saved, or \<open>None\<close> for the address of a local
  variable that is never read.\<close>

definition switch_thread :: "u64 option \<Rightarrow> u64 \<Rightarrow> 'a kernel_scheme \<Rightarrow> 'a kernel_scheme option" where
  "switch_thread old_rsp new_rsp s =
     (let s1 = fold push64 (gp_registers s) (s\<lparr>irq_enabled := False\<rparr>) in
      Option.bind (thread_upd (get_current_thread s1) (\<lambda>t. t\<lparr>ssefxsave := fpu_registers s1\<rparr>) s1) (\<lambda>s2.
      Option.bind
        (case old_rsp of
           None \<Rightarrow> Some s2
         | Some p \<Rightarrow> thread_upd p (\<lambda>t. t\<lparr>current_rsp := rsp_register s2\<rparr>) s2) (\<lambda>s3.
      map_option (\<lambda>t. s3\<lparr>fpu_registers := ssefxsave t,
            gp_registers := pop_regs (kmem s3) new_rsp,
            rip_register := load64 (kmem s3) (new_rsp + 120),
            rsp_register := new_rsp + 128, irq_enabled := True\<rparr>)
        (threads s3 (get_current_thread s3)))))"

definition call_switch :: "u64 \<Rightarrow> u64 option \<Rightarrow> u64 \<Rightarrow> 'a kernel_scheme \<Rightarrow>
    ('v, 'a kernel_scheme) outcome option" where
  "call_switch ret old_rsp new_rsp s = map_option Switches (switch_thread old_rsp new_rsp (push64 ret s))"

section \<open>The ring of threads\<close>

definition insert_thread :: "u64 \<Rightarrow> u64 \<Rightarrow> u64 \<Rightarrow> 'a kernel_scheme \<Rightarrow> 'a kernel_scheme option" where
  "insert_thread left new right s =
     (if left = NULL \<or> new = NULL \<or> right = NULL then None
      else
        Option.bind (thread_upd left (\<lambda>t. t\<lparr>next_thread := new\<rparr>) s) (\<lambda>s1.
        Option.bind (thread_upd right (\<lambda>t. t\<lparr>prev_thread := new\<rparr>) s1) (\<lambda>s2.
        thread_upd new (\<lambda>t. t\<lparr>next_thread := right, prev_thread := left\<rparr>) s2)))"

definition discard_thread :: "u64 \<Rightarrow> 'a kernel_scheme \<Rightarrow> 'a kernel_scheme option" where
  "discard_thread thread s =
     Option.bind (threads s thread) (\<lambda>t.
     Option.bind (thread_upd (prev_thread t) (\<lambda>u. u\<lparr>next_thread := next_thread t\<rparr>) s) (\<lambda>s1.
     Option.bind (threads s1 thread) (\<lambda>t1.
     thread_upd (next_thread t1) (\<lambda>u. u\<lparr>prev_thread := prev_thread t1\<rparr>) s1)))"

definition push_thread :: "u64 \<Rightarrow> 'a kernel_scheme \<Rightarrow> 'a kernel_scheme option" where
  "push_thread thread s =
     (if first_thread s \<or> num_threads s = 0 then
        map_option (\<lambda>s1. s1\<lparr>first_thread := False\<rparr>)
          (thread_upd thread (\<lambda>t. t\<lparr>next_thread := thread, prev_thread := thread\<rparr>)
            (s\<lparr>running_thread := thread\<rparr>))
      else
        Option.bind (threads s (running_thread s)) (\<lambda>r.
        insert_thread (running_thread s) thread (next_thread r) s))"

section \<open>Creating threads\<close>

definition create_new_userspace_page_table :: "'a kernel_scheme \<Rightarrow> u64 \<times> 'a kernel_scheme" where
  "create_new_userspace_page_table s =
     (let (frame, s1) = alloc_frame s;
          page = frame + hhdm_offset s1;
          m1 = fold (\<lambda>i. store64 (page + of_nat (8 * i)) 0) [0..<512] (kmem s1)
      in (page, s1\<lparr>kmem := copy_entries page (pml4_address_virt_glob s1) 256 256 m1\<rparr>))"

definition start_thread :: "code_symbols \<Rightarrow> u64 \<Rightarrow> u64 \<Rightarrow> mem \<Rightarrow> u64 \<times> mem" where
  "start_thread cs sp entry m =
     (let m1 = store64 (sp - 8) (sym_scheduler_return cs) m;
          m2 = store64 (sp - 16) (sym_disable_preemption cs) m1;
          m3 = store64 (sp - 24) entry m2;
          m4 = store64 (sp - 32) (sym_enable_preemption cs) m3
      in (sp - 32 - 8 * 15, m4))"

definition new_thread_context :: "code_symbols \<Rightarrow> u64 \<Rightarrow> u64 \<Rightarrow> u64 \<Rightarrow> thread_context" where
  "new_thread_context cs tid entry base =
     \<lparr>start_time = 0, last_start_time = 0, total_run_time = 0, last_run_time = 0,
      sleep_for_ms = 0, quantum_ns = 10000000, pid = tid, thread_entry = entry, stack_base = base,
      user_rsp = NULL, ssefxsave = replicate 512 0, return_rsp = NULL, misaligned_by = 0,
      current_rsp = NULL, current_misaligned_by = 0, status = replicate 10 0, elf_entry = NULL,
      elf_file = NULL,
      mappings = \<lparr>mapped_virt_addresses_array = [], mapped_array_ptr = NULL, num_mappings = 0,
        max_mappings = 8\<rparr>,
      fd_table = NULL, cr3 = NULL, fs_base = 0, gs_base = 0, current_dir = sym_root_dir cs,
      next_thread = NULL, prev_thread = NULL\<rparr>"

definition create_thread :: "code_symbols \<Rightarrow> u64 \<Rightarrow> u64 \<Rightarrow> 'a kernel_scheme \<Rightarrow>
    (u64 \<times> 'a kernel_scheme) option" where
  "create_thread cs tid entry s =
     (let (irq, s0) = irq_disable_save s;
          (stack, s1) = kmalloc_byte_interruptable THREAD_STACK_SIZE s0;
          base = stack + THREAD_STACK_SIZE;
          (t, s2) = kmalloc_byte_interruptable 800 s1
      in if t = NULL \<or> stack = NULL then None
         else
           (let s3 = s2\<lparr>kmem := memset (base - THREAD_STACK_SIZE) 0 THREAD_STACK_SIZE (kmem s2)\<rparr>;
                c = new_thread_context cs tid entry base;
                (arr, s4) = kmalloc_byte (24 * 8) s3;
                mp = \<lparr>mapped_virt_addresses_array = replicate 8 fresh_mapping, mapped_array_ptr = arr,
                      num_mappings = 0, max_mappings = 8\<rparr>;
                (ht, s5) = kmalloc_byte 24 s4;
                (buckets, s6) = kmalloc_byte (32 * 32) s5
            in if arr = NULL \<or> ht = NULL \<or> buckets = NULL then None
               else
                 (let (sp, m) = start_thread cs base entry (kmem s6)
                  in Some (t, irq_restore (Some irq)
                       (s6\<lparr>kmem := m, fd_tables := (fd_tables s6)(ht \<mapsto> oa_hash_init buckets 32),
                           threads := (threads s6)(t \<mapsto> c\<lparr>mappings := mp, fd_table := ht, current_rsp := sp\<rparr>)\<rparr>)))))"

definition hot_create_and_push_thread :: "code_symbols \<Rightarrow> u64 \<Rightarrow> u64 \<Rightarrow> 'a kernel_scheme \<Rightarrow>
    'a kernel_scheme option" where
  "hot_create_and_push_thread cs tid entry s =
     (let (irq, s0) = irq_disable_save s in
      Option.bind (create_thread cs tid entry s0) (\<lambda>(t, s1).
      let (new_cr3, s2) = create_new_userspace_page_table s1 in
      Option.bind (thread_upd t (\<lambda>u. u\<lparr>cr3 := new_cr3, elf_entry := NULL, elf_file := NULL\<rparr>) s2) (\<lambda>s3.
      map_option (\<lambda>s4. irq_restore (Some irq) (s4\<lparr>num_threads := num_threads s4 + 1\<rparr>))
        (push_thread t s3))))"

definition hot_exec_elf :: "code_symbols \<Rightarrow> u64 \<Rightarrow> u64 \<Rightarrow> 'a kernel_scheme \<Rightarrow>
    'a kernel_scheme option" where
  "hot_exec_elf cs tid file s =
     (let (irq, s0) = irq_disable_save s;
          current_cr3 = cr3_register s0;
          (new_cr3, s1) = create_new_userspace_page_table s0;
          s2 = s1\<lparr>cr3_register := new_cr3 - hhdm_offset s1\<rparr>
      in Option.bind (create_thread cs tid (sym_userspace_run_elf cs) s2) (\<lambda>(t, s3).
         Option.bind (load_elf file new_cr3 s3) (\<lambda>(entry, s4).
         Option.bind (thread_upd t (\<lambda>u. u\<lparr>elf_entry := entry, elf_file := file, cr3 := new_cr3\<rparr>) s4) (\<lambda>s5.
         map_option (\<lambda>s6. irq_restore (Some irq)
             (s6\<lparr>num_threads := num_threads s6 + 1, cr3_register := current_cr3\<rparr>))
           (push_thread t s5)))))"

definition hot_create_and_push_user_thread :: "code_symbols \<Rightarrow> u64 \<Rightarrow> u64 \<Rightarrow> 'a kernel_scheme \<Rightarrow>
    'a kernel_scheme option" where
  "hot_create_and_push_user_thread cs tid entry s =
     (let (irq, s0) = irq_disable_save s in
      Option.bind (create_thread cs tid (sym_userspace_run_elf cs) s0) (\<lambda>(t, s1).
      let (new_cr3, s2) = create_new_userspace_page_table s1 in
      Option.bind (thread_upd t (\<lambda>u. u\<lparr>elf_entry := entry, cr3 := new_cr3, elf_file := NULL\<rparr>) s2) (\<lambda>s3.
      map_option (\<lambda>s4. irq_restore (Some irq) (s4\<lparr>num_threads := num_threads s4 + 1\<rparr>))
        (push_thread t s3))))"

section \<open>Choosing the next thread\<close>

definition set_cr3 :: "u64 \<Rightarrow> 'a kernel_scheme \<Rightarrow> 'a kernel_scheme" where
  "set_cr3 virt s = s\<lparr>cr3_register := virt - hhdm_offset s\<rparr>"

definition change_tss :: "u64 \<Rightarrow> 'a kernel_scheme \<Rightarrow> 'a kernel_scheme" where
  "change_tss rsp s = s\<lparr>tss_rsp0 := rsp\<rparr>"

definition disable_preemption :: "'a kernel_scheme \<Rightarrow> 'a kernel_scheme" where
  "disable_preemption s = s\<lparr>irq_enabled := False\<rparr>"

definition enable_preemption :: "'a kernel_scheme \<Rightarrow> 'a kernel_scheme" where
  "enable_preemption s = s\<lparr>irq_enabled := True\<rparr>"

definition blocked :: "thread_context \<Rightarrow> bool" where
  "blocked t \<longleftrightarrow> status t ! 3 = 1"

definition reschedule_first :: "u64 \<Rightarrow> u64 \<Rightarrow> 'a kernel_scheme \<Rightarrow>
    (unit, 'a kernel_scheme) outcome option" where
  "reschedule_first now ret s =
     (let s1 = s\<lparr>sched_first := True\<rparr>; p = running_thread s1 in
      if p = NULL then None
      else
        Option.bind (thread_upd p (\<lambda>t. t\<lparr>last_run_time := now\<rparr>) s1) (\<lambda>s2.
        Option.bind (threads s2 p) (\<lambda>t.
        call_switch ret None (current_rsp t) (set_cr3 (cr3 t) (change_tss (stack_base t) s2)))))"

text \<open>The loop over a blocked thread (result \<open>True\<close>: it left the function at the idle thread).\<close>

partial_function (option) wait_blocked :: "u64 \<Rightarrow> 'a kernel_scheme \<Rightarrow> (bool \<times> 'a kernel_scheme) option" where
  "wait_blocked n s =
     Option.bind (threads s n) (\<lambda>t.
     if blocked t then
       Option.bind (threads s (running_thread s)) (\<lambda>r.
       let s1 = s\<lparr>running_thread := next_thread r\<rparr> in
       if pid t = IDLE_PID then Some (True, s1) else wait_blocked n s1)
     else Some (False, s))"

definition reschedule_switch :: "u64 \<Rightarrow> u64 \<Rightarrow> u64 \<Rightarrow> u64 \<Rightarrow> 'a kernel_scheme \<Rightarrow>
    (unit, 'a kernel_scheme) outcome option" where
  "reschedule_switch now ret current n s =
     Option.bind (threads s n) (\<lambda>t.
     if status t ! 3 = 0 then
       Option.bind (threads s (prev_thread t)) (\<lambda>pt.
       if pid t = pid pt then Some (Returns () s)
       else
         Option.bind (thread_upd current (\<lambda>u. u\<lparr>last_run_time := now\<rparr>) s) (\<lambda>s1.
         let s2 = set_cr3 (cr3 t) (change_tss (stack_base t) s1) in
         Option.bind (threads s2 (running_thread s2)) (\<lambda>r.
         call_switch ret (Some (prev_thread r)) (current_rsp r) s2)))
     else Some (Returns () s))"

definition reschedule_next :: "u64 \<Rightarrow> u64 \<Rightarrow> 'a kernel_scheme \<Rightarrow>
    (unit, 'a kernel_scheme) outcome option" where
  "reschedule_next now ret s =
     (let current = running_thread s in
      Option.bind (threads s current) (\<lambda>c.
      let n = next_thread c; s1 = s\<lparr>running_thread := n\<rparr> in
      if n = NULL then None
      else
        Option.bind (threads s1 n) (\<lambda>t.
        Option.bind (threads s1 (prev_thread t)) (\<lambda>pt.
        if pid t = pid pt then Some (Returns () (set_cr3 (cr3 t) s1))
        else
          Option.bind (wait_blocked n s1) (\<lambda>(idle, s2).
          if idle then Some (Returns () s2) else reschedule_switch now ret current n s2)))))"

definition reschedule :: "u64 \<Rightarrow> u64 \<Rightarrow> 'a kernel_scheme \<Rightarrow>
    (unit, 'a kernel_scheme) outcome option" where
  "reschedule now ret s =
     (let s0 = (set_cr3 (pml4_address_virt_glob s) (disable_preemption s))\<lparr>scheduling_started := True\<rparr>
      in if sched_first s0 then reschedule_next now ret s0 else reschedule_first now ret s0)"

text \<open>\<open>init_scheduler\<close> loops on \<open>reschedule\<close>; the clock gives the time stamp of each turn.\<close>

partial_function (option) reschedule_loop :: "(nat \<Rightarrow> u64) \<Rightarrow> u64 \<Rightarrow> nat \<Rightarrow> 'a kernel_scheme \<Rightarrow>
    'a kernel_scheme option" where
  "reschedule_loop clock ret i s =
     Option.bind (reschedule (clock i) ret s) (\<lambda>r.
     case r of
       Switches s1 \<Rightarrow> Some s1
     | Returns u s1 \<Rightarrow> reschedule_loop clock ret (Suc i) s1)"

definition init_scheduler :: "code_symbols \<Rightarrow> u64 \<Rightarrow> (nat \<Rightarrow> u64) \<Rightarrow> u64 \<Rightarrow> 'a kernel_scheme \<Rightarrow>
    'a kernel_scheme option" where
  "init_scheduler cs gen2 clock ret s =
     Option.bind (create_thread cs 1500 gen2 s) (\<lambda>(t, s1).
     Option.bind (push_thread t s1) (reschedule_loop clock ret 0))"

definition hot_reschedule :: "u64 \<Rightarrow> u64 \<Rightarrow> 'a kernel_scheme \<Rightarrow> (unit, 'a kernel_scheme) outcome option" where
  "hot_reschedule now ret s =
     (let (irq, s0) = irq_disable_save s in
      map_option (\<lambda>r. case r of
          Returns u s1 \<Rightarrow> Returns () (irq_restore (Some irq) s1)
        | Switches s1 \<Rightarrow> Switches s1)
        (reschedule now ret s0))"

definition yield_thread :: "u64 \<Rightarrow> u64 \<Rightarrow> 'a kernel_scheme \<Rightarrow> (unit, 'a kernel_scheme) outcome option" where
  "yield_thread now ret s =
     (let (irq, s0) = irq_disable_save s in
      Option.bind (threads s0 (get_current_thread s0)) (\<lambda>_. reschedule now ret s0))"

definition thread_interrupter_handler :: "u64 \<Rightarrow> u64 \<Rightarrow> 'a kernel_scheme \<Rightarrow>
    (unit, 'a kernel_scheme) outcome option" where
  "thread_interrupter_handler now ret s =
     (let s0 = disable_preemption s in
      Option.bind (threads s0 (get_current_thread s0)) (\<lambda>_. reschedule now ret s0))"

section \<open>Leaving a thread\<close>

fun unmap_used :: "u64 \<Rightarrow> nat \<Rightarrow> nat \<Rightarrow> 'a kernel_scheme \<Rightarrow> 'a kernel_scheme option" where
  "unmap_used p i 0 s = Some s"
| "unmap_used p i (Suc n) s =
     Option.bind (threads s p) (\<lambda>t.
     let arr = mapped_virt_addresses_array (mappings t) in
     if length arr \<le> i then None
     else if \<not> mv_used (arr ! i) then unmap_used p (Suc i) n s
     else Option.bind (unmap_page (cr3 t) (mv_virt_address (arr ! i)) s) (unmap_used p (Suc i) n))"

text \<open>The release of everything the exiting thread owns, with \<open>running_thread\<close> set to it meanwhile;
  its context is freed last, so its fields can still be read here.\<close>

definition release_thread :: "u64 \<Rightarrow> 'a kernel_scheme \<Rightarrow> 'a kernel_scheme option" where
  "release_thread temp s =
     (let actual_running_thread = running_thread s; s0 = s\<lparr>running_thread := temp\<rparr> in
      Option.bind (threads s0 temp) (\<lambda>t.
      Option.bind
        (if elf_entry t \<noteq> NULL \<and> elf_file t \<noteq> NULL then unload_elf (elf_file t) (cr3 t) s0 else Some s0) (\<lambda>s1.
      Option.bind (threads s1 temp) (\<lambda>t1.
      Option.bind (unmap_used temp 0 (unat (max_mappings (mappings t1))) s1) (\<lambda>s2.
      Option.bind (kfree (fd_table t) s2) (\<lambda>s3.
      Option.bind (fd_tables s3 (fd_table t)) (\<lambda>ht.
      Option.bind (kfree (ht_buckets_ptr ht) s3) (\<lambda>s4.
      Option.bind (discard_thread temp (s4\<lparr>running_thread := actual_running_thread\<rparr>)) (\<lambda>s5.
      let s6 = s5\<lparr>num_threads := num_threads s5 - 1\<rparr> in
      Option.bind (kfree_interruptable (stack_base t - THREAD_STACK_SIZE) s6) (\<lambda>s7.
      free_frame (cr3 t - hhdm_offset s7) s7))))))))))"

definition kill_and_switch_to_idle :: "code_symbols \<Rightarrow> u64 \<Rightarrow> u64 \<Rightarrow> 'a kernel_scheme \<Rightarrow>
    (unit, 'a kernel_scheme) outcome option" where
  "kill_and_switch_to_idle cs ret temp s =
     Option.bind (release_thread temp s) (\<lambda>s1.
     Option.bind (kfree_interruptable temp s1) (\<lambda>s2.
     Option.bind (hot_create_and_push_thread cs IDLE_PID (sym_idle_thread cs) s2) (\<lambda>s3.
     Option.bind (threads s3 (running_thread s3)) (\<lambda>r.
     Option.bind (threads s3 (next_thread r)) (\<lambda>n.
     if pid n \<noteq> IDLE_PID then None
     else call_switch ret None (current_rsp n) (set_cr3 (cr3 n) (change_tss (stack_base n) s3)))))))"

text \<open>The search for a thread that is not blocked; \<open>None\<close> inside the result means that it came back
  to the exiting thread.\<close>

partial_function (option) skip_blocked :: "u64 \<Rightarrow> u64 \<Rightarrow> 'a kernel_scheme \<Rightarrow> u64 option option" where
  "skip_blocked temp_pid n s =
     Option.bind (threads s n) (\<lambda>t.
     if blocked t then
       Option.bind (threads s (next_thread t)) (\<lambda>u.
       if temp_pid = pid u then Some None else skip_blocked temp_pid (next_thread t) s)
     else Some (Some n))"

definition scheduler_return :: "code_symbols \<Rightarrow> u64 \<Rightarrow> 'a kernel_scheme \<Rightarrow>
    (unit, 'a kernel_scheme) outcome option" where
  "scheduler_return cs ret s =
     (let s0 = set_cr3 (pml4_address_virt_glob s) (disable_preemption s); temp = running_thread s0 in
      Option.bind (threads s0 temp) (\<lambda>c.
      let n = next_thread c; s1 = s0\<lparr>running_thread := n\<rparr> in
      if n = NULL then None
      else
        Option.bind (threads s1 n) (\<lambda>t.
        if pid t = pid c then kill_and_switch_to_idle cs ret temp s1
        else
          Option.bind (skip_blocked (pid c) n s1) (\<lambda>r.
          case r of
            None \<Rightarrow> kill_and_switch_to_idle cs ret temp s1
          | Some n' \<Rightarrow>
              Option.bind (threads s1 n') (\<lambda>t'.
              if status t' ! 3 = 0 then
                Option.bind (release_thread temp s1) (\<lambda>s2.
                Option.bind (thread_upd temp (\<lambda>u. u\<lparr>next_thread := NULL\<rparr>) s2) (\<lambda>s3.
                Option.bind (kfree_interruptable temp s3) (\<lambda>s4.
                Option.bind (threads s4 n') (\<lambda>u.
                call_switch ret None (current_rsp u) (set_cr3 (cr3 u) (change_tss (stack_base u) s4))))))
              else Some (Returns () s1))))))"

section \<open>Blocking, waking, searching\<close>

text \<open>Every turn of the loop saves the interrupt flag again, into the same variable.\<close>

fun block_loop :: "u64 \<Rightarrow> u64 \<Rightarrow> u64 \<Rightarrow> u64 \<Rightarrow> nat \<Rightarrow> bool \<Rightarrow> 'a kernel_scheme \<Rightarrow>
    (u64, 'a kernel_scheme) outcome option" where
  "block_loop now ret tid p 0 irq s = Some (Returns NULL (irq_restore (Some irq) s))"
| "block_loop now ret tid p (Suc k) irq s =
     (let (irq', s1) = irq_disable_save s in
      Option.bind (threads s1 p) (\<lambda>t.
      if pid t = tid then
        if blocked t then Some (Returns NULL (irq_restore (Some irq') s1))
        else
          Option.bind (thread_upd p (\<lambda>t. t\<lparr>status := (status t)[3 := 1]\<rparr>) s1) (\<lambda>s2.
          Option.bind (threads s2 (get_current_thread s2)) (\<lambda>c.
          if pid c = tid then
            map_option (\<lambda>r. case r of
                Returns u s3 \<Rightarrow> Returns p (irq_restore (Some irq') s3)
              | Switches s3 \<Rightarrow> Switches s3)
              (thread_interrupter_handler now ret s2)
          else Some (Returns p (irq_restore (Some irq') s2))))
      else block_loop now ret tid (next_thread t) k irq' s1))"

definition block_thread :: "u64 \<Rightarrow> u64 \<Rightarrow> u64 \<Rightarrow> 'a kernel_scheme \<Rightarrow>
    (u64, 'a kernel_scheme) outcome option" where
  "block_thread now ret tid s =
     (let (irq, s0) = irq_disable_save s
      in block_loop now ret tid (running_thread s0) (unat (num_threads s0 + 1)) irq s0)"

definition unblock_thread :: "u64 \<Rightarrow> 'a kernel_scheme \<Rightarrow> 'a kernel_scheme option" where
  "unblock_thread p s =
     (let (irq, s0) = irq_disable_save s in
      Option.bind (threads s0 p) (\<lambda>t.
      map_option (irq_restore (Some irq))
        (if blocked t then thread_upd p (\<lambda>t. t\<lparr>status := (status t)[3 := 0]\<rparr>) s0 else Some s0)))"

text \<open>\<open>ready_queue_head\<close> is a global that no code assigns.\<close>

record sched_kernel = sync_kernel +
  ready_queue_head :: u64

partial_function (option) sleep_loop :: "u64 \<Rightarrow> u64 \<Rightarrow> u64 \<Rightarrow> u64 \<Rightarrow> u64 \<Rightarrow> 'a sched_kernel_scheme \<Rightarrow>
    (u64, 'a sched_kernel_scheme) outcome option" where
  "sleep_loop now ret tid ms p s =
     (if p = NULL then Some (Returns NULL (enable_preemption s))
      else
        Option.bind (threads s p) (\<lambda>t.
        if pid t = tid then
          if status t ! 3 = 1 \<or> status t ! 4 = 1 then Some (Returns NULL (enable_preemption s))
          else
            Option.bind (thread_upd p (\<lambda>t. t\<lparr>status := (status t)[3 := 1, 4 := 1], last_run_time := now,
                sleep_for_ms := ms\<rparr>) (disable_preemption s)) (\<lambda>s1.
            Option.bind (threads s1 (get_current_thread s1)) (\<lambda>c.
            if tid = pid c then
              map_option (\<lambda>r. case r of
                  Returns u s2 \<Rightarrow> Returns p (enable_preemption s2)
                | Switches s2 \<Rightarrow> Switches s2)
                (thread_interrupter_handler now ret s1)
            else Some (Returns p (enable_preemption s1))))
        else sleep_loop now ret tid ms (next_thread t) (disable_preemption s)))"

definition sleep_thread :: "u64 \<Rightarrow> u64 \<Rightarrow> u64 \<Rightarrow> u64 \<Rightarrow> 'a sched_kernel_scheme \<Rightarrow>
    (u64, 'a sched_kernel_scheme) outcome option" where
  "sleep_thread now ret tid ms s =
     sleep_loop now ret tid ms (ready_queue_head s) (disable_preemption s)"

fun find_pid :: "u64 \<Rightarrow> u64 \<Rightarrow> nat \<Rightarrow> 'a kernel_scheme \<Rightarrow> u64 option option" where
  "find_pid tid p 0 s = Some None"
| "find_pid tid p (Suc k) s =
     Option.bind (threads s p) (\<lambda>t.
     if pid t = tid then Some (Some p) else find_pid tid (next_thread t) k s)"

definition get_thread_by_pid :: "u64 \<Rightarrow> 'a kernel_scheme \<Rightarrow> (u64 \<times> 'a kernel_scheme) option" where
  "get_thread_by_pid tid s =
     (let (irq, s0) = irq_disable_save s in
      map_option (\<lambda>r. case r of
          Some p \<Rightarrow> (p, s0)
        | None \<Rightarrow> (NULL, irq_restore (Some irq) s0))
        (find_pid tid (running_thread s0) (unat (num_threads s0 + 1)) s0))"

definition print_queue :: "'a kernel_scheme \<Rightarrow> 'a kernel_scheme" where
  "print_queue s = (let (irq, s0) = irq_disable_save s in irq_restore (Some irq) s0)"

section \<open>The ring as a list\<close>

definition next_of :: "(u64 \<Rightarrow> thread_context option) \<Rightarrow> u64 \<Rightarrow> u64 option" where
  "next_of T x = map_option next_thread (T x)"

definition prev_of :: "(u64 \<Rightarrow> thread_context option) \<Rightarrow> u64 \<Rightarrow> u64 option" where
  "prev_of T x = map_option prev_thread (T x)"

definition linked :: "(u64 \<Rightarrow> thread_context option) \<Rightarrow> u64 \<Rightarrow> u64 \<Rightarrow> bool" where
  "linked T x y \<longleftrightarrow> next_of T x = Some y \<and> prev_of T y = Some x"

definition ring :: "'a kernel_scheme \<Rightarrow> u64 list \<Rightarrow> bool" where
  "ring s xs \<longleftrightarrow> xs \<noteq> [] \<and> distinct xs \<and> NULL \<notin> set xs \<and> hd xs = running_thread s \<and>
     successively (linked (threads s)) (xs @ [hd xs])"

lemma linked_frame:
  assumes "successively (linked T) xs"
    and "\<And>x. x \<in> set (butlast xs) \<Longrightarrow> next_of T' x = next_of T x"
    and "\<And>x. x \<in> set (tl xs) \<Longrightarrow> prev_of T' x = prev_of T x"
  shows "successively (linked T') xs"
  using assms
proof (induction xs rule: induct_list012)
  case (3 x y zs)
  have "successively (linked T') (y # zs)"
    using 3 by (intro "3.IH"(2)) (auto split: if_splits)
  thus ?case using 3 by (auto simp: linked_def)
qed auto

lemma successively_rotate:
  "successively P (x # ys @ [x]) \<Longrightarrow> successively P ((ys @ [x]) @ [hd (ys @ [x])])"
proof (cases ys)
  case (Cons y zs)
  assume "successively P (x # ys @ [x])"
  thus ?thesis unfolding Cons by (subst successively_append_iff) simp
qed simp

lemma ring_advance:
  assumes "ring s (x # ys)"
  shows "ring (s\<lparr>running_thread := hd (ys @ [x])\<rparr>) (rotate1 (x # ys))"
proof -
  have "successively (linked (threads s)) ((ys @ [x]) @ [hd (ys @ [x])])"
    using assms by (intro successively_rotate) (auto simp: ring_def)
  thus ?thesis using assms by (auto simp: ring_def)
qed

lemma ring_threads:
  assumes "ring s xs" "x \<in> set xs"
  obtains t where "threads s x = Some t"
proof -
  obtain ys zs where xs: "xs = ys @ x # zs" using assms(2) by (meson split_list)
  have "\<exists>y. linked (threads s) x y"
    using assms(1) by (cases zs) (auto simp: ring_def xs successively_append_iff)
  thus thesis using that by (auto simp: linked_def next_of_def)
qed

lemma ring_next:
  assumes "ring s (x # ys)"
  obtains t u where "threads s x = Some t" "next_thread t = hd (ys @ [x])"
    "threads s (hd (ys @ [x])) = Some u" "prev_thread u = x"
proof -
  have "linked (threads s) x (hd (ys @ [x]))"
    using assms by (cases ys) (auto simp: ring_def)
  thus thesis using that by (auto simp: linked_def next_of_def prev_of_def)
qed

lemma next_of_upd [simp]: "next_of (T(p \<mapsto> t)) x = (if x = p then Some (next_thread t) else next_of T x)"
  by (simp add: next_of_def)

lemma prev_of_upd [simp]: "prev_of (T(p \<mapsto> t)) x = (if x = p then Some (prev_thread t) else prev_of T x)"
  by (simp add: prev_of_def)

lemma insert_thread_links:
  assumes "threads s l = Some c" "threads s r = Some u" "threads s new = Some t"
    and "l \<noteq> NULL" "r \<noteq> NULL" "new \<noteq> NULL" "new \<noteq> l" "new \<noteq> r"
  obtains s' where "insert_thread l new r s = Some s'" "running_thread s' = running_thread s"
    "next_of (threads s') = (next_of (threads s))(l \<mapsto> new, new \<mapsto> r)"
    "prev_of (threads s') = (prev_of (threads s))(r \<mapsto> new, new \<mapsto> l)"
proof
  let ?T1 = "(threads s)(l \<mapsto> c\<lparr>next_thread := new\<rparr>)"
  let ?u = "the (?T1 r)"
  let ?T2 = "?T1(r \<mapsto> ?u\<lparr>prev_thread := new\<rparr>)"
  let ?T3 = "?T2(new \<mapsto> t\<lparr>next_thread := r, prev_thread := l\<rparr>)"
  have 1: "thread_upd l (\<lambda>t. t\<lparr>next_thread := new\<rparr>) s = Some (s\<lparr>threads := ?T1\<rparr>)"
    using assms(1) by simp
  have 2: "thread_upd r (\<lambda>t. t\<lparr>prev_thread := new\<rparr>) (s\<lparr>threads := ?T1\<rparr>) = Some (s\<lparr>threads := ?T2\<rparr>)"
    using assms(2) by (simp add: thread_upd_def)
  have 3: "thread_upd new (\<lambda>t. t\<lparr>next_thread := r, prev_thread := l\<rparr>) (s\<lparr>threads := ?T2\<rparr>) = Some (s\<lparr>threads := ?T3\<rparr>)"
    using assms(3,7,8) by (simp add: thread_upd_def)
  show "insert_thread l new r s = Some (s\<lparr>threads := ?T3\<rparr>)"
    using assms(4-6) by (simp add: insert_thread_def 1 2 3 del: fun_upd_apply)
  show "running_thread (s\<lparr>threads := ?T3\<rparr>) = running_thread s" by simp
  show "next_of (threads (s\<lparr>threads := ?T3\<rparr>)) = (next_of (threads s))(l \<mapsto> new, new \<mapsto> r)"
    using assms by (auto simp: fun_eq_iff next_of_def)
  show "prev_of (threads (s\<lparr>threads := ?T3\<rparr>)) = (prev_of (threads s))(r \<mapsto> new, new \<mapsto> l)"
    using assms by (auto simp: fun_eq_iff prev_of_def)
qed

lemma ring_insert:
  assumes r: "ring s (x # ys)" and new: "new \<notin> set (x # ys)" "new \<noteq> NULL" "threads s new = Some t"
  shows "\<exists>s'. insert_thread x new (hd (ys @ [x])) s = Some s' \<and> ring s' (x # new # ys)"
proof -
  let ?z = "hd (ys @ [x])"
  have d: "x \<notin> set ys" "distinct ys" "x \<noteq> NULL" "NULL \<notin> set ys" "running_thread s = x"
    "successively (linked (threads s)) (x # ys @ [x])" using r by (auto simp: ring_def)
  obtain c u where c: "threads s x = Some c" "next_thread c = ?z" "threads s ?z = Some u" "prev_thread u = x"
    using r by (rule ring_next)
  have z: "?z \<in> set (x # ys)" by (cases ys) auto
  hence "?z \<noteq> NULL" "new \<noteq> ?z" "new \<noteq> x" using d new by auto
  then obtain s' where s': "insert_thread x new ?z s = Some s'" "running_thread s' = running_thread s"
    "next_of (threads s') = (next_of (threads s))(x \<mapsto> new, new \<mapsto> ?z)"
    "prev_of (threads s') = (prev_of (threads s))(?z \<mapsto> new, new \<mapsto> x)"
    using insert_thread_links [OF c(1,3) new(3) d(3) _ new(2)] by metis
  have "successively (linked (threads s')) (ys @ [x])"
  proof (rule linked_frame)
    show "successively (linked (threads s)) (ys @ [x])" using d(6) by (cases ys) auto
    show "next_of (threads s') y = next_of (threads s) y" if "y \<in> set (butlast (ys @ [x]))" for y
      using that d(1) new(1) by (auto simp: s'(3))
    show "prev_of (threads s') y = prev_of (threads s) y" if "y \<in> set (tl (ys @ [x]))" for y
      using that d(1,2) new(1) by (cases ys) (auto simp: s'(4))
  qed
  moreover have "linked (threads s') x new" "linked (threads s') new ?z"
    using \<open>new \<noteq> ?z\<close> \<open>new \<noteq> x\<close> by (auto simp: linked_def s'(3,4))
  ultimately have "successively (linked (threads s')) (x # new # ys @ [x])"
    by (cases ys) auto
  thus ?thesis using s'(1,2) d new by (auto simp: ring_def)
qed

lemma last_notin_butlast: "distinct xs \<Longrightarrow> last xs \<notin> set (butlast xs)"
  by (induction xs rule: rev_induct) auto

lemma ring_discard:
  assumes r: "ring s (x # ys)" and ys: "ys \<noteq> []"
  obtains s' where "discard_thread x (s\<lparr>running_thread := hd ys\<rparr>) = Some s'" "ring s' ys"
proof -
  let ?s = "s\<lparr>running_thread := hd ys\<rparr>" and ?p = "last ys" and ?n = "hd ys"
  have d: "x \<notin> set ys" "distinct ys" "NULL \<notin> set ys"
    "successively (linked (threads s)) (x # ys @ [x])" using r by (auto simp: ring_def)
  have "linked (threads s) x ?n" using d(4) ys by (cases ys) auto
  then obtain t where t: "threads s x = Some t" "next_thread t = ?n"
    by (auto simp: linked_def next_of_def)
  have "successively (linked (threads s)) ((x # ys) @ [x])" using d(4) by simp
  hence "linked (threads s) ?p x" using ys by (subst (asm) successively_append_iff) simp
  hence p: "prev_thread t = ?p" "\<exists>u. threads s ?p = Some u"
    using t by (auto simp: linked_def next_of_def prev_of_def)
  then obtain u where u: "threads s ?p = Some u" by auto
  let ?T1 = "(threads s)(?p \<mapsto> u\<lparr>next_thread := ?n\<rparr>)"
  obtain w where w: "threads s ?n = Some w" using ring_threads [OF r, of ?n] ys by auto
  define v where "v = (if ?n = ?p then u\<lparr>next_thread := ?n\<rparr> else w)"
  have v: "?T1 ?n = Some v" using w by (simp add: v_def)
  let ?T2 = "?T1(?n \<mapsto> v\<lparr>prev_thread := ?p\<rparr>)"
  have px: "?p \<noteq> x" "?n \<noteq> x" using d(1) ys by auto
  have 1: "thread_upd ?p (\<lambda>u. u\<lparr>next_thread := ?n\<rparr>) ?s = Some (?s\<lparr>threads := ?T1\<rparr>)" using u by simp
  have 2: "thread_upd ?n (\<lambda>u. u\<lparr>prev_thread := ?p\<rparr>) (?s\<lparr>threads := ?T1\<rparr>) = Some (?s\<lparr>threads := ?T2\<rparr>)"
    using v by (simp add: thread_upd_def del: fun_upd_apply)
  have 3: "?T1 x = Some t" using t px by simp
  have res: "discard_thread x ?s = Some (?s\<lparr>threads := ?T2\<rparr>)"
    using t p 3 by (simp add: discard_thread_def 1 2 del: fun_upd_apply)
  have n2: "next_of ?T2 = (next_of (threads s))(?p \<mapsto> ?n)"
    using w by (rule_tac ext) (simp add: v_def, simp add: next_of_def)
  have p2: "prev_of ?T2 = (prev_of (threads s))(?n \<mapsto> ?p)"
    using u by (rule_tac ext) (simp, simp add: prev_of_def)
  have "successively (linked ?T2) ys"
  proof (rule linked_frame)
    have "successively (linked (threads s)) (ys @ [x])" using d(4) ys by (cases ys) auto
    thus "successively (linked (threads s)) ys" by (simp add: successively_append_iff)
    show "next_of ?T2 y = next_of (threads s) y" if "y \<in> set (butlast ys)" for y
      using that last_notin_butlast [OF d(2)] unfolding n2 by auto
    show "prev_of ?T2 y = prev_of (threads s) y" if "y \<in> set (tl ys)" for y
      using that d(2) unfolding p2 by (cases ys) auto
  qed
  moreover have "linked ?T2 ?p ?n" unfolding linked_def n2 p2 by simp
  ultimately have "successively (linked ?T2) (ys @ [hd ys])" using ys by (simp add: successively_append_iff)
  hence "ring (?s\<lparr>threads := ?T2\<rparr>) ys" using d ys by (simp add: ring_def)
  with res show thesis by (rule that)
qed

section \<open>One turn of the scheduler\<close>

primrec outcome_state :: "('v, 's) outcome \<Rightarrow> 's" where
  "outcome_state (Returns v s) = s"
| "outcome_state (Switches s) = s"

text \<open>What the scheduler decides on: the running thread and the links, identifier and status of
  every thread.\<close>

definition thread_view :: "(u64 \<Rightarrow> thread_context option) \<Rightarrow> u64 \<Rightarrow> (u64 \<times> u64 \<times> u64 \<times> u64 list) option" where
  "thread_view T p = map_option (\<lambda>t. (next_thread t, prev_thread t, pid t, status t)) (T p)"

definition same_sched :: "'a kernel_scheme \<Rightarrow> 'a kernel_scheme \<Rightarrow> bool" where
  "same_sched s s' \<longleftrightarrow> running_thread s' = running_thread s \<and> sched_first s' = sched_first s \<and>
     thread_view (threads s') = thread_view (threads s)"

definition runnable :: "'a kernel_scheme \<Rightarrow> u64 list \<Rightarrow> bool" where
  "runnable s xs \<longleftrightarrow> ring s xs \<and> sched_first s \<and>
     (\<forall>x\<in>set xs. \<forall>t. threads s x = Some t \<longrightarrow> length (status t) = 10 \<and> status t ! 3 = 0) \<and>
     distinct (map (\<lambda>x. map_option pid (threads s x)) xs)"

lemma thread_view_upd:
  assumes "T p = Some t" "next_thread (f t) = next_thread t" "prev_thread (f t) = prev_thread t"
    "pid (f t) = pid t" "status (f t) = status t"
  shows "thread_view (T(p \<mapsto> f t)) = thread_view T"
  using assms by (auto simp: fun_eq_iff thread_view_def)

lemma same_sched_links:
  assumes "same_sched s s'"
  shows "next_of (threads s') = next_of (threads s)" "prev_of (threads s') = prev_of (threads s)"
    "map_option pid (threads s' p) = map_option pid (threads s p)"
    "map_option status (threads s' p) = map_option status (threads s p)"
proof -
  have v: "thread_view (threads s') = thread_view (threads s)" using assms by (simp add: same_sched_def)
  have proj: "next_of T = (\<lambda>p. map_option fst (thread_view T p))"
    "prev_of T = (\<lambda>p. map_option (fst \<circ> snd) (thread_view T p))"
    "map_option pid (T p) = map_option (fst \<circ> snd \<circ> snd) (thread_view T p)"
    "map_option status (T p) = map_option (snd \<circ> snd \<circ> snd) (thread_view T p)" for T p
    by (simp_all add: fun_eq_iff next_of_def prev_of_def thread_view_def option.map_comp comp_def)
  show "next_of (threads s') = next_of (threads s)" "prev_of (threads s') = prev_of (threads s)"
    "map_option pid (threads s' p) = map_option pid (threads s p)"
    "map_option status (threads s' p) = map_option status (threads s p)"
    by (simp_all only: proj v)
qed

lemma same_sched_ring: "same_sched s s' \<Longrightarrow> ring s' xs = ring s xs"
  by (simp add: ring_def same_sched_links(1,2) linked_def [abs_def]) (simp add: same_sched_def)

lemma status_0_iff: "(\<forall>t. threads s x = Some t \<longrightarrow> length (status t) = 10 \<and> status t ! 3 = 0) \<longleftrightarrow>
    (\<forall>st. map_option status (threads s x) = Some st \<longrightarrow> length st = 10 \<and> st ! 3 = 0)"
  by auto

lemma same_sched_runnable: "same_sched s s' \<Longrightarrow> runnable s' xs = runnable s xs"
  unfolding runnable_def status_0_iff
  by (simp add: same_sched_ring same_sched_links(3,4)) (simp add: same_sched_def)

lemma runnable_advance:
  assumes "runnable s (x # ys)"
  shows "runnable (s\<lparr>running_thread := hd (ys @ [x])\<rparr>) (rotate1 (x # ys))"
  using assms ring_advance [of s x ys] by (auto simp: runnable_def)

lemma fold_push64:
  "fold push64 vs s = s\<lparr>rsp_register := fst (fold PUSH vs (rsp_register s, kmem s)),
     kmem := snd (fold PUSH vs (rsp_register s, kmem s))\<rparr>"
  by (induction vs arbitrary: s) (simp_all add: push64_def PUSH_def Let_def)

lemma switch_thread_to:
  assumes cur: "threads s (running_thread s) = Some t" and old: "threads s p = Some u" "p \<noteq> running_thread s"
  shows "\<exists>s'. switch_thread (Some p) new_rsp s = Some s' \<and> running_thread s' = running_thread s \<and>
     sched_first s' = sched_first s \<and> fpu_registers s' = fpu_registers s \<and>
     cr3_register s' = cr3_register s \<and> tss_rsp0 s' = tss_rsp0 s \<and> irq_enabled s' \<and>
     threads s' = (threads s)(running_thread s \<mapsto> t\<lparr>ssefxsave := fpu_registers s\<rparr>,
       p \<mapsto> u\<lparr>current_rsp := rsp_register s - of_nat (8 * length (gp_registers s))\<rparr>)"
  using assms by (simp add: switch_thread_def Let_def fold_push64 get_current_thread_def fold_PUSH_fst
      fun_upd_twist)

lemma switch_thread_returns:
  "threads s (running_thread s) = Some t \<Longrightarrow> \<exists>s'. switch_thread None new_rsp s = Some s'"
  by (simp add: switch_thread_def Let_def fold_push64 get_current_thread_def)

lemma wait_blocked_free: "threads s n = Some t \<Longrightarrow> status t ! 3 = 0 \<Longrightarrow> wait_blocked n s = Some (False, s)"
  by (subst wait_blocked.simps) (simp add: blocked_def)

text \<open>The state in which \<open>reschedule\<close> leaves the processor after a switch from \<open>x\<close> to \<open>y\<close>.\<close>

definition switched :: "u64 \<Rightarrow> u64 \<Rightarrow> 'a kernel_scheme \<Rightarrow> 'a kernel_scheme \<Rightarrow> bool" where
  "switched x y s s' \<longleftrightarrow> same_sched (s\<lparr>running_thread := y\<rparr>) s' \<and> irq_enabled s' \<and>
     cr3_register s' = cr3 (the (threads s y)) - hhdm_offset s \<and>
     tss_rsp0 s' = stack_base (the (threads s y)) \<and> fpu_registers s' = fpu_registers s \<and>
     ssefxsave (the (threads s' x)) = ssefxsave (the (threads s x)) \<and>
     ssefxsave (the (threads s' y)) = fpu_registers s"

lemma reschedule_switches:
  assumes r: "runnable s (x # y # zs)"
  shows "\<exists>s'. reschedule now ret s = Some (Switches s') \<and> switched x y s s'"
proof -
  have xy: "x \<noteq> y" "running_thread s = x" "x \<noteq> NULL" "y \<noteq> NULL" and f: "sched_first s"
    using r by (auto simp: runnable_def ring_def)
  obtain c t where c: "threads s x = Some c" "next_thread c = y" "threads s y = Some t" "prev_thread t = x"
    using r ring_next [of s x "y # zs"] by (auto simp: runnable_def)
  have st: "status t ! 3 = 0" "pid t \<noteq> pid c" using r c by (auto simp: runnable_def)
  define s0 where "s0 = (set_cr3 (pml4_address_virt_glob s) (disable_preemption s))\<lparr>scheduling_started := True\<rparr>"
  define s1 where "s1 = s0\<lparr>running_thread := y\<rparr>"
  define s2 where "s2 = set_cr3 (cr3 t) (change_tss (stack_base t)
      (s1\<lparr>threads := (threads s)(x \<mapsto> c\<lparr>last_run_time := now\<rparr>)\<rparr>))"
  note sdefs = s2_def s1_def s0_def set_cr3_def change_tss_def disable_preemption_def
  have 0: "threads s0 = threads s" "running_thread s0 = x" "sched_first s0" using xy f by (simp_all add: sdefs)
  have 1: "threads s1 = threads s" "running_thread s1 = y" by (simp_all add: sdefs)
  have t2: "threads s2 (running_thread s2) = Some t" using c xy by (simp add: sdefs)
  have up: "thread_upd x (\<lambda>u. u\<lparr>last_run_time := now\<rparr>) s1 = Some (s1\<lparr>threads := (threads s)(x \<mapsto> c\<lparr>last_run_time := now\<rparr>)\<rparr>)"
    using c by (simp add: 1)
  have "reschedule now ret s = reschedule_next now ret s0"
    using f by (simp add: reschedule_def Let_def s0_def set_cr3_def disable_preemption_def)
  also have "\<dots> = reschedule_switch now ret x y s1"
    using c st xy wait_blocked_free [of s1 y t]
    by (simp add: reschedule_next_def Let_def 0 1 flip: s1_def)
  also have "\<dots> = call_switch ret (Some x) (current_rsp t) s2"
    using c st t2 by (simp add: reschedule_switch_def Let_def 1 up flip: s2_def)
  finally have eq: "reschedule now ret s = map_option Switches (switch_thread (Some x) (current_rsp t) (push64 ret s2))"
    by (simp add: call_switch_def)
  let ?s3 = "push64 ret s2"
  have "threads ?s3 (running_thread ?s3) = Some t" "threads ?s3 x = Some (c\<lparr>last_run_time := now\<rparr>)"
      "x \<noteq> running_thread ?s3"
    using c xy by (simp_all add: push64_def Let_def sdefs)
  from switch_thread_to [OF this, of "current_rsp t"] obtain s' where
    s': "switch_thread (Some x) (current_rsp t) ?s3 = Some s'" "running_thread s' = y" "sched_first s'"
      "fpu_registers s' = fpu_registers s" "cr3_register s' = cr3 t - hhdm_offset s"
      "tss_rsp0 s' = stack_base t" "irq_enabled s'"
      "\<exists>r. threads s' = (threads s)(x \<mapsto> c\<lparr>last_run_time := now\<rparr>, y \<mapsto> t\<lparr>ssefxsave := fpu_registers s\<rparr>,
         x \<mapsto> c\<lparr>last_run_time := now, current_rsp := r\<rparr>)"
    using f by (auto simp: push64_def Let_def sdefs)
  then obtain r where th: "threads s' = (threads s)(y \<mapsto> t\<lparr>ssefxsave := fpu_registers s\<rparr>,
      x \<mapsto> c\<lparr>last_run_time := now, current_rsp := r\<rparr>)" using xy by (auto simp: fun_upd_twist)
  hence "thread_view (threads s') = thread_view (threads s)"
    using c xy by (auto simp: fun_eq_iff thread_view_def)
  hence "switched x y s s'" using s' c xy f th by (simp add: switched_def same_sched_def)
  thus ?thesis using eq s'(1) by simp
qed

lemma reschedule_alone:
  assumes r: "runnable s [x]"
  shows "\<exists>s'. reschedule now ret s = Some (Returns () s') \<and> same_sched s s'"
proof -
  have xy: "running_thread s = x" "x \<noteq> NULL" and f: "sched_first s"
    using r by (auto simp: runnable_def ring_def)
  obtain c where "threads s x = Some c" "next_thread c = x" "prev_thread c = x"
    using r ring_next [of s x "[]"] by (auto simp: runnable_def)
  thus ?thesis using xy f
    by (simp add: reschedule_def reschedule_next_def Let_def set_cr3_def disable_preemption_def same_sched_def)
qed

section \<open>Turn taking\<close>

inductive turns :: "('s \<Rightarrow> 's \<Rightarrow> bool) \<Rightarrow> ('s \<Rightarrow> 's \<Rightarrow> bool) \<Rightarrow> nat \<Rightarrow> 's \<Rightarrow> 's \<Rightarrow> bool"
  for turn other where
  turns_0: "turns turn other 0 s s"
| turns_turn: "turns turn other n s s' \<Longrightarrow> turn s' s'' \<Longrightarrow> turns turn other (Suc n) s s''"
| turns_other: "turns turn other n s s' \<Longrightarrow> other s' s'' \<Longrightarrow> turns turn other n s s''"

locale turn_taking =
  fixes ready :: "'s \<Rightarrow> 'p list \<Rightarrow> bool" and turn other :: "'s \<Rightarrow> 's \<Rightarrow> bool" and running :: "'s \<Rightarrow> 'p"
  assumes running_hd: "ready s xs \<Longrightarrow> xs \<noteq> [] \<and> running s = hd xs"
    and turn_possible: "ready s xs \<Longrightarrow> \<exists>s'. turn s s'"
    and turn_rotates: "ready s xs \<Longrightarrow> turn s s' \<Longrightarrow> ready s' (rotate1 xs)"
    and other_keeps: "ready s xs \<Longrightarrow> other s s' \<Longrightarrow> ready s' xs"
begin

lemma turns_rotate: "turns turn other n s s' \<Longrightarrow> ready s xs \<Longrightarrow> ready s' (rotate n xs)"
proof (induction rule: turns.induct)
  case (turns_turn n s s' s'')
  thus ?case using turn_rotates by (simp flip: rotate1_rotate_swap)
qed (auto intro: other_keeps)

lemma turns_possible: "ready s xs \<Longrightarrow> \<exists>s'. turns turn other n s s'"
proof (induction n)
  case (Suc n)
  then obtain s' where s': "turns turn other n s s'" by blast
  thus ?case using turn_possible turns_rotate [OF s'] Suc.prems turns.turns_turn by metis
qed (blast intro: turns.turns_0)

lemma every_one_runs:
  assumes "ready s xs" "p \<in> set xs"
  shows "\<exists>n<length xs. (\<exists>s'. turns turn other n s s') \<and> (\<forall>s'. turns turn other n s s' \<longrightarrow> running s' = p)"
proof -
  obtain n where n: "n < length xs" "xs ! n = p" using assms(2) by (auto simp: in_set_conv_nth)
  have "running s' = p" if "turns turn other n s s'" for s'
  proof -
    have "running s' = hd (rotate n xs)" using running_hd [OF turns_rotate [OF that assms(1)]] by simp
    also have "\<dots> = xs ! n" using n(1) by (subst hd_rotate_conv_nth) auto
    finally show ?thesis using n(2) by simp
  qed
  thus ?thesis using n(1) turns_possible [OF assms(1)] by blast
qed

end

definition timer_turn :: "'a kernel_scheme \<Rightarrow> 'a kernel_scheme \<Rightarrow> bool" where
  "timer_turn s s' \<longleftrightarrow> (\<exists>now ret r. reschedule now ret s = Some r \<and> outcome_state r = s')"

lemma timer_turn_cases:
  assumes "runnable s xs"
  shows "\<exists>r. reschedule now ret s = Some r \<and> runnable (outcome_state r) (rotate1 xs)"
proof -
  obtain x ys where xs: "xs = x # ys" using assms by (cases xs) (auto simp: runnable_def ring_def)
  show ?thesis
  proof (cases ys)
    case Nil
    then obtain s' where "reschedule now ret s = Some (Returns () s')" "same_sched s s'"
      using assms reschedule_alone xs by metis
    thus ?thesis using assms by (simp add: xs Nil same_sched_runnable)
  next
    case (Cons y zs)
    then obtain s' where s': "reschedule now ret s = Some (Switches s')" "switched x y s s'"
      using assms reschedule_switches xs by metis
    hence "runnable s' (rotate1 xs) = runnable (s\<lparr>running_thread := y\<rparr>) (rotate1 xs)"
      by (intro same_sched_runnable) (simp add: switched_def)
    thus ?thesis using s' runnable_advance [of s x ys] assms by (simp add: xs Cons)
  qed
qed

interpretation rr: turn_taking runnable timer_turn same_sched running_thread
proof (unfold_locales, goal_cases)
  case (1 s xs) thus ?case by (auto simp: runnable_def ring_def)
next
  case (2 s xs) thus ?case using timer_turn_cases by (fastforce simp: timer_turn_def)
next
  case (3 s xs s')
  then obtain now ret r where "reschedule now ret s = Some r" "outcome_state r = s'"
    by (auto simp: timer_turn_def)
  thus ?case using timer_turn_cases [OF 3(1), of now ret] by auto
next
  case (4 s xs s') thus ?case by (simp add: same_sched_runnable)
qed

section \<open>Saved and restored registers\<close>

lemma fold_PUSH_outside:
  assumes "\<not> in_range (sp - of_nat (8 * length vs)) (8 * length vs) a" "length vs < 1000"
  shows "snd (fold PUSH vs (sp, m)) a = m a"
  using assms
proof (induction vs arbitrary: sp m)
  case (Cons v vs)
  let ?b = "sp - of_nat (8 * length (v # vs))"
  have b: "?b = sp - 8 - of_nat (8 * length vs)" by (simp add: algebra_simps)
  have "\<not> in_range (sp - 8 - of_nat (8 * length vs)) (8 * length vs) a"
    using Cons.prems(1) unfolding b by (simp add: in_range_def)
  hence "snd (fold PUSH (v # vs) (sp, m)) a = store64 (sp - 8) v m a"
    using Cons.prems(2) by (simp add: PUSH_def Cons.IH)
  moreover have "\<not> unat (a - (sp - 8)) < 8"
  proof
    assume lt: "unat (a - (sp - 8)) < 8"
    have "a - ?b = of_nat (8 * length vs) + (a - (sp - 8))" unfolding b by simp
    hence "unat (a - ?b) = unat (of_nat (8 * length vs) + (a - (sp - 8)))" by (rule arg_cong)
    also have "\<dots> = 8 * length vs + unat (a - (sp - 8))"
    proof -
      have u: "unat (of_nat (8 * length vs) :: u64) = 8 * length vs"
        by (rule unat_of_nat_u64) (use Cons.prems(2) in simp)
      show ?thesis using lt Cons.prems(2) by (subst unat_add_no_wrap) (simp_all only: u, simp)
    qed
    finally show False using Cons.prems(1) lt by (simp add: in_range_def)
  qed
  ultimately show ?case by (simp add: store64_def)
qed simp

lemma fold_PUSH_inside:
  assumes "i < length vs" "length vs < 1000"
  shows "load64 (snd (fold PUSH vs (sp, m))) (sp - of_nat (8 * Suc i)) = vs ! i"
  using assms
proof (induction vs arbitrary: i sp m)
  case (Cons v vs)
  show ?case
  proof (cases i)
    case 0
    have "load64 (snd (fold PUSH vs (sp - 8, store64 (sp - 8) v m))) (sp - 8) = load64 (store64 (sp - 8) v m) (sp - 8)"
    proof (rule load64_cong)
      fix j :: nat assume j: "j < 8"
      have "sp - 8 + of_nat j - (sp - 8 - of_nat (8 * length vs)) = of_nat (8 * length vs + j)" by simp
      hence "unat (sp - 8 + of_nat j - (sp - 8 - of_nat (8 * length vs))) = 8 * length vs + j"
        using j Cons.prems(2) by (simp only:) (rule unat_of_nat_u64, simp)
      thus "snd (fold PUSH vs (sp - 8, store64 (sp - 8) v m)) (sp - 8 + of_nat j) = store64 (sp - 8) v m (sp - 8 + of_nat j)"
        using Cons.prems(2) by (intro fold_PUSH_outside) (auto simp only: in_range_def list.size)
    qed
    moreover have "PUSH v (sp, m) = (sp - 8, store64 (sp - 8) v m)" by (simp add: PUSH_def)
    ultimately show ?thesis using 0 by simp
  next
    case (Suc k)
    have "sp - of_nat (8 * Suc i) = sp - 8 - of_nat (8 * Suc k)" using Suc by (simp add: algebra_simps)
    moreover have "PUSH v (sp, m) = (sp - 8, store64 (sp - 8) v m)" by (simp add: PUSH_def)
    ultimately show ?thesis using Cons.IH [of k "sp - 8" "store64 (sp - 8) v m"] Cons.prems Suc
      by (simp only: fold_simps comp_apply) simp
  qed
qed simp

lemma load64_range_cong:
  assumes "\<forall>a. in_range p n a \<longrightarrow> m a = m' a" "k + 8 \<le> n" "n \<le> 2 ^ 64"
  shows "load64 m (p + of_nat k) = load64 m' (p + of_nat k)"
proof (rule load64_cong)
  fix j :: nat assume "j < 8"
  hence "in_range p n (p + of_nat (k + j))" using assms(2,3) by (intro in_range_of_nat) auto
  thus "m (p + of_nat k + of_nat j) = m' (p + of_nat k + of_nat j)"
    using assms(1) by (simp add: algebra_simps)
qed

lemma pop_regs_cong:
  assumes "\<And>a. in_range p 120 a \<Longrightarrow> m a = m' a"
  shows "pop_regs m p = pop_regs m' p"
proof -
  have "load64 m (p + of_nat (8 * i)) = load64 m' (p + of_nat (8 * i))" if "i < 15" for i
    by (rule load64_range_cong [of p 120]) (use that assms in auto)
  thus ?thesis unfolding pop_regs_def by simp
qed

lemma pop_regs_nth: "i < 15 \<Longrightarrow> pop_regs m p ! i = load64 m (p + of_nat (8 * (14 - i)))"
  unfolding pop_regs_def using nth_upt [of 0 "14 - i" 15]
  by (subst rev_nth) (simp_all del: upt_rec_numeral upt_Suc of_nat_mult)

lemma pop_pushed:
  assumes "length vs = 15"
  shows "pop_regs (snd (fold PUSH vs (sp, m))) (sp - 120) = vs"
proof (rule nth_equalityI)
  fix i assume "i < length (pop_regs (snd (fold PUSH vs (sp, m))) (sp - 120))"
  hence i: "i < 15" by (simp add: pop_regs_def)
  have "sp - 120 + of_nat (8 * (14 - i)) = sp - of_nat (8 * Suc i)"
  proof -
    have "of_nat (8 * (14 - i)) + of_nat (8 * Suc i) = (120 :: u64)"
      using i by (simp only: of_nat_add [symmetric]) (simp add: algebra_simps)
    thus ?thesis by (simp only: diff_eq_eq eq_diff_eq add.assoc) simp
  qed
  thus "pop_regs (snd (fold PUSH vs (sp, m))) (sp - 120) ! i = vs ! i"
    using i assms fold_PUSH_inside [of i vs sp m] by (simp only: pop_regs_nth)
qed (simp add: pop_regs_def assms)

lemma switch_thread_loads:
  assumes sw: "switch_thread slot new_rsp s = Some s'" and regs: "length (gp_registers s) = 15"
    and apart: "\<And>a. in_range (rsp_register s - 120) 120 a \<Longrightarrow> \<not> in_range new_rsp n a" and n: "128 \<le> n"
  shows "gp_registers s' = pop_regs (kmem s) new_rsp" "rip_register s' = load64 (kmem s) (new_rsp + 120)"
    "rsp_register s' = new_rsp + 128" "\<And>a. in_range new_rsp n a \<Longrightarrow> kmem s' a = kmem s a"
proof -
  let ?m = "snd (fold PUSH (gp_registers s) (rsp_register s, kmem s))"
  have same: "?m a = kmem s a" if "in_range new_rsp n a" for a
    using apart [of a] that regs by (intro fold_PUSH_outside) auto
  have s': "gp_registers s' = pop_regs ?m new_rsp" "rip_register s' = load64 ?m (new_rsp + 120)"
    "rsp_register s' = new_rsp + 128" "kmem s' = ?m"
    using sw by (auto simp: switch_thread_def Let_def fold_push64 thread_upd_def split: option.splits)
  show "rsp_register s' = new_rsp + 128" by (rule s'(3))
  show "kmem s' a = kmem s a" if "in_range new_rsp n a" for a using same [OF that] by (simp add: s'(4))
  show "gp_registers s' = pop_regs (kmem s) new_rsp"
    unfolding s'(1) using n by (intro pop_regs_cong same) (simp add: in_range_def)
  have "\<forall>a. in_range new_rsp 128 a \<longrightarrow> ?m a = kmem s a"
    using n by (intro allI impI same) (simp add: in_range_def)
  from load64_range_cong [OF this, of 120] show "rip_register s' = load64 (kmem s) (new_rsp + 120)"
    by (simp add: s'(2))
qed

section \<open>Blocked threads\<close>

lemma wait_blocked_never:
  assumes "wait_blocked n s = Some r" "threads s n = Some t" "blocked t" "pid t \<noteq> IDLE_PID"
  shows False
  using assms(2-4)
proof (induction rule: wait_blocked.raw_induct [OF _ assms(1), rotated])
  case (1 wb n s r)
  from 1(2-5) have "\<exists>q. wb n (s\<lparr>running_thread := q\<rparr>) = Some r"
    by (auto split: Option.bind_splits simp: Let_def)
  then obtain q where "wb n (s\<lparr>running_thread := q\<rparr>) = Some r" ..
  from 1(1) [OF this] 1(3-5) show ?case by simp
qed

lemma reschedule_blocked_next:
  assumes "sched_first s" "threads s (running_thread s) = Some c" "next_thread c \<noteq> NULL"
    and t: "threads s (next_thread c) = Some t" "threads s (prev_thread t) = Some pt" "pid t \<noteq> pid pt"
    and b: "blocked t" "pid t \<noteq> IDLE_PID"
  shows "reschedule now ret s = None"
proof -
  let ?s0 = "(set_cr3 (pml4_address_virt_glob s) (disable_preemption s))\<lparr>scheduling_started := True\<rparr>"
  let ?s1 = "?s0\<lparr>running_thread := next_thread c\<rparr>"
  have th: "threads ?s0 = threads s" "running_thread ?s0 = running_thread s" "sched_first ?s0 = sched_first s"
    "threads (set_cr3 (pml4_address_virt_glob s) (disable_preemption s)) = threads s"
    by (simp_all add: set_cr3_def disable_preemption_def)
  have "wait_blocked (next_thread c) ?s1 \<noteq> Some r" for r
    using wait_blocked_never [of "next_thread c" ?s1 r t] t b by (auto simp: set_cr3_def disable_preemption_def)
  hence "wait_blocked (next_thread c) ?s1 = None" by (cases "wait_blocked (next_thread c) ?s1") auto
  thus ?thesis using assms by (simp add: reschedule_def reschedule_next_def th Let_def)
qed

lemma block_loop_second:
  assumes "threads s x = Some c" "next_thread c = y" "threads s y = Some t" "pid t \<noteq> pid c"
    "running_thread s = x" "x \<noteq> y" "\<not> blocked t" "2 \<le> k"
  shows "block_loop now ret (pid t) x k irq s =
     Some (Returns y (s\<lparr>irq_enabled := False, threads := (threads s)(y \<mapsto> t\<lparr>status := (status t)[3 := 1]\<rparr>)\<rparr>))"
proof -
  obtain j where k: "k = Suc (Suc j)" using assms(8) by (metis add_2_eq_Suc le_Suc_ex)
  show ?thesis using assms by (simp add: k irq_disable_save_def read_flags_def get_current_thread_def irq_restore_def)
qed

section \<open>A created thread\<close>

text \<open>A heap in which the blocks in use form a prefix and \<open>k\<close> nodes follow it.\<close>

definition heap_room :: "nat \<Rightarrow> 'a vmm_scheme \<Rightarrow> bool" where
  "heap_room k s \<longleftrightarrow> heap_wf (heap_pages s) \<and> length (heap_pages s) \<le> 2 ^ 20 \<and>
     (\<exists>m. heap_prefix m (heap_pages s) \<and> m + k \<le> length (heap_pages s))"

lemma kmalloc_byte_room:
  assumes room: "heap_room (j + k) s" and j: "j = (unat sz + 63) div 64" "0 < j"
  obtains p h where "kmalloc_byte sz s = (p, s\<lparr>heap_pages := h\<rparr>)"
    "kmalloc_byte_interruptable sz s = (p, s\<lparr>heap_pages := h\<rparr>)" "p \<noteq> NULL"
    "heap_room k (s\<lparr>heap_pages := h\<rparr>)"
proof -
  obtain m where m: "heap_wf (heap_pages s)" "length (heap_pages s) \<le> 2 ^ 20" "heap_prefix m (heap_pages s)"
    "m + (j + k) \<le> length (heap_pages s)" using room by (auto simp: heap_room_def)
  let ?n = "of_nat j :: u64"
  have uj: "unat ?n = j" by (rule unat_of_nat_u64) (use m in simp)
  hence n0: "?n \<noteq> 0" using j(2) by auto
  let ?h = "kmalloc_commit (heap_pages s) m ?n"
  have al: "kmalloc ?n s = (chunk_addr m, s\<lparr>heap_pages := ?h\<rparr>)"
    using kmalloc_prefix [OF m(1,3) n0] m(4) uj by simp
  have "heap_room k (s\<lparr>heap_pages := ?h\<rparr>)"
    using kmalloc_wf [OF m(1), of ?n] al m heap_prefix_commit [OF m(3) n0] uj
    by (auto simp: heap_room_def intro!: exI [of _ "m + j"])
  moreover have "chunk_addr m \<noteq> NULL" by (rule chunk_addr_neq_NULL) (use m in simp)
  ultimately show thesis using that [of "chunk_addr m" ?h] al kmalloc_byte_eq [of sz s] j(1) by simp
qed

lemma heap_room_kmem [simp]: "heap_room k (s\<lparr>kmem := m\<rparr>) = heap_room k s"
  "heap_room k (s\<lparr>irq_enabled := b\<rparr>) = heap_room k s"
  by (simp_all add: heap_room_def)

lemma start_thread_memory:
  fixes cs :: code_symbols and base entry :: u64 and m :: mem
  assumes "\<And>a. in_range (base - THREAD_STACK_SIZE) 16000 a \<Longrightarrow> m a = 0"
  defines "m' \<equiv> snd (start_thread cs base entry m)"
  shows "pop_regs m' (base - 152) = replicate 15 0"
    "load64 m' (base - 152 + 120) = sym_enable_preemption cs" "load64 m' (base - 152 + 128) = entry"
    "load64 m' (base - 152 + 136) = sym_disable_preemption cs"
    "load64 m' (base - 152 + 144) = sym_scheduler_return cs"
proof -
  have m': "m' = store64 (base - 32) (sym_enable_preemption cs) (store64 (base - 24) entry
      (store64 (base - 16) (sym_disable_preemption cs) (store64 (base - 8) (sym_scheduler_return cs) m)))"
    by (simp add: m'_def start_thread_def)
  show "load64 m' (base - 152 + 120) = sym_enable_preemption cs" by (simp add: m')
  show "load64 m' (base - 152 + 128) = entry" by (simp add: m' load64_store64_other)
  show "load64 m' (base - 152 + 136) = sym_disable_preemption cs" by (simp add: m' load64_store64_other)
  show "load64 m' (base - 152 + 144) = sym_scheduler_return cs" by (simp add: m' load64_store64_other)
  have zero: "m' a = 0" if "in_range (base - 152) 120 a" for a
  proof -
    obtain i where i: "i < 120" "a = base - 152 + of_nat i" using \<open>in_range (base - 152) 120 a\<close> by (rule in_rangeE)
    have far: "8 \<le> unat (a - (base - of_nat d))" if "d \<in> {8, 16, 24, 32}" for d :: nat
    proof -
      have "of_nat (152 - d - i) + of_nat (2 ^ 64 - (152 - d - i)) = (0 :: u64)"
        unfolding of_nat_add [symmetric] by (subst le_add_diff_inverse) simp_all
      hence "of_nat (2 ^ 64 - (152 - d - i)) = - (of_nat (152 - d - i) :: u64)"
        by (simp add: eq_neg_iff_add_eq_0 add.commute)
      moreover have "a - (base - of_nat d) = - of_nat (152 - d - i)"
        using i that by (auto simp: of_nat_diff algebra_simps)
      ultimately have "a - (base - of_nat d) = of_nat (2 ^ 64 - (152 - d - i))" by (simp only:)
      moreover have "unat (of_nat (2 ^ 64 - (152 - d - i)) :: u64) = 2 ^ 64 - (152 - d - i)"
        by (rule unat_of_nat_u64) (use that i in auto)
      ultimately show ?thesis by simp
    qed
    have "m' a = m a" using far [of 8] far [of 16] far [of 24] far [of 32]
      by (simp add: m' store64_def)
    also have "\<dots> = 0"
    proof (rule assms(1))
      have "a = base - THREAD_STACK_SIZE + of_nat (16000 - 152 + i)"
        using i by (simp add: THREAD_STACK_SIZE_def algebra_simps)
      moreover have "in_range (base - THREAD_STACK_SIZE) 16000 (base - THREAD_STACK_SIZE + of_nat (16000 - 152 + i))"
        using i by (intro in_range_of_nat) auto
      ultimately show "in_range (base - THREAD_STACK_SIZE) 16000 a" by (simp only:)
    qed
    finally show ?thesis .
  qed
  have "pop_regs m' (base - 152) = pop_regs (\<lambda>_. 0) (base - 152)" by (rule pop_regs_cong) (rule zero)
  thus "pop_regs m' (base - 152) = replicate 15 0"
    by (simp add: pop_regs_def load64_unfold map_replicate_const)
qed

lemma create_thread_returns:
  assumes "heap_room 283 s"
  obtains t s1 c where "create_thread cs tid entry s = Some (t, s1)" "t \<noteq> NULL"
    "threads s1 = (threads s)(t \<mapsto> c)" "pid c = tid" "status c = replicate 10 0"
    "current_rsp c = stack_base c - 152" "mappings_ok (mappings c)" "irq_enabled s1 = irq_enabled s"
    "pop_regs (kmem s1) (stack_base c - 152) = replicate 15 0"
    "load64 (kmem s1) (stack_base c - 152 + 120) = sym_enable_preemption cs"
    "load64 (kmem s1) (stack_base c - 152 + 128) = entry"
    "load64 (kmem s1) (stack_base c - 152 + 136) = sym_disable_preemption cs"
    "load64 (kmem s1) (stack_base c - 152 + 144) = sym_scheduler_return cs"
proof -
  let ?s0 = "s\<lparr>irq_enabled := False\<rparr>"
  have "heap_room (250 + 33) ?s0" using assms by simp
  then obtain p1 h1 where 1: "kmalloc_byte_interruptable THREAD_STACK_SIZE ?s0 = (p1, ?s0\<lparr>heap_pages := h1\<rparr>)"
    "p1 \<noteq> NULL" "heap_room 33 (?s0\<lparr>heap_pages := h1\<rparr>)"
    by (rule kmalloc_byte_room [where sz = THREAD_STACK_SIZE]) (simp_all add: THREAD_STACK_SIZE_def)
  let ?s1 = "?s0\<lparr>heap_pages := h1\<rparr>"
  have "heap_room (13 + 20) ?s1" using 1(3) by simp
  then obtain p2 h2 where 2: "kmalloc_byte_interruptable 800 ?s1 = (p2, ?s1\<lparr>heap_pages := h2\<rparr>)"
    "p2 \<noteq> NULL" "heap_room 20 (?s1\<lparr>heap_pages := h2\<rparr>)"
    by (rule kmalloc_byte_room [where sz = 800]) simp_all
  let ?m = "memset (p1 + THREAD_STACK_SIZE - THREAD_STACK_SIZE) 0 THREAD_STACK_SIZE (kmem s)"
  let ?s3 = "?s1\<lparr>heap_pages := h2, kmem := ?m\<rparr>"
  have "heap_room (3 + 17) ?s3" using 2(3) by (simp add: heap_room_def)
  then obtain p3 h3 where 3: "kmalloc_byte (24 * 8) ?s3 = (p3, ?s3\<lparr>heap_pages := h3\<rparr>)"
    "p3 \<noteq> NULL" "heap_room 17 (?s3\<lparr>heap_pages := h3\<rparr>)"
    by (rule kmalloc_byte_room [where sz = "24 * 8"]) simp_all
  let ?s4 = "?s3\<lparr>heap_pages := h3\<rparr>"
  have "heap_room (1 + 16) ?s4" using 3(3) by simp
  then obtain p4 h4 where 4: "kmalloc_byte 24 ?s4 = (p4, ?s4\<lparr>heap_pages := h4\<rparr>)"
    "p4 \<noteq> NULL" "heap_room 16 (?s4\<lparr>heap_pages := h4\<rparr>)"
    by (rule kmalloc_byte_room [where sz = 24]) simp_all
  let ?s5 = "?s4\<lparr>heap_pages := h4\<rparr>"
  have "heap_room (16 + 0) ?s5" using 4(3) by simp
  then obtain p5 h5 where 5: "kmalloc_byte (32 * 32) ?s5 = (p5, ?s5\<lparr>heap_pages := h5\<rparr>)" "p5 \<noteq> NULL"
    by (rule kmalloc_byte_room [where sz = "32 * 32"]) simp_all
  let ?base = "p1 + THREAD_STACK_SIZE"
  let ?c = "(new_thread_context cs tid entry ?base)\<lparr>mappings := \<lparr>mapped_virt_addresses_array = replicate 8 fresh_mapping,
      mapped_array_ptr = p3, num_mappings = 0, max_mappings = 8\<rparr>, fd_table := p4, current_rsp := ?base - 152\<rparr>"
  define r where "r = irq_restore (Some (irq_enabled s)) (?s5\<lparr>heap_pages := h5, kmem := snd (start_thread cs ?base entry ?m),
      fd_tables := (fd_tables s)(p4 \<mapsto> oa_hash_init p5 32), threads := (threads s)(p2 \<mapsto> ?c)\<rparr>)"
  have "create_thread cs tid entry s = Some (p2, r)"
    using 1(2) 2(2) 3(2) 4(2) 5(2)
    by (simp add: create_thread_def Let_def 1(1) [simplified] 2(1) [simplified] 3(1) [simplified]
        4(1) [simplified] 5(1) [simplified] start_thread_def r_def del: irq_restore_Some)
  moreover have "?m a = 0" if "in_range (?base - THREAD_STACK_SIZE) 16000 a" for a
    using that by (simp add: memset_spec THREAD_STACK_SIZE_def)
  note mem = start_thread_memory [of ?base ?m cs entry, OF this]
  moreover have "kmem r = snd (start_thread cs ?base entry ?m)" "threads r = (threads s)(p2 \<mapsto> ?c)"
      "irq_enabled r = irq_enabled s"
    by (auto simp: r_def irq_restore_def)
  ultimately show thesis
    by (intro that [of p2 r ?c]) (simp_all add: new_thread_context_def 2(2) mappings_ok_def fresh_mapping_def)
qed

section \<open>Properties\<close>


definition sample_ring :: kernel where
  "sample_ring = sample_kernel\<lparr>running_thread := 0x5000, scheduling_started := True, sched_first := True,
     first_thread := False, num_threads := 2, gp_registers := replicate 15 7, rsp_register := 0x8000,
     threads := [0x5000 \<mapsto> sample_thread\<lparr>next_thread := 0x6000, prev_thread := 0x6000\<rparr>,
       0x6000 \<mapsto> sample_thread\<lparr>pid := 2, next_thread := 0x5000, prev_thread := 0x5000\<rparr>,
       0x7000 \<mapsto> sample_thread\<lparr>pid := 3\<rparr>]\<rparr>"

lemma sample_runnable: "runnable sample_ring [0x5000, 0x6000]"
  by (simp add: runnable_def ring_def linked_def next_of_def prev_of_def sample_ring_def sample_thread_def)


text \<open>C3: the linked contexts implement a circular list that starts at the running thread:
  \<open>push_thread\<close> puts a new thread right behind the running one, and \<open>discard_thread\<close> of the thread
  that just gave up the processor leaves exactly the others, in order.\<close>
theorem thread_ring_refines_list:
  assumes "ring s (x # ys)"
  shows "(\<not> first_thread s \<and> num_threads s \<noteq> 0 \<and> new \<notin> set (x # ys) \<and> new \<noteq> NULL \<and> threads s new = Some t \<longrightarrow>
      (\<exists>s'. push_thread new s = Some s' \<and> ring s' (x # new # ys))) \<and>
    (ys \<noteq> [] \<longrightarrow> (\<exists>s'. discard_thread x (s\<lparr>running_thread := hd ys\<rparr>) = Some s' \<and> ring s' ys))"
proof -
  have x: "running_thread s = x" using assms by (simp add: ring_def)
  obtain c where c: "threads s x = Some c" "next_thread c = hd (ys @ [x])" using assms by (rule ring_next)
  have "\<exists>s'. push_thread new s = Some s' \<and> ring s' (x # new # ys)"
    if "\<not> first_thread s" "num_threads s \<noteq> 0" "new \<notin> set (x # ys)" "new \<noteq> NULL" "threads s new = Some t"
    using ring_insert [OF assms that(3-5)] c that(1,2) by (simp add: push_thread_def x)
  moreover have "\<exists>s'. discard_thread x (s\<lparr>running_thread := hd ys\<rparr>) = Some s' \<and> ring s' ys" if "ys \<noteq> []"
    using ring_discard [OF assms that] by metis
  ultimately show ?thesis by blast
qed

theorem thread_ring_refines_list_witness:
  "(\<exists>s'. push_thread 0x7000 sample_ring = Some s' \<and> ring s' [0x5000, 0x7000, 0x6000]) \<and>
   (\<exists>s'. discard_thread 0x5000 (sample_ring\<lparr>running_thread := 0x6000\<rparr>) = Some s' \<and> ring s' [0x6000])"
proof -
  have r: "ring sample_ring [0x5000, 0x6000]" using sample_runnable by (simp add: runnable_def)
  have "threads sample_ring 0x7000 = Some (sample_thread\<lparr>pid := 3\<rparr>)" "\<not> first_thread sample_ring"
    "num_threads sample_ring \<noteq> 0" by (simp_all add: sample_ring_def)
  thus ?thesis using thread_ring_refines_list [OF r, of "0x7000"] by simp
qed

text \<open>C6: a turn of the scheduler gives the next thread of the ring the processor with its page
  tables and kernel stack, but not its floating point state: \<open>fxsave\<close> runs after \<open>running_thread\<close>
  was advanced, so the registers of the outgoing thread overwrite the saved state of the incoming
  one, are loaded back unchanged, and the outgoing thread's own save area stays as it was.\<close>
theorem reschedule_switches_all_but_fpu:
  assumes "runnable s (x # y # zs)"
  shows "\<exists>s'. reschedule now ret s = Some (Switches s') \<and> ring s' (y # zs @ [x]) \<and>
     cr3_register s' = cr3 (the (threads s y)) - hhdm_offset s \<and>
     tss_rsp0 s' = stack_base (the (threads s y)) \<and> irq_enabled s' \<and>
     fpu_registers s' = fpu_registers s \<and>
     ssefxsave (the (threads s' y)) = fpu_registers s \<and>
     ssefxsave (the (threads s' x)) = ssefxsave (the (threads s x))"
proof -
  obtain s' where s': "reschedule now ret s = Some (Switches s')" "switched x y s s'"
    using reschedule_switches [OF assms] by blast
  have "ring s' (y # zs @ [x])"
    using same_sched_ring [of "s\<lparr>running_thread := y\<rparr>" s'] s'(2) runnable_advance [OF assms]
    by (simp add: switched_def runnable_def)
  thus ?thesis using s' by (simp add: switched_def)
qed

theorem reschedule_switches_all_but_fpu_witness:
  "\<exists>s'. reschedule 9 0x1234 sample_ring = Some (Switches s') \<and> ring s' [0x6000, 0x5000] \<and>
     cr3_register s' = - 0xffff800000000000 \<and> tss_rsp0 s' = 0 \<and> irq_enabled s' \<and> fpu_registers s' = [] \<and>
     ssefxsave (the (threads s' 0x6000)) = [] \<and> ssefxsave (the (threads s' 0x5000)) = []"
  using reschedule_switches_all_but_fpu [OF sample_runnable, of 9 "0x1234"]
  by (simp add: sample_ring_def sample_kernel_def sample_thread_def)

text \<open>C4: \<open>switch_thread\<close> saves a thread so that it can be resumed.  Let a thread \<open>x\<close> be switched out
  in state \<open>s\<close>, and let \<open>s2\<close> be any later state in which the 128 bytes from the saved stack pointer
  and the saved pointer itself are as they were left.  A switch back to \<open>x\<close> from a stack elsewhere
  restores all fifteen registers, returns to the address on top of \<open>x\<close>'s stack and pops it.\<close>
theorem switch_thread_resumes:
  assumes out: "switch_thread (Some x) new_rsp s = Some s1" and regs: "length (gp_registers s) = 15"
    and kept: "\<And>a. in_range (rsp_register s - 120) 128 a \<Longrightarrow> kmem s2 a = kmem s1 a"
    and rsp: "map_option current_rsp (threads s2 x) = map_option current_rsp (threads s1 x)"
    and resume: "switch_thread old (current_rsp (the (threads s2 x))) s2 = Some s3" "length (gp_registers s2) = 15"
    and apart: "\<And>a. in_range (rsp_register s2 - 120) 120 a \<Longrightarrow> \<not> in_range (rsp_register s - 120) 128 a"
  shows "gp_registers s3 = gp_registers s \<and> rip_register s3 = load64 (kmem s) (rsp_register s) \<and>
     rsp_register s3 = rsp_register s + 8"
proof -
  let ?r = "rsp_register s - 120" and ?m = "snd (fold PUSH (gp_registers s) (rsp_register s, kmem s))"
  have s1: "kmem s1 = ?m" "\<exists>t. threads s1 x = Some t \<and> current_rsp t = ?r"
    using out regs by (auto simp: switch_thread_def Let_def fold_push64 fold_PUSH_fst thread_upd_def split: option.splits if_splits)
  hence r: "current_rsp (the (threads s2 x)) = ?r" using rsp by auto
  note resume' = resume(1) [unfolded r]
  have l: "gp_registers s3 = pop_regs (kmem s2) ?r" "rip_register s3 = load64 (kmem s2) (?r + 120)"
    "rsp_register s3 = ?r + 128"
    by (rule switch_thread_loads(1-3) [OF resume' resume(2) _ order_refl], erule apart)+
  have same: "kmem s2 a = ?m a" if "in_range ?r 128 a" for a using kept [OF that] s1(1) by simp
  have "gp_registers s3 = pop_regs ?m ?r"
    unfolding l(1) by (rule pop_regs_cong, rule same) (simp add: in_range_def)
  moreover have "load64 (kmem s2) (?r + 120) = load64 (kmem s) (?r + 120)"
  proof (rule load64_cong)
    fix i :: nat assume i: "i < 8"
    have "in_range ?r 128 (?r + of_nat (120 + i))" using i by (intro in_range_of_nat) auto
    hence "kmem s2 (?r + 120 + of_nat i) = ?m (?r + 120 + of_nat i)" using same by (simp add: algebra_simps)
    also have "\<dots> = kmem s (?r + 120 + of_nat i)"
    proof (rule fold_PUSH_outside)
      have "unat (of_nat (120 + i) :: u64) = 120 + i" by (rule unat_of_nat_u64) (use i in simp)
      moreover have "?r + 120 + of_nat i - (rsp_register s - of_nat (8 * length (gp_registers s))) = of_nat (120 + i)"
        using regs by simp
      ultimately show "\<not> in_range (rsp_register s - of_nat (8 * length (gp_registers s))) (8 * length (gp_registers s))
          (?r + 120 + of_nat i)"
        using regs by (simp only: in_range_def)
    qed (use regs in simp)
    finally show "kmem s2 (?r + 120 + of_nat i) = kmem s (?r + 120 + of_nat i)" .
  qed
  ultimately show ?thesis using pop_pushed [OF regs, of "rsp_register s" "kmem s"] by (simp add: l(2,3))
qed

theorem switch_thread_resumes_witness:
  "\<exists>s1 s3. switch_thread (Some 0x5000) 0x9000 (sample_ring\<lparr>running_thread := 0x6000\<rparr>) = Some s1 \<and>
     switch_thread (Some 0x6000) (0x8000 - 120) (s1\<lparr>running_thread := 0x5000\<rparr>) = Some s3 \<and>
     gp_registers s3 = replicate 15 7 \<and> rip_register s3 = 0 \<and> rsp_register s3 = 0x8008"
proof -
  let ?s = "sample_ring\<lparr>running_thread := 0x6000\<rparr>"
  let ?t = "sample_thread\<lparr>next_thread := 0x6000, prev_thread := 0x6000\<rparr>"
  let ?u = "sample_thread\<lparr>pid := 2, next_thread := 0x5000, prev_thread := 0x5000\<rparr>"
  have "threads ?s (running_thread ?s) = Some ?u" "threads ?s 0x5000 = Some ?t" "0x5000 \<noteq> running_thread ?s"
    by (simp_all add: sample_ring_def)
  from switch_thread_to [OF this, of "0x9000"] obtain s1 where
    s1: "switch_thread (Some 0x5000) 0x9000 ?s = Some s1" "threads s1 0x5000 = Some (?t\<lparr>current_rsp := 0x8000 - 120\<rparr>)"
      "\<exists>u. threads s1 0x6000 = Some u"
    by (auto simp: sample_ring_def)
  let ?s2 = "s1\<lparr>running_thread := 0x5000\<rparr>"
  obtain u where u: "threads s1 0x6000 = Some u" using s1(3) by blast
  have "threads ?s2 (running_thread ?s2) = Some (?t\<lparr>current_rsp := 0x8000 - 120\<rparr>)" "threads ?s2 0x6000 = Some u"
      "0x6000 \<noteq> running_thread ?s2" using s1(2) u by simp_all
  from switch_thread_to [OF this, of "0x8000 - 120"] obtain s3 where
    s3: "switch_thread (Some 0x6000) (0x8000 - 120) ?s2 = Some s3" by auto
  have regs: "length (gp_registers ?s) = 15" "rsp_register ?s = 0x8000" "kmem ?s = (\<lambda>_. 0)" "gp_registers ?s = replicate 15 7"
    by (simp_all add: sample_ring_def sample_kernel_def)
  have rsp1: "rsp_register s1 = 0x9000 + 128" "length (gp_registers s1) = 15"
    using s1(1) by (auto simp: switch_thread_def Let_def fold_push64 thread_upd_def pop_regs_def split: option.splits)
  have "gp_registers s3 = gp_registers ?s \<and> rip_register s3 = load64 (kmem ?s) (rsp_register ?s) \<and>
     rsp_register s3 = rsp_register ?s + 8"
  proof (rule switch_thread_resumes [OF s1(1) regs(1), of ?s2 "Some 0x6000" s3])
    show "switch_thread (Some 0x6000) (current_rsp (the (threads ?s2 0x5000))) ?s2 = Some s3"
      using s3 by (simp add: s1(2))
    show "\<not> in_range (rsp_register ?s - 120) 128 a" if "in_range (rsp_register ?s2 - 120) 120 a" for a
      using that by (simp add: regs(2) rsp1 in_range_iff no_wrap_def word_le_nat_alt)
  qed (simp_all add: rsp1)
  moreover have "load64 (\<lambda>_. 0) 0x8000 = 0" by (simp add: load64_unfold)
  ultimately show ?thesis using s1(1) s3 by (simp add: regs)
qed

text \<open>C7: blocking the next thread of the ring stops the machine: \<open>block_thread\<close> marks it, returns with
  interrupts disabled, and the next \<open>reschedule\<close> waits for it forever, since the loop advances
  \<open>running_thread\<close> but tests a thread that never changes.\<close>
theorem blocking_next_thread_hangs:
  assumes r: "runnable s (x # y # zs)" and n: "num_threads s \<noteq> 0" "num_threads s \<noteq> UINT64_MAX"
    and t: "threads s y = Some t" "pid t \<noteq> IDLE_PID"
  shows "\<exists>s1. block_thread now ret (pid t) s = Some (Returns y s1) \<and> \<not> irq_enabled s1 \<and>
     threads s1 = (threads s)(y \<mapsto> t\<lparr>status := (status t)[3 := 1]\<rparr>) \<and>
     (\<forall>now' ret'. reschedule now' ret' s1 = None)"
proof -
  have xy: "x \<noteq> y" "running_thread s = x" "y \<noteq> NULL" and f: "sched_first s"
    using r by (auto simp: runnable_def ring_def)
  obtain c where c: "threads s x = Some c" "next_thread c = y" "prev_thread t = x"
    using r ring_next [of s x "y # zs"] t by (auto simp: runnable_def)
  have st: "status t ! 3 = 0" "length (status t) = 10" "pid t \<noteq> pid c" using r c t by (auto simp: runnable_def)
  let ?s0 = "s\<lparr>irq_enabled := False\<rparr>" and ?t = "t\<lparr>status := (status t)[3 := 1]\<rparr>"
  let ?s1 = "s\<lparr>irq_enabled := False, threads := (threads s)(y \<mapsto> ?t)\<rparr>"
  have "unat (num_threads s + 1) = unat (num_threads s) + 1"
    by (rule unat_succ [of _ "- 1"]) (use n(2) in \<open>simp only: word_less_nat_alt [symmetric] word_order.not_eq_extremum\<close>)
  hence k: "2 \<le> unat (num_threads s + 1)" using n(1) by (simp add: unat_gt_0 Suc_le_eq)
  have "block_thread now ret (pid t) s = Some (Returns y ?s1)"
    using block_loop_second [of ?s0 x c y t "unat (num_threads s + 1)"] c t st xy k
    by (simp add: block_thread_def irq_disable_save_def blocked_def)
  moreover have "reschedule now' ret' ?s1 = None" for now' ret'
    by (rule reschedule_blocked_next [of _ c ?t c]) (use c t st xy f in \<open>simp_all add: blocked_def\<close>)
  ultimately show ?thesis by (intro exI [of _ ?s1]) simp
qed

theorem blocking_next_thread_hangs_witness:
  "\<exists>s1. block_thread 9 0x1234 2 sample_ring = Some (Returns 0x6000 s1) \<and> \<not> irq_enabled s1 \<and>
     (\<forall>now' ret'. reschedule now' ret' s1 = None)"
proof -
  let ?t = "sample_thread\<lparr>pid := 2, next_thread := 0x5000, prev_thread := 0x5000\<rparr>"
  have "num_threads sample_ring \<noteq> 0" "num_threads sample_ring \<noteq> UINT64_MAX" "threads sample_ring 0x6000 = Some ?t"
    "pid ?t \<noteq> IDLE_PID" by (simp_all add: sample_ring_def IDLE_PID_def)
  from blocking_next_thread_hangs [OF sample_runnable this, of 9 "0x1234"] show ?thesis by simp blast
qed

text \<open>C5: with 283 free heap nodes \<open>create_thread\<close> returns a thread that starts where it should.  The
  new context has the given identifier and an empty mapping array, and a later switch to it finds
  zeroed registers, goes to \<open>enable_preemption\<close>, and the stack then holds the return addresses of
  the entry function, \<open>disable_preemption\<close> and \<open>scheduler_return\<close>, in this order.\<close>
theorem created_thread_starts:
  fixes s :: "'a kernel_scheme"
  assumes "heap_room 283 s"
  shows "\<exists>t s1 c. create_thread cs tid entry s = Some (t, s1) \<and> threads s1 = (threads s)(t \<mapsto> c) \<and>
     pid c = tid \<and> mappings_ok (mappings c) \<and> irq_enabled s1 = irq_enabled s \<and>
     (\<forall>old (s2 :: 'a kernel_scheme) s3. length (gp_registers s2) = 15 \<longrightarrow>
        (\<forall>a. in_range (current_rsp c) 152 a \<longrightarrow> kmem s2 a = kmem s1 a) \<longrightarrow>
        (\<forall>a. in_range (rsp_register s2 - 120) 120 a \<longrightarrow> \<not> in_range (current_rsp c) 152 a) \<longrightarrow>
        switch_thread old (current_rsp c) s2 = Some s3 \<longrightarrow>
        gp_registers s3 = replicate 15 0 \<and> rip_register s3 = sym_enable_preemption cs \<and>
        rsp_register s3 + 24 = stack_base c \<and> load64 (kmem s3) (rsp_register s3) = entry \<and>
        load64 (kmem s3) (rsp_register s3 + 8) = sym_disable_preemption cs \<and>
        load64 (kmem s3) (rsp_register s3 + 16) = sym_scheduler_return cs)"
proof -
  obtain t s1 c where c: "create_thread cs tid entry s = Some (t, s1)"
    "threads s1 = (threads s)(t \<mapsto> c)" "pid c = tid" "current_rsp c = stack_base c - 152"
    "mappings_ok (mappings c)" "irq_enabled s1 = irq_enabled s"
    "pop_regs (kmem s1) (stack_base c - 152) = replicate 15 0"
    "load64 (kmem s1) (stack_base c - 152 + 120) = sym_enable_preemption cs"
    "load64 (kmem s1) (stack_base c - 152 + 128) = entry"
    "load64 (kmem s1) (stack_base c - 152 + 136) = sym_disable_preemption cs"
    "load64 (kmem s1) (stack_base c - 152 + 144) = sym_scheduler_return cs"
    using create_thread_returns [OF assms] by metis
  let ?r = "current_rsp c"
  have "gp_registers s3 = replicate 15 0 \<and> rip_register s3 = sym_enable_preemption cs \<and>
        rsp_register s3 + 24 = stack_base c \<and> load64 (kmem s3) (rsp_register s3) = entry \<and>
        load64 (kmem s3) (rsp_register s3 + 8) = sym_disable_preemption cs \<and>
        load64 (kmem s3) (rsp_register s3 + 16) = sym_scheduler_return cs"
    if g: "length (gp_registers s2) = 15" and m: "\<forall>a. in_range ?r 152 a \<longrightarrow> kmem s2 a = kmem s1 a"
      and d: "\<forall>a. in_range (rsp_register s2 - 120) 120 a \<longrightarrow> \<not> in_range ?r 152 a"
      and sw: "switch_thread old ?r s2 = Some s3" for old and s2 s3 :: "'a kernel_scheme"
  proof -
    have l: "gp_registers s3 = pop_regs (kmem s2) ?r" "rip_register s3 = load64 (kmem s2) (?r + 120)"
      "rsp_register s3 = ?r + 128" "\<And>a. in_range ?r 152 a \<Longrightarrow> kmem s3 a = kmem s2 a"
      by (rule switch_thread_loads [OF sw g, of 152]; use d in auto)+
    have m3: "\<forall>a. in_range ?r 152 a \<longrightarrow> kmem s3 a = kmem s1 a" using l(4) m by simp
    have "pop_regs (kmem s2) ?r = pop_regs (kmem s1) ?r"
      by (rule pop_regs_cong) (use m in \<open>simp add: in_range_def\<close>)
    thus ?thesis using load64_range_cong [OF m, of 120] load64_range_cong [OF m3, of 128]
        load64_range_cong [OF m3, of 136] load64_range_cong [OF m3, of 144]
      using c(7-11) by (simp add: l(1-3) c(4))
  qed
  thus ?thesis using c(1-3,5,6) by blast
qed

definition sample_roomy :: kernel where
  "sample_roomy = sample_kernel\<lparr>heap_pages := replicate 300 new_heap_page\<rparr>"

definition sample_symbols :: code_symbols where
  "sample_symbols = \<lparr>sym_scheduler_return = 0x11, sym_disable_preemption = 0x22, sym_enable_preemption = 0x33,
     sym_idle_thread = 0x44, sym_userspace_run_elf = 0x55, sym_syscall_user_thread_exit = 0x66,
     sym_scheduling_started = 0x77, sym_root_dir = 0x88, local_argv = 0x99, local_envp = 0xaa\<rparr>"

theorem created_thread_starts_witness:
  "\<exists>t s1 c s3. create_thread sample_symbols 7 0x1000 sample_roomy = Some (t, s1) \<and> threads s1 t = Some c \<and> pid c = 7 \<and>
     switch_thread None (current_rsp c) (s1\<lparr>running_thread := t, gp_registers := replicate 15 7,
       rsp_register := current_rsp c\<rparr>) = Some s3 \<and>
     rip_register s3 = 0x33 \<and> load64 (kmem s3) (rsp_register s3) = 0x1000"
proof -
  have "heap_room 283 sample_roomy"
    by (auto simp: heap_room_def sample_roomy_def heap_wf_fresh intro!: exI [of _ 0] heap_prefix_fresh)
  from created_thread_starts [OF this, of sample_symbols 7 "0x1000"] obtain t s1 c where
    c: "create_thread sample_symbols 7 0x1000 sample_roomy = Some (t, s1)"
      "threads s1 = (threads sample_roomy)(t \<mapsto> c)" "pid c = 7" and
    sw: "\<forall>old (s2 :: kernel) s3. length (gp_registers s2) = 15 \<longrightarrow>
        (\<forall>a. in_range (current_rsp c) 152 a \<longrightarrow> kmem s2 a = kmem s1 a) \<longrightarrow>
        (\<forall>a. in_range (rsp_register s2 - 120) 120 a \<longrightarrow> \<not> in_range (current_rsp c) 152 a) \<longrightarrow>
        switch_thread old (current_rsp c) s2 = Some s3 \<longrightarrow>
        gp_registers s3 = replicate 15 0 \<and> rip_register s3 = sym_enable_preemption sample_symbols \<and>
        rsp_register s3 + 24 = stack_base c \<and> load64 (kmem s3) (rsp_register s3) = 0x1000 \<and>
        load64 (kmem s3) (rsp_register s3 + 8) = sym_disable_preemption sample_symbols \<and>
        load64 (kmem s3) (rsp_register s3 + 16) = sym_scheduler_return sample_symbols"
    by blast
  let ?s2 = "s1\<lparr>running_thread := t, gp_registers := replicate 15 7, rsp_register := current_rsp c\<rparr>"
  obtain s3 where s3: "switch_thread None (current_rsp c) ?s2 = Some s3"
    using switch_thread_returns [of ?s2 c] c(2) by auto
  have "\<not> in_range (current_rsp c) 152 a" if below: "in_range (current_rsp c - 120) 120 a" for a
  proof -
    have e: "a - (current_rsp c - 120) = (a - current_rsp c) + 120" by simp
    have "unat ((a - current_rsp c) + 120) < 120" using below unfolding in_range_def e .
    hence "\<not> unat (a - current_rsp c) < 152"
      using unat_add_no_wrap [of "a - current_rsp c" 120] by auto
    thus ?thesis by (simp add: in_range_def)
  qed
  with sw [rule_format, of ?s2 None s3] s3
  have "rip_register s3 = 0x33 \<and> load64 (kmem s3) (rsp_register s3) = 0x1000"
    by (simp add: sample_symbols_def)
  thus ?thesis using c s3 by fastforce
qed

end
