(* ===== verification/Tmpfs.thy ===== *)
theory Tmpfs
  imports Scheduler Kutils "HOL-Library.Monad_Syntax"
begin

text \<open>
  The in-memory file system (tmpfs.c, tmpfs.h) and the vnode layer it is linked to (vfs.h).  Files,
  directories, mutexes and vnodes are C structures in the kernel heap; each kind has a store from
  heap addresses to records, the addresses come from \<open>kmalloc_byte\<close>, and the contents of files are
  bytes of the kernel memory.  A C string is the list of its bytes.  The arrays of directory entries
  are lists beside their heap address.  The model has no value where the code does not go on: a NULL
  or dangling pointer, an access outside an array or outside the 128 bytes of a name.  Console output
  is left out.
\<close>

section \<open>Data (tmpfs.h, vfs.h)\<close>

record tmpfs_header =
  permissions :: "u8 list"
  user_id :: u16
  group_id :: u16
  name :: "u8 list"
  fs_type :: "u8 list"
  type :: u8
  timestamps :: "u64 list"
  header_mutex :: u64

record tmpfs_file =
  file_header :: tmpfs_header
  file_size :: u64
  file_data :: u64
  open_count :: u64

record tmpfs_directory =
  dir_header :: tmpfs_header
  files :: "u64 list"
  files_ptr :: u64
  max_files :: u64
  num_files :: u64

datatype tmpfs_object = TmpfsFile tmpfs_file | TmpfsDirectory tmpfs_directory

datatype vtype = VNON | VREG | VDIR | VBLK | VCHR | VLNK | VSOCK | VBAD

text \<open>The operation table of a vnode is the one for directories or the one for regular files, the
  only two that are ever filled in.\<close>

datatype vnode_ops = Directory_Ops | File_Ops | No_Ops

record vnode =
  vnode_type :: vtype
  vnode_table :: vnode_ops
  vnode_data :: u64
  vnode_vfsmountedhere :: u64
  mounted_vfs :: u64

record vfs =
  vnode_covered :: u64
  vfs_ops_ptr :: u64

record fs_kernel = sched_kernel +
  mutexes :: "u64 \<Rightarrow> mutex option"
  tmpfs_objects :: "u64 \<Rightarrow> tmpfs_object option"
  vnodes :: "u64 \<Rightarrow> vnode option"
  vfs_store :: "u64 \<Rightarrow> vfs option"
  vfs_tmpfs :: u64

definition object_header :: "tmpfs_object \<Rightarrow> tmpfs_header" where
  "object_header x = (case x of TmpfsFile f \<Rightarrow> file_header f | TmpfsDirectory d \<Rightarrow> dir_header d)"

definition get_file :: "u64 \<Rightarrow> 'a fs_kernel_scheme \<Rightarrow> tmpfs_file option" where
  "get_file p s = (case tmpfs_objects s p of Some (TmpfsFile f) \<Rightarrow> Some f | _ \<Rightarrow> None)"

definition get_dir :: "u64 \<Rightarrow> 'a fs_kernel_scheme \<Rightarrow> tmpfs_directory option" where
  "get_dir p s = (case tmpfs_objects s p of Some (TmpfsDirectory d) \<Rightarrow> Some d | _ \<Rightarrow> None)"

definition put_object :: "u64 \<Rightarrow> tmpfs_object \<Rightarrow> 'a fs_kernel_scheme \<Rightarrow> 'a fs_kernel_scheme" where
  "put_object p x s = s\<lparr>tmpfs_objects := (tmpfs_objects s)(p \<mapsto> x)\<rparr>"

text \<open>An allocation whose result is dereferenced at once.\<close>

definition kmalloc_object :: "u64 \<Rightarrow> 'a fs_kernel_scheme \<Rightarrow> (u64 \<times> 'a fs_kernel_scheme) option" where
  "kmalloc_object sz s = (let (p, s1) = kmalloc_byte sz s in if p = NULL then None else Some (p, s1))"

definition lock_at :: "u64 \<Rightarrow> 'a fs_kernel_scheme \<Rightarrow> 'a fs_kernel_scheme option" where
  "lock_at p s = do {
     mx \<leftarrow> mutexes s p;
     (_, mx') \<leftarrow> acquire_mutex mx;
     Some (s\<lparr>mutexes := (mutexes s)(p \<mapsto> mx')\<rparr>)
   }"

definition unlock_at :: "u64 \<Rightarrow> 'a fs_kernel_scheme \<Rightarrow> 'a fs_kernel_scheme option" where
  "unlock_at p s = do {
     mx \<leftarrow> mutexes s p;
     Some (s\<lparr>mutexes := (mutexes s)(p \<mapsto> snd (release_mutex mx))\<rparr>)
   }"

definition free_mutex :: "u64 \<Rightarrow> 'a fs_kernel_scheme \<Rightarrow> 'a fs_kernel_scheme option" where
  "free_mutex p s = do {
     s1 \<leftarrow> kfree p s;
     Some (s1\<lparr>mutexes := (mutexes s1)(p := None)\<rparr>)
   }"

definition free_object :: "u64 \<Rightarrow> 'a fs_kernel_scheme \<Rightarrow> 'a fs_kernel_scheme option" where
  "free_object p s = do {
     s1 \<leftarrow> kfree p s;
     Some (s1\<lparr>tmpfs_objects := (tmpfs_objects s1)(p := None)\<rparr>)
   }"

section \<open>Creating files and directories (tmpfs.c)\<close>

definition free_index :: "tmpfs_directory \<Rightarrow> nat" where
  "free_index d =
     (if files d ! 0 \<noteq> NULL then
        (case find (\<lambda>i. files d ! i = NULL) [0..<unat (max_files d)] of None \<Rightarrow> 0 | Some i \<Rightarrow> i)
      else 0)"

definition new_header :: "u8 \<Rightarrow> u8 list \<Rightarrow> u64 \<Rightarrow> tmpfs_header" where
  "new_header t nm mx = \<lparr>permissions = bytes_of ''rwx'', user_id = 0, group_id = 0, name = nm,
     fs_type = bytes_of ''tmpfs'', type = t, timestamps = [0, 0, 0], header_mutex = mx\<rparr>"

text \<open>The new entry of a directory: the slot is filled, the entry counted, and the array grown by 32
  slots when it is full.\<close>

definition grow_files :: "tmpfs_directory \<Rightarrow> 'a fs_kernel_scheme \<Rightarrow>
    (tmpfs_directory \<times> 'a fs_kernel_scheme) option" where
  "grow_files d s =
     (if num_files d = max_files d then
        (let m = max_files d + 32 in
         do {
           (p, s1) \<leftarrow> krealloc_byte (files_ptr d) (m * 8) s;
           if p = NULL then None
           else Some (d\<lparr>max_files := m, files_ptr := p, files := files d @ replicate 32 NULL\<rparr>, s1)
         })
      else Some (d, s))"

definition tmpfs_create_file :: "u64 \<Rightarrow> u8 list \<Rightarrow> u64 \<Rightarrow> 'a fs_kernel_scheme \<Rightarrow>
    (u64 \<times> 'a fs_kernel_scheme) option" where
  "tmpfs_create_file dir nm sz s = do {
     let (irq, s0) = irq_disable_save s;
     d0 \<leftarrow> get_dir dir s0;
     let i = free_index d0;
     (p, s1) \<leftarrow> kmalloc_object 1256 s0;
     (mx, s2) \<leftarrow> kmalloc_object 16 s1;
     let s3 = s2\<lparr>mutexes := (mutexes s2)(mx \<mapsto> \<lparr>locked = False, mutex_object = NULL\<rparr>)\<rparr>;
     _ \<leftarrow> (if length nm < 128 then Some () else None);
     s4 \<leftarrow> lock_at (header_mutex (dir_header d0)) s3;
     let (dat, s5) = kmalloc_byte sz s4;
     let s6 = put_object p (TmpfsFile \<lparr>file_header = new_header 0 nm mx, file_size = sz,
                              file_data = dat, open_count = 0\<rparr>) s5;
     (d, s7) \<leftarrow> grow_files (d0\<lparr>files := (files d0)[i := p], num_files := num_files d0 + 1\<rparr>) s6;
     s8 \<leftarrow> unlock_at (header_mutex (dir_header d)) (put_object dir (TmpfsDirectory d) s7);
     Some (p, irq_restore (Some irq) s8)
   }"

text \<open>The second clearing loop runs up to the size of the parent's array.\<close>

definition tmpfs_create_directory :: "u64 \<Rightarrow> u8 list \<Rightarrow> 'a fs_kernel_scheme \<Rightarrow>
    (u64 \<times> 'a fs_kernel_scheme) option" where
  "tmpfs_create_directory dir nm s = do {
     let (irq, s0) = irq_disable_save s;
     d0 \<leftarrow> get_dir dir s0;
     let i = free_index d0;
     (p, s1) \<leftarrow> kmalloc_object 1256 s0;
     (mx, s2) \<leftarrow> kmalloc_object 16 s1;
     let s3 = s2\<lparr>mutexes := (mutexes s2)(mx \<mapsto> \<lparr>locked = False, mutex_object = NULL\<rparr>)\<rparr>;
     (fp, s4) \<leftarrow> kmalloc_object (32 * 8) s3;
     _ \<leftarrow> (if length nm < 128 \<and> unat (max_files d0) \<le> 32 then Some () else None);
     let s5 = put_object p (TmpfsDirectory \<lparr>dir_header = new_header 1 nm mx, files = replicate 32 NULL,
                              files_ptr = fp, max_files = 32, num_files = 0\<rparr>) s4;
     s6 \<leftarrow> lock_at (header_mutex (dir_header d0)) s5;
     (d, s7) \<leftarrow> grow_files (d0\<lparr>files := (files d0)[i := p], num_files := num_files d0 + 1\<rparr>) s6;
     s8 \<leftarrow> unlock_at (header_mutex (dir_header d)) (put_object dir (TmpfsDirectory d) s7);
     Some (p, irq_restore (Some irq) s8)
   }"

section \<open>Looking up and deleting\<close>

text \<open>The loops over the entries of a directory: the first index whose entry satisfies a test of its
  header; an empty slot is skipped.\<close>

fun scan_files :: "(tmpfs_header \<Rightarrow> bool) \<Rightarrow> tmpfs_directory \<Rightarrow> 'a fs_kernel_scheme \<Rightarrow> nat list \<Rightarrow>
    nat option option" where
  "scan_files test d s [] = Some None"
| "scan_files test d s (i # is) =
     (if files d ! i = NULL then scan_files test d s is
      else
        (case tmpfs_objects s (files d ! i) of
           None \<Rightarrow> None
         | Some x \<Rightarrow> if test (object_header x) then Some (Some i) else scan_files test d s is))"

definition find_entry :: "(tmpfs_header \<Rightarrow> bool) \<Rightarrow> tmpfs_directory \<Rightarrow> 'a fs_kernel_scheme \<Rightarrow>
    nat option option" where
  "find_entry test d s = scan_files test d s [0..<unat (max_files d)]"

definition tmpfs_lookup :: "u64 \<Rightarrow> u8 list \<Rightarrow> 'a fs_kernel_scheme \<Rightarrow> u64 option" where
  "tmpfs_lookup dir nm s = do {
     d \<leftarrow> get_dir dir s;
     r \<leftarrow> find_entry (\<lambda>h. name h = nm) d s;
     Some (case r of None \<Rightarrow> NULL | Some i \<Rightarrow> files d ! i)
   }"

text \<open>Clearing a slot, and clearing it under the mutex of the directory.\<close>

definition drop_slot :: "u64 \<Rightarrow> nat \<Rightarrow> 'a fs_kernel_scheme \<Rightarrow> 'a fs_kernel_scheme option" where
  "drop_slot dir i s = do {
     d \<leftarrow> get_dir dir s;
     Some (put_object dir (TmpfsDirectory (d\<lparr>files := (files d)[i := NULL], num_files := num_files d - 1\<rparr>)) s)
   }"

definition clear_slot :: "u64 \<Rightarrow> nat \<Rightarrow> 'a fs_kernel_scheme \<Rightarrow> 'a fs_kernel_scheme option" where
  "clear_slot dir i s = do {
     d \<leftarrow> get_dir dir s;
     s1 \<leftarrow> lock_at (header_mutex (dir_header d)) s;
     s2 \<leftarrow> drop_slot dir i s1;
     unlock_at (header_mutex (dir_header d)) s2
   }"

definition tmpfs_delete_file :: "u64 \<Rightarrow> u8 list \<Rightarrow> 'a fs_kernel_scheme \<Rightarrow> 'a fs_kernel_scheme option" where
  "tmpfs_delete_file dir nm s = do {
     d \<leftarrow> get_dir dir s;
     r \<leftarrow> find_entry (\<lambda>h. name h = nm \<and> type h = 0) d s;
     (case r of
        None \<Rightarrow> Some s
      | Some i \<Rightarrow> do {
          f \<leftarrow> get_file (files d ! i) s;
          if open_count f \<noteq> 0 then Some s
          else do {
            s1 \<leftarrow> kfree (file_data f) s;
            s2 \<leftarrow> free_mutex (header_mutex (file_header f)) s1;
            s3 \<leftarrow> free_object (files d ! i) s2;
            clear_slot dir i s3
          }
        })
   }"

definition tmpfs_delete_directory :: "u64 \<Rightarrow> u8 list \<Rightarrow> 'a fs_kernel_scheme \<Rightarrow> 'a fs_kernel_scheme option" where
  "tmpfs_delete_directory dir nm s = do {
     d \<leftarrow> get_dir dir s;
     r \<leftarrow> find_entry (\<lambda>h. name h = nm \<and> type h = 1) d s;
     (case r of
        None \<Rightarrow> Some s
      | Some i \<Rightarrow> do {
          c \<leftarrow> get_dir (files d ! i) s;
          s1 \<leftarrow> free_mutex (header_mutex (dir_header c)) s;
          s2 \<leftarrow> free_object (files d ! i) s1;
          clear_slot dir i s2
        })
   }"

text \<open>The loop over the entries of the subdirectory leaves at its first statement; the recursive call
  searches the subdirectory for the same name.\<close>

partial_function (option) tmpfs_delete_directory_no_orphan ::
  "u64 \<Rightarrow> u8 list \<Rightarrow> 'a fs_kernel_scheme \<Rightarrow> 'a fs_kernel_scheme option" where
  "tmpfs_delete_directory_no_orphan dir nm s =
     Option.bind (get_dir dir s) (\<lambda>d.
     Option.bind (find_entry (\<lambda>h. name h = nm \<and> (type h = 1 \<or> type h = 0)) d s) (\<lambda>r.
     case r of
       None \<Rightarrow> Some s
     | Some i \<Rightarrow>
         (case tmpfs_objects s (files d ! i) of
            None \<Rightarrow> None
          | Some (TmpfsDirectory c) \<Rightarrow>
              Option.bind (tmpfs_delete_directory_no_orphan (files d ! i) nm s) (\<lambda>s1.
              Option.bind (lock_at (header_mutex (dir_header d)) s1) (\<lambda>s2.
              Option.bind (free_mutex (header_mutex (dir_header c)) s2) (\<lambda>s3.
              Option.bind (free_object (files d ! i) s3) (\<lambda>s4.
              Option.bind (drop_slot dir i s4) (unlock_at (header_mutex (dir_header d)))))))
          | Some (TmpfsFile f) \<Rightarrow>
              Option.bind (kfree (file_data f) s) (\<lambda>s1.
              Option.bind (free_mutex (header_mutex (file_header f)) s1) (\<lambda>s2.
              Option.bind (free_object (files d ! i) s2) (clear_slot dir i))))))"

definition tmpfs_list_files :: "u64 \<Rightarrow> 'a fs_kernel_scheme \<Rightarrow> (u8 list \<times> (u8 list \<times> u8) list) option" where
  "tmpfs_list_files dir s = do {
     d \<leftarrow> get_dir dir s;
     if list_ex (\<lambda>i. files d ! i \<noteq> NULL \<and> tmpfs_objects s (files d ! i) = None) [0..<unat (max_files d)]
     then None
     else Some (name (dir_header d),
       map (\<lambda>i. let h = object_header (the (tmpfs_objects s (files d ! i))) in (name h, type h))
         (filter (\<lambda>i. files d ! i \<noteq> NULL) [0..<unat (max_files d)]))
   }"

section \<open>Reading and writing\<close>

definition tmpfs_write_to_file :: "u64 \<Rightarrow> u64 \<Rightarrow> u64 \<Rightarrow> u64 \<Rightarrow> 'a fs_kernel_scheme \<Rightarrow>
    'a fs_kernel_scheme option" where
  "tmpfs_write_to_file file dat sz offset s = do {
     f \<leftarrow> get_file file s;
     let mx = header_mutex (file_header f);
     s1 \<leftarrow>
       (if offset + sz > file_size f then do {
          (new_file, t1) \<leftarrow> kmalloc_object (offset + sz) s;
          t2 \<leftarrow>
            (if file_data f \<noteq> NULL then do {
               u1 \<leftarrow> lock_at mx t1;
               kfree (file_data f) (u1\<lparr>kmem := memcpy new_file (file_data f) (file_size f) (kmem u1)\<rparr>)
             } else Some t1);
          unlock_at mx (put_object file (TmpfsFile (f\<lparr>file_data := new_file, file_size := offset + sz\<rparr>)) t2)
        } else Some s);
     f1 \<leftarrow> get_file file s1;
     s2 \<leftarrow> lock_at mx s1;
     unlock_at mx (s2\<lparr>kmem := memcpy (file_data f1 + offset) dat sz (kmem s2)\<rparr>)
   }"

definition tmpfs_read_from_file :: "u64 \<Rightarrow> u64 \<Rightarrow> u64 \<Rightarrow> u64 \<Rightarrow> 'a fs_kernel_scheme \<Rightarrow>
    (u64 \<times> 'a fs_kernel_scheme) option" where
  "tmpfs_read_from_file file dat sz offset s = do {
     f \<leftarrow> get_file file s;
     if offset \<ge> file_size f then Some (1, s)
     else do {
       let count = (if file_size f - offset > sz then sz else file_size f - offset);
       let mx = header_mutex (file_header f);
       s1 \<leftarrow> lock_at mx s;
       s2 \<leftarrow> unlock_at mx (s1\<lparr>kmem := memcpy dat (file_data f + offset) count (kmem s1)\<rparr>);
       Some (count, s2)
     }
   }"

section \<open>Vnodes\<close>

text \<open>Two fields of a new vnode that the code leaves as they are in the heap block are read from the
  kernel memory.\<close>

definition tmpfs_link_vnode :: "u64 \<Rightarrow> vtype \<Rightarrow> 'a fs_kernel_scheme \<Rightarrow>
    (u64 \<times> 'a fs_kernel_scheme) option" where
  "tmpfs_link_vnode file_object t s = do {
     (v, s1) \<leftarrow> kmalloc_object 56 s;
     (ops, s2) \<leftarrow> kmalloc_object 72 s1;
     let table = (if t = VDIR then Directory_Ops else if t = VREG then File_Ops else No_Ops);
     Some (v, s2\<lparr>vnodes := (vnodes s2)(v \<mapsto>
        \<lparr>vnode_type = t, vnode_table = table, vnode_data = file_object,
         vnode_vfsmountedhere = vfs_tmpfs s2, mounted_vfs = load64 (kmem s2) (v + 48)\<rparr>)\<rparr>)
   }"

definition vnode_tmpfs_lookup :: "u64 \<Rightarrow> u8 list \<Rightarrow> 'a fs_kernel_scheme \<Rightarrow>
    (u64 \<times> 'a fs_kernel_scheme) option" where
  "vnode_tmpfs_lookup vnode nm s = do {
     v \<leftarrow> vnodes s vnode;
     mounted \<leftarrow>
       (if mounted_vfs v \<noteq> NULL then do {
          m \<leftarrow> vfs_store s (mounted_vfs v);
          r \<leftarrow> vnodes s (vnode_covered m);
          x \<leftarrow> tmpfs_objects s (vnode_data r);
          Some (if name (object_header x) = nm then Some (vnode_covered m) else None)
        } else Some None);
     (case mounted of
        Some r \<Rightarrow> Some (r, s)
      | None \<Rightarrow> do {
          p \<leftarrow> tmpfs_lookup (vnode_data v) nm s;
          if p = NULL then Some (NULL, s)
          else do {
            x \<leftarrow> tmpfs_objects s p;
            if type (object_header x) = 0 then tmpfs_link_vnode p VREG s
            else if type (object_header x) = 1 then tmpfs_link_vnode p VDIR s
            else None
          }
        })
   }"

definition vnode_tmpfs_create_file :: "u64 \<Rightarrow> u8 list \<Rightarrow> u64 \<Rightarrow> 'a fs_kernel_scheme \<Rightarrow>
    (u64 \<times> 'a fs_kernel_scheme) option" where
  "vnode_tmpfs_create_file vnode nm sz s = do {
     v \<leftarrow> vnodes s vnode;
     (p, s1) \<leftarrow> tmpfs_create_file (vnode_data v) nm sz s;
     tmpfs_link_vnode p VREG s1
   }"

definition vnode_tmpfs_delete_file :: "u64 \<Rightarrow> u8 list \<Rightarrow> 'a fs_kernel_scheme \<Rightarrow> 'a fs_kernel_scheme option" where
  "vnode_tmpfs_delete_file vnode nm s = do {
     v \<leftarrow> vnodes s vnode;
     tmpfs_delete_file (vnode_data v) nm s
   }"

definition vnode_tmpfs_create_directory :: "u64 \<Rightarrow> u8 list \<Rightarrow> 'a fs_kernel_scheme \<Rightarrow>
    (u64 \<times> 'a fs_kernel_scheme) option" where
  "vnode_tmpfs_create_directory vnode nm s = do {
     v \<leftarrow> vnodes s vnode;
     (p, s1) \<leftarrow> tmpfs_create_directory (vnode_data v) nm s;
     tmpfs_link_vnode p VDIR s1
   }"

definition vnode_tmpfs_delete_directory :: "u64 \<Rightarrow> u8 list \<Rightarrow> 'a fs_kernel_scheme \<Rightarrow> 'a fs_kernel_scheme option" where
  "vnode_tmpfs_delete_directory vnode nm s = do {
     v \<leftarrow> vnodes s vnode;
     tmpfs_delete_directory (vnode_data v) nm s
   }"

definition vnode_tmpfs_delete_directory_no_orphan ::
  "u64 \<Rightarrow> u8 list \<Rightarrow> 'a fs_kernel_scheme \<Rightarrow> 'a fs_kernel_scheme option" where
  "vnode_tmpfs_delete_directory_no_orphan vnode nm s = do {
     v \<leftarrow> vnodes s vnode;
     tmpfs_delete_directory_no_orphan (vnode_data v) nm s
   }"

definition vnode_tmpfs_write_to_file :: "u64 \<Rightarrow> u64 \<Rightarrow> u64 \<Rightarrow> u64 \<Rightarrow> 'a fs_kernel_scheme \<Rightarrow>
    'a fs_kernel_scheme option" where
  "vnode_tmpfs_write_to_file vnode dat sz offset s = do {
     v \<leftarrow> vnodes s vnode;
     tmpfs_write_to_file (vnode_data v) dat sz offset s
   }"

definition vnode_tmpfs_read_from_file :: "u64 \<Rightarrow> u64 \<Rightarrow> u64 \<Rightarrow> u64 \<Rightarrow> 'a fs_kernel_scheme \<Rightarrow>
    (u64 \<times> 'a fs_kernel_scheme) option" where
  "vnode_tmpfs_read_from_file vnode dat sz offset s = do {
     v \<leftarrow> vnodes s vnode;
     tmpfs_read_from_file (vnode_data v) dat sz offset s
   }"

section \<open>Initialisation (tmpfs.c)\<close>

text \<open>The root directory is made as an entry of a directory that exists only for it; it is linked to
  a vnode, the vnode covered by the file system, and the calls that follow try the operations.\<close>

definition init_root_pointer :: "'a fs_kernel_scheme \<Rightarrow> (u64 \<times> 'a fs_kernel_scheme) option" where
  "init_root_pointer s = do {
     (p, s1) \<leftarrow> kmalloc_object 1256 s;
     (mx, s2) \<leftarrow> kmalloc_object 16 s1;
     (fp, s3) \<leftarrow> kmalloc_object (2 * 2 * 8) s2;
     Some (p, put_object p (TmpfsDirectory \<lparr>dir_header = new_header 0 [] mx, files = [NULL, NULL],
               files_ptr = fp, max_files = 2, num_files = 0\<rparr>)
            (s3\<lparr>mutexes := (mutexes s3)(mx \<mapsto> \<lparr>locked = False, mutex_object = NULL\<rparr>)\<rparr>))
   }"

definition tmpfs_try_operations :: "u64 \<Rightarrow> 'a fs_kernel_scheme \<Rightarrow> 'a fs_kernel_scheme option" where
  "tmpfs_try_operations root s = do {
     (_, s1) \<leftarrow> tmpfs_create_file root (bytes_of ''test file'') 4096 s;
     (_, s2) \<leftarrow> tmpfs_create_directory root (bytes_of ''test dir'') s1;
     s3 \<leftarrow> tmpfs_delete_file root (bytes_of ''test file'') s2;
     s4 \<leftarrow> tmpfs_delete_directory root (bytes_of ''test dir'') s3;
     (d1, s5) \<leftarrow> tmpfs_create_directory root (bytes_of ''test dir 1'') s4;
     (_, s6) \<leftarrow> tmpfs_create_file d1 (bytes_of ''test file 1'') 1000 s5;
     (d2, s7) \<leftarrow> tmpfs_create_directory d1 (bytes_of ''test dir 2'') s6;
     (_, s8) \<leftarrow> tmpfs_create_file d2 (bytes_of ''test file 2'') 1000 s7;
     s9 \<leftarrow> tmpfs_delete_directory_no_orphan d1 (bytes_of ''test dir 2'') s8;
     s10 \<leftarrow> tmpfs_delete_file root (bytes_of ''test file 2'') s9;
     s11 \<leftarrow> tmpfs_delete_file root (bytes_of ''test file 1'') s10;
     s12 \<leftarrow> tmpfs_delete_file root (bytes_of ''test file 1'') s11;
     (_, s13) \<leftarrow> tmpfs_create_file d1 (bytes_of ''test file'') 4096 s12;
     p \<leftarrow> tmpfs_lookup root (bytes_of ''test dir 1'') s13;
     _ \<leftarrow> tmpfs_objects s13 p;
     _ \<leftarrow> tmpfs_lookup root (bytes_of ''test dir'') s13;
     q \<leftarrow> tmpfs_lookup d1 (bytes_of ''test file'') s13;
     _ \<leftarrow> tmpfs_objects s13 q;
     Some s13
   }"

definition init_tmpfs :: "'a fs_kernel_scheme \<Rightarrow> (u64 \<times> 'a fs_kernel_scheme) option" where
  "init_tmpfs s = do {
     (rp, s1) \<leftarrow> init_root_pointer s;
     (root, s2) \<leftarrow> tmpfs_create_directory rp (bytes_of ''TMPFS_ROOT'') s1;
     (v, s3) \<leftarrow> kmalloc_object 48 s2;
     (rv, s4) \<leftarrow> tmpfs_link_vnode root VDIR (s3\<lparr>vfs_tmpfs := v\<rparr>);
     (ops, s5) \<leftarrow> kmalloc_object 56 s4;
     s6 \<leftarrow> tmpfs_try_operations root
       (s5\<lparr>vfs_store := (vfs_store s5)(v \<mapsto> \<lparr>vnode_covered = rv, vfs_ops_ptr = ops\<rparr>)\<rparr>);
     Some (v, s6)
   }"

section \<open>Contents of files\<close>

definition file_content :: "'a fs_kernel_scheme \<Rightarrow> tmpfs_file \<Rightarrow> u8 list" where
  "file_content s f = read_bytes (kmem s) (file_data f) (unat (file_size f))"

lemma read_bytes_cong:
  "(\<And>i. i < n \<Longrightarrow> m (p + of_nat i) = m' (q + of_nat i)) \<Longrightarrow> read_bytes m p n = read_bytes m' q n"
  by (rule nth_equalityI) (simp_all add: nth_read_bytes)

lemma read_memcpy_outside:
  assumes "disjoint_ranges dest (unat n) src (unat n)" "no_wrap dest (unat n)" "no_wrap src (unat n)"
    and "disjoint_ranges dest (unat n) q k" "no_wrap q k"
  shows "read_bytes (memcpy dest src n m) q k = read_bytes m q k"
  using assms(4) unat_add_of_nat [OF assms(5)]
  by (intro read_bytes_cong) (auto simp: memcpy_spec [OF assms(1-3)] in_range_iff [OF assms(2)] disjoint_ranges_def)

lemma read_memcpy_splice:
  assumes b: "no_wrap dest N" "off + unat n \<le> N" "disjoint_ranges dest N src (unat n)" "no_wrap src (unat n)"
  shows "read_bytes (memcpy (dest + of_nat off) src n m) dest N =
    take off (read_bytes m dest N) @ read_bytes m src (unat n) @ drop (off + unat n) (read_bytes m dest N)"
proof (cases "unat n = 0")
  case True
  thus ?thesis by (simp add: memcpy_def)
next
  case False
  let ?d = "dest + of_nat off"
  have d: "unat ?d = unat dest + off" using unat_add_of_nat [OF b(1), of off] b(2) False by simp
  have dd: "disjoint_ranges ?d (unat n) src (unat n)" "no_wrap ?d (unat n)"
    using b d by (auto simp: disjoint_ranges_def no_wrap_def)
  show ?thesis
  proof (rule nth_equalityI)
    fix i
    assume "i < length (read_bytes (memcpy ?d src n m) dest N)"
    hence i: "i < N" by simp
    have u: "unat (dest + of_nat i) = unat dest + i" by (rule unat_add_of_nat [OF b(1) i])
    have "dest + of_nat i - ?d = of_nat (i - off)" if "off \<le> i" using that by (simp add: of_nat_diff)
    thus "read_bytes (memcpy ?d src n m) dest N ! i =
      (take off (read_bytes m dest N) @ read_bytes m src (unat n) @ drop (off + unat n) (read_bytes m dest N)) ! i"
      using i b(2) u d
      by (auto simp: nth_read_bytes memcpy_spec [OF dd b(4)] in_range_iff [OF dd(2)] nth_append)
  qed (use b(2) in simp)
qed

lemma lock_at_eq:
  "mutexes s p = Some mx \<Longrightarrow> lock_at p s = Some (s\<lparr>mutexes := (mutexes s)(p \<mapsto> mx\<lparr>locked := True\<rparr>)\<rparr>)"
  by (simp add: lock_at_def acquire_mutex_returns)

lemma unlock_at_eq:
  "mutexes s p = Some mx \<Longrightarrow>
   unlock_at p s = Some (s\<lparr>mutexes := (mutexes s)(p \<mapsto> snd (release_mutex mx))\<rparr>)"
  by (simp add: unlock_at_def)

lemma tmpfs_write_in_place:
  assumes "get_file p s = Some f" "mutexes s (header_mutex (file_header f)) = Some mx"
    and "\<not> offset + sz > file_size f"
  obtains s' where "tmpfs_write_to_file p dat sz offset s = Some s'" "get_file p s' = Some f"
    "kmem s' = memcpy (file_data f + offset) dat sz (kmem s)" "irq_enabled s' = irq_enabled s"
  using assms that
  by (fastforce simp: tmpfs_write_to_file_def lock_at_eq unlock_at_eq get_file_def Let_def)

lemma tmpfs_write_moving:
  fixes s :: "'a fs_kernel_scheme"
  assumes f: "get_file p s = Some f" "mutexes s (header_mutex (file_header f)) = Some mx"
    and grow: "offset + sz > file_size f"
    and al: "kmalloc_byte (offset + sz) s = (q, s\<lparr>heap_pages := hs\<rparr>)" "q \<noteq> NULL" "file_data f \<noteq> NULL"
    and fr: "\<And>t :: 'a fs_kernel_scheme. heap_pages t = hs \<Longrightarrow> kfree (file_data f) t = Some (t\<lparr>heap_pages := hs'\<rparr>)"
  obtains s' where "tmpfs_write_to_file p dat sz offset s = Some s'"
    "get_file p s' = Some (f\<lparr>file_data := q, file_size := offset + sz\<rparr>)"
    "kmem s' = memcpy (q + offset) dat sz (memcpy q (file_data f) (file_size f) (kmem s))"
    "irq_enabled s' = irq_enabled s"
proof -
  let ?mx = "header_mutex (file_header f)"
  let ?u = "s\<lparr>heap_pages := hs, mutexes := (mutexes s)(?mx \<mapsto> mx\<lparr>locked := True\<rparr>),
      kmem := memcpy q (file_data f) (file_size f) (kmem s)\<rparr>"
  have "kfree (file_data f) ?u = Some (?u\<lparr>heap_pages := hs'\<rparr>)" by (rule fr) simp
  thus ?thesis
    using assms that
    by (fastforce simp: tmpfs_write_to_file_def kmalloc_object_def lock_at_eq unlock_at_eq get_file_def
        put_object_def Let_def)
qed

lemma disjoint_ranges_smaller: "disjoint_ranges p n q k \<Longrightarrow> n' \<le> n \<Longrightarrow> disjoint_ranges p n' q k"
  by (auto simp: disjoint_ranges_def)

lemma kmalloc_byte_prefix:
  assumes "heap_wf (heap_pages s)" "heap_prefix m (heap_pages s)" "length (heap_pages s) \<le> 2 ^ 20"
    and "sz \<noteq> 0" "m + (unat sz + 63) div 64 \<le> length (heap_pages s)"
  obtains hs where "kmalloc_byte sz s = (chunk_addr m, s\<lparr>heap_pages := hs\<rparr>)" "heap_wf hs"
    "length hs = length (heap_pages s)" "heap_prefix (m + (unat sz + 63) div 64) hs"
    "\<And>j. j < m \<Longrightarrow> hs ! j = heap_pages s ! j"
proof -
  let ?n = "of_nat ((unat sz + 63) div 64) :: u64"
  have n: "unat ?n = (unat sz + 63) div 64" "?n \<noteq> 0"
    using unat_round_up [OF assms(4)] by (auto simp del: of_nat_add)
  have al: "kmalloc ?n s = (chunk_addr m, s\<lparr>heap_pages := kmalloc_commit (heap_pages s) m ?n\<rparr>)"
    using kmalloc_prefix [OF assms(1,2) n(2)] assms(5) n(1) by simp
  show ?thesis
  proof (rule that [of "kmalloc_commit (heap_pages s) m ?n"])
    show "kmalloc_byte sz s = (chunk_addr m, s\<lparr>heap_pages := kmalloc_commit (heap_pages s) m ?n\<rparr>)"
      using al kmalloc_byte_eq [of sz s] by simp
    show "heap_wf (kmalloc_commit (heap_pages s) m ?n)" using kmalloc_wf [OF assms(1), of ?n] al by simp
    show "length (kmalloc_commit (heap_pages s) m ?n) = length (heap_pages s)"
      by (simp add: kmalloc_commit_def Let_def)
    show "heap_prefix (m + (unat sz + 63) div 64) (kmalloc_commit (heap_pages s) m ?n)"
      using heap_prefix_commit [OF assms(2) n(2)] assms(5) n(1) by simp
    show "kmalloc_commit (heap_pages s) m ?n ! j = heap_pages s ! j" if "j < m" for j
      using that assms(5) n by (subst nth_kmalloc_commit) auto
  qed
qed

text \<open>The block of a file: the heap node where its data starts, whose length covers the size.\<close>

definition file_block :: "nat \<Rightarrow> tmpfs_file \<Rightarrow> heap_page list \<Rightarrow> bool" where
  "file_block k f hs \<longleftrightarrow> file_data f = chunk_addr k \<and> k < length hs \<and> hp_alloc_length (hs ! k) \<noteq> 0 \<and>
     unat (file_size f) \<le> 64 * unat (hp_alloc_length (hs ! k))"

lemma written_content:
  assumes q: "no_wrap q e" "no_wrap dat (unat sz)" "disjoint_ranges q e dat (unat sz)" "e = unat offset + unat sz"
    and d: "no_wrap d n" "n \<le> e" "unat offset \<le> n" "disjoint_ranges q n d n" "n = unat fs"
  shows "read_bytes (memcpy (q + offset) dat sz (memcpy q d fs m)) q e =
    take (unat offset) (read_bytes m d n) @ read_bytes m dat (unat sz) @ drop e (read_bytes m d n)"
proof -
  let ?m = "memcpy q d fs m"
  have qn: "no_wrap q n" using q(1) d(2) by (simp add: no_wrap_def)
  have "read_bytes ?m q n = read_bytes m d n"
    using read_memcpy_splice [of q n 0 fs d m] qn d(1,4,5) by simp
  hence "take (unat offset) (read_bytes ?m q e) = take (unat offset) (read_bytes m d n)"
    using d(2,3) by (metis take_read_bytes min.absorb1 order_trans)
  moreover have "read_bytes ?m dat (unat sz) = read_bytes m dat (unat sz)"
    using read_memcpy_outside [of q fs d dat "unat sz" m] qn d(1,4,5) q(2) disjoint_ranges_smaller [OF q(3) d(2)]
    by simp
  moreover have "read_bytes (memcpy (q + of_nat (unat offset)) dat sz ?m) q e =
    take (unat offset) (read_bytes ?m q e) @ read_bytes ?m dat (unat sz) @ drop e (read_bytes ?m q e)"
    using read_memcpy_splice [of q e "unat offset" sz dat ?m] q by simp
  ultimately show ?thesis using d(2) by simp
qed

text \<open>C24: \<open>tmpfs_write_to_file\<close> refines the splice of byte lists.  For a file whose data lies in a heap
  block, on a heap whose used nodes form a prefix with room for the result, a write that starts
  inside the file or at its end returns, with interrupts as they were: the contents are the old bytes
  up to the offset, the bytes of the source, and the old bytes behind them, whether the write fits in
  place or moves the file to a larger block.  The source must overlap neither block.\<close>
theorem tmpfs_write_refines_splice:
  assumes f: "get_file p s = Some f" "mutexes s (header_mutex (file_header f)) = Some mx"
    and heap: "heap_wf (heap_pages s)" "heap_prefix m (heap_pages s)" "length (heap_pages s) \<le> 2 ^ 20"
    and blk: "file_block k f (heap_pages s)"
    and off: "offset \<le> file_size f" and e: "e = unat offset + unat sz"
    and room: "m + (e + 63) div 64 \<le> length (heap_pages s)"
    and src: "no_wrap dat (unat sz)" "disjoint_ranges (chunk_addr k) (unat (file_size f)) dat (unat sz)"
      "disjoint_ranges (chunk_addr m) e dat (unat sz)"
  shows "\<exists>s' f'. tmpfs_write_to_file p dat sz offset s = Some s' \<and> get_file p s' = Some f' \<and>
    file_content s' f' = take (unat offset) (file_content s f) @ read_bytes (kmem s) dat (unat sz) @
      drop e (file_content s f) \<and> irq_enabled s' = irq_enabled s"
proof -
  have "(e + 63) div 64 < 2 ^ 20 + 1" using room heap(3) by simp
  hence "e < 2 ^ 64" by (simp add: div_less_iff_less_mult)
  hence es: "unat (offset + sz) = e" using e by (simp add: unat_add_no_wrap)
  have b: "k + unat (hp_alloc_length (heap_pages s ! k)) \<le> m" "m \<le> length (heap_pages s)"
    using heap_prefix_block_end [OF heap(1,2)] blk heap(2) by (auto simp: file_block_def heap_prefix_def)
  have u: "unat (chunk_addr k) = 0xffffc00000000000 + 64 * k" "unat (chunk_addr m) = 0xffffc00000000000 + 64 * m"
    using b heap(3) by (auto intro!: chunk_addr_unat)
  have n: "unat (file_size f) \<le> 64 * (m - k)" "file_data f = chunk_addr k" "k < length (heap_pages s)"
    using blk b(1) by (auto simp: file_block_def)
  have wrap: "no_wrap (chunk_addr k) (unat (file_size f))" "no_wrap (chunk_addr m) e"
    using u n b room heap(3) by (auto simp: no_wrap_def)
  show ?thesis
  proof (cases "offset + sz > file_size f")
    case False
    hence "e \<le> unat (file_size f)" using es by (simp add: word_less_nat_alt)
    moreover obtain s' where "tmpfs_write_to_file p dat sz offset s = Some s'" "get_file p s' = Some f"
      "kmem s' = memcpy (file_data f + offset) dat sz (kmem s)" "irq_enabled s' = irq_enabled s"
      by (rule tmpfs_write_in_place [OF f False])
    ultimately show ?thesis
      using read_memcpy_splice [of "chunk_addr k" "unat (file_size f)" "unat offset" sz dat "kmem s"]
        wrap src n(2) e by (auto simp: file_content_def)
  next
    case True
    hence big: "unat (file_size f) < e" using es by (simp add: word_less_nat_alt)
    hence "offset + sz \<noteq> 0" using es by auto
    then obtain hs where hs: "kmalloc_byte (offset + sz) s = (chunk_addr m, s\<lparr>heap_pages := hs\<rparr>)"
      "heap_wf hs" "length hs = length (heap_pages s)"
      using kmalloc_byte_prefix [OF heap, of "offset + sz"] es room by auto
    have fr: "kfree (file_data f) t = Some (t\<lparr>heap_pages := kfree_result hs (unat (heap_index (chunk_addr k)) - 1)\<rparr>)"
      if "heap_pages t = hs" for t :: "'a fs_kernel_scheme"
      using kfree_spec [of t] that hs(2,3) n(2,3) heap(3) by (simp add: heap_index_chunk_addr)
    have nn: "chunk_addr m \<noteq> NULL" "file_data f \<noteq> NULL" using n b heap(3) by (auto intro!: chunk_addr_neq_NULL)
    obtain s' where s': "tmpfs_write_to_file p dat sz offset s = Some s'"
      "get_file p s' = Some (f\<lparr>file_data := chunk_addr m, file_size := offset + sz\<rparr>)"
      "kmem s' = memcpy (chunk_addr m + offset) dat sz (memcpy (chunk_addr m) (file_data f) (file_size f) (kmem s))"
      "irq_enabled s' = irq_enabled s"
      by (rule tmpfs_write_moving [OF f True hs(1) nn fr])
    have "disjoint_ranges (chunk_addr m) (unat (file_size f)) (chunk_addr k) (unat (file_size f))"
      using n(1) b(1) u by (auto simp: disjoint_ranges_def)
    from written_content [OF wrap(2) src(1,3) e wrap(1) _ _ this refl, of "kmem s"]
    show ?thesis using s' es n(2) big off by (auto simp: file_content_def word_le_nat_alt)
  qed
qed

text \<open>C26: \<open>tmpfs_read_from_file\<close> copies the requested part of the file.  Into a buffer that overlaps
  the data of the file in no byte, a read inside the file copies the bytes from the offset on, as many
  as are asked for and there, and returns their number.  At or behind the end of the file it copies
  nothing and returns 1, the number it also returns for one byte read.\<close>
theorem tmpfs_read_returns_content:
  assumes f: "get_file p s = Some f" "mutexes s (header_mutex (file_header f)) = Some mx"
    and wrap: "no_wrap (file_data f) (unat (file_size f))" "no_wrap dat (unat sz)"
    and dis: "disjoint_ranges dat (unat sz) (file_data f) (unat (file_size f))"
  shows "\<exists>r s'. tmpfs_read_from_file p dat sz offset s = Some (r, s') \<and>
    (offset < file_size f \<longrightarrow> unat r = min (unat sz) (unat (file_size f) - unat offset) \<and>
       read_bytes (kmem s') dat (unat r) = take (unat sz) (drop (unat offset) (file_content s f))) \<and>
    (\<not> offset < file_size f \<longrightarrow> r = 1 \<and> s' = s)"
proof (cases "offset < file_size f")
  case True
  let ?c = "if file_size f - offset > sz then sz else file_size f - offset"
  have o: "unat offset < unat (file_size f)" using True by (simp add: word_less_nat_alt)
  hence c: "unat ?c = min (unat sz) (unat (file_size f) - unat offset)"
    by (auto simp: word_less_nat_alt unat_sub word_le_nat_alt)
  have u: "unat (file_data f + offset) = unat (file_data f) + unat offset"
    using unat_add_of_nat [OF wrap(1) o] by simp
  have g: "no_wrap dat (unat ?c)" "disjoint_ranges dat (unat ?c) (file_data f + offset) (unat ?c)"
    "no_wrap (file_data f + offset) (unat ?c)"
    using wrap dis o u c by (auto simp: no_wrap_def disjoint_ranges_def)
  obtain s' where s': "tmpfs_read_from_file p dat sz offset s = Some (?c, s')"
    "kmem s' = memcpy dat (file_data f + offset) ?c (kmem s)"
    using f True by (simp add: tmpfs_read_from_file_def lock_at_eq unlock_at_eq Let_def not_le [symmetric])
  have "read_bytes (kmem s') dat (unat ?c) = read_bytes (kmem s) (file_data f + offset) (unat ?c)"
    using read_memcpy_splice [of dat "unat ?c" 0 ?c "file_data f + offset" "kmem s"] g s'(2) by simp
  also have "\<dots> = take (unat sz) (drop (unat offset) (file_content s f))"
    using c by (intro nth_equalityI) (auto simp: nth_read_bytes file_content_def algebra_simps)
  finally show ?thesis using s'(1) c True by auto
next
  case False
  thus ?thesis using f by (simp add: tmpfs_read_from_file_def not_less)
qed

section \<open>Directories\<close>

definition dir_wf :: "'a fs_kernel_scheme \<Rightarrow> tmpfs_directory \<Rightarrow> bool" where
  "dir_wf s d \<longleftrightarrow> length (files d) = unat (max_files d) \<and>
     unat (num_files d) = length (filter (\<lambda>p. p \<noteq> NULL) (files d)) \<and> num_files d < max_files d \<and>
     (\<forall>p\<in>set (files d). p \<noteq> NULL \<longrightarrow> tmpfs_objects s p \<noteq> None)"

definition named :: "'a fs_kernel_scheme \<Rightarrow> tmpfs_directory \<Rightarrow> u8 list \<Rightarrow> nat \<Rightarrow> bool" where
  "named s d nm i \<longleftrightarrow> files d ! i \<noteq> NULL \<and>
     (\<exists>x. tmpfs_objects s (files d ! i) = Some x \<and> name (object_header x) = nm)"

lemma scan_files_find:
  assumes "\<forall>i\<in>set is. files d ! i \<noteq> NULL \<longrightarrow> tmpfs_objects s (files d ! i) \<noteq> None"
  shows "scan_files (\<lambda>h. name h = nm) d s is = Some (find (named s d nm) is)"
  using assms by (induction "is") (auto simp: named_def)

lemma tmpfs_lookup_find:
  assumes "get_dir dir s = Some d" "dir_wf s d"
  shows "tmpfs_lookup dir nm s =
    Some (case find (named s d nm) [0..<unat (max_files d)] of None \<Rightarrow> NULL | Some i \<Rightarrow> files d ! i)"
proof -
  have "\<forall>i\<in>set [0..<unat (max_files d)]. files d ! i \<noteq> NULL \<longrightarrow> tmpfs_objects s (files d ! i) \<noteq> None"
    using assms(2) by (auto simp: dir_wf_def)
  thus ?thesis using assms(1) by (simp add: tmpfs_lookup_def find_entry_def scan_files_find)
qed

lemma free_index_free:
  assumes "dir_wf s d"
  shows "free_index d < length (files d) \<and> files d ! free_index d = NULL"
proof -
  have "length (filter (\<lambda>p. p \<noteq> NULL) (files d)) < length (files d)"
    using assms by (simp add: dir_wf_def word_less_nat_alt)
  hence "\<exists>i<length (files d). files d ! i = NULL"
    by (metis (mono_tags, lifting) filter_True in_set_conv_nth less_irrefl)
  moreover have "files d \<noteq> []" using calculation by auto
  ultimately show ?thesis
    using assms by (auto simp: free_index_def dir_wf_def find_upt_None_iff find_upt_Some_iff split: option.splits)
qed

text \<open>Allocations and releases change the heap nodes, a reallocation also the memory.\<close>

lemma kfree_frame: "kfree q s = Some s' \<Longrightarrow> \<exists>hs. s' = s\<lparr>heap_pages := hs\<rparr>"
proof -
  assume "kfree q s = Some s'"
  then obtain hs where "s' = irq_restore (Some (irq_enabled s)) (s\<lparr>irq_enabled := False, heap_pages := hs\<rparr>)"
    by (auto simp: kfree_def Let_def split: option.splits)
  hence "s' = s\<lparr>heap_pages := hs\<rparr>" by (cases s) auto
  thus ?thesis ..
qed

lemma kmalloc_frame: "\<exists>hs. snd (kmalloc sz s) = s\<lparr>heap_pages := hs\<rparr>"
proof (cases "sz = 0")
  case True
  have "s = s\<lparr>heap_pages := heap_pages s\<rparr>" by simp
  moreover have "snd (kmalloc sz s) = s" using True by (cases s) (simp add: kmalloc_def)
  ultimately show ?thesis by metis
next
  case False
  obtain ret hs where "kmalloc_loop (heap_pages s) sz 0 0 = (ret, hs)" by fastforce
  hence "snd (kmalloc sz s) = s\<lparr>heap_pages := hs\<rparr>" using False by (cases s) (simp add: kmalloc_def)
  thus ?thesis ..
qed

lemma krealloc_frame:
  assumes "krealloc_byte q sz s = Some (r, s')"
  shows "\<exists>hs b. s' = s\<lparr>heap_pages := hs, kmem := b\<rparr>"
proof -
  let ?s = "s\<lparr>irq_enabled := False\<rparr>"
  obtain ret s2 where al: "kmalloc_byte_interruptable sz ?s = (ret, s2)" by fastforce
  then obtain h where h: "s2 = ?s\<lparr>heap_pages := h\<rparr>"
    using kmalloc_frame [of "of_nat ((unat sz + 63) div 64)" ?s] kmalloc_byte_eq [of sz ?s]
    by (auto simp: prod_eq_iff)
  have "s' = irq_restore (Some (irq_enabled s)) s2 \<or>
      (\<exists>m s4. kfree q (s2\<lparr>kmem := m\<rparr>) = Some s4 \<and> s' = irq_restore (Some (irq_enabled s)) s4)"
    using assms al
    by (auto simp: krealloc_byte_def Let_def simp del: irq_restore_Some split: if_splits option.splits)
  hence "\<exists>hs b. s' = irq_restore (Some (irq_enabled s)) (s2\<lparr>heap_pages := hs, kmem := b\<rparr>)"
  proof (elim disjE exE conjE)
    assume "s' = irq_restore (Some (irq_enabled s)) s2"
    thus ?thesis by (intro exI [of _ "heap_pages s2"] exI [of _ "kmem s2"]) (cases s2; simp)
  next
    fix m s4
    assume "kfree q (s2\<lparr>kmem := m\<rparr>) = Some s4" "s' = irq_restore (Some (irq_enabled s)) s4"
    moreover obtain g where "s4 = s2\<lparr>kmem := m, heap_pages := g\<rparr>" using kfree_frame calculation(1) by blast
    ultimately show ?thesis by (intro exI [of _ g] exI [of _ m]) (cases s2; simp)
  qed
  then obtain hs b where "s' = irq_restore (Some (irq_enabled s)) (s2\<lparr>heap_pages := hs, kmem := b\<rparr>)" by blast
  hence "s' = s\<lparr>heap_pages := hs, kmem := b\<rparr>" unfolding h by (cases s) auto
  thus ?thesis by blast
qed

text \<open>The block of a directory's array, and a heap whose used nodes are the first \<open>m\<close>.\<close>

definition dir_block :: "nat \<Rightarrow> tmpfs_directory \<Rightarrow> heap_page list \<Rightarrow> bool" where
  "dir_block k d hs \<longleftrightarrow> files_ptr d = chunk_addr k \<and> k < length hs \<and> hp_alloc_length (hs ! k) \<noteq> 0"

definition heap_upto :: "nat \<Rightarrow> heap_page list \<Rightarrow> bool" where
  "heap_upto m hs \<longleftrightarrow> heap_wf hs \<and> heap_prefix m hs \<and> length hs \<le> 2 ^ 20"

lemma kmalloc_byte_upto:
  assumes "heap_upto m (heap_pages s)" "m + (unat sz + 63) div 64 \<le> length (heap_pages s)"
  obtains a hs where "kmalloc_byte sz s = (a, s\<lparr>heap_pages := hs\<rparr>)"
    "heap_upto (m + (unat sz + 63) div 64) hs" "length hs = length (heap_pages s)"
    "\<And>j. j < m \<Longrightarrow> hs ! j = heap_pages s ! j" "sz \<noteq> 0 \<Longrightarrow> a = chunk_addr m \<and> a \<noteq> NULL"
proof (cases "sz = 0")
  case True
  have "kmalloc_byte 0 s = (NULL, s\<lparr>heap_pages := heap_pages s\<rparr>)"
    using kmalloc_byte_eq [of 0 s] by (cases s) (simp add: kmalloc_def)
  thus ?thesis using that [of NULL "heap_pages s"] True assms(1) by simp
next
  case False
  have h: "heap_wf (heap_pages s)" "heap_prefix m (heap_pages s)" "length (heap_pages s) \<le> 2 ^ 20"
    using assms(1) by (simp_all add: heap_upto_def)
  obtain hs where "kmalloc_byte sz s = (chunk_addr m, s\<lparr>heap_pages := hs\<rparr>)" "heap_wf hs"
    "length hs = length (heap_pages s)" "heap_prefix (m + (unat sz + 63) div 64) hs"
    "\<And>j. j < m \<Longrightarrow> hs ! j = heap_pages s ! j"
    using kmalloc_byte_prefix [OF h False assms(2)] by blast
  thus ?thesis
    using that [of "chunk_addr m" hs] h chunk_addr_neq_NULL [of m] assms(2) by (simp add: heap_upto_def)
qed

lemma grow_files_spec:
  fixes s :: "'a fs_kernel_scheme"
  assumes "heap_upto m (heap_pages s)" "dir_block k d (heap_pages s)"
    and "m + (8 * (unat (max_files d) + 32) + 63) div 64 \<le> length (heap_pages s)"
    and "num_files d \<le> max_files d"
  obtains n hs b d' where "grow_files d s = Some (d', s\<lparr>heap_pages := hs, kmem := b\<rparr>)"
    "files d' = files d @ replicate n NULL" "unat (max_files d') = unat (max_files d) + n"
    "num_files d' = num_files d" "num_files d' < max_files d'" "dir_header d' = dir_header d"
proof (cases "num_files d = max_files d")
  case False
  have "s = s\<lparr>heap_pages := heap_pages s, kmem := kmem s\<rparr>" by simp
  thus ?thesis using that [where d' = d and hs = "heap_pages s" and b = "kmem s" and n = 0] False assms(4) by (simp add: grow_files_def)
next
  case True
  let ?m = "max_files d + 32"
  have h: "heap_wf (heap_pages s)" "heap_prefix m (heap_pages s)" "length (heap_pages s) \<le> 2 ^ 20"
    "k < length (heap_pages s)" "hp_alloc_length (heap_pages s ! k) \<noteq> 0" "files_ptr d = chunk_addr k"
    using assms(1,2) by (simp_all add: heap_upto_def dir_block_def)
  have "(8 * (unat (max_files d) + 32) + 63) div 64 < 2 ^ 20 + 1" using assms(3) h(3) by simp
  hence big: "unat (max_files d) < 2 ^ 24" by (simp add: div_less_iff_less_mult)
  have um: "unat ?m = unat (max_files d) + 32" using big by (subst unat_add_no_wrap) simp_all
  have us: "unat (?m * 8) = 8 * (unat (max_files d) + 32)" using big um by (subst unat_mult_no_wrap) simp_all
  hence "?m * 8 \<noteq> 0" by (metis add_is_0 mult_is_0 unat_0 zero_neq_numeral)
  then obtain s' where s': "krealloc_byte (files_ptr d) (?m * 8) s = Some (chunk_addr m, s')"
    using krealloc_byte_spec [OF h(1-5), of "?m * 8"] us assms(3) h(6) by auto
  then obtain hs b where b: "s' = s\<lparr>heap_pages := hs, kmem := b\<rparr>" using krealloc_frame by blast
  have "chunk_addr m \<noteq> NULL" by (rule chunk_addr_neq_NULL) (use h(3) assms(3) in simp)
  thus ?thesis
    using that [where d' = "d\<lparr>max_files := ?m, files_ptr := chunk_addr m, files := files d @ replicate 32 NULL\<rparr>"
        and hs = hs and b = b and n = 32]
      s' b True um by (simp add: grow_files_def Let_def word_less_nat_alt)
qed

lemma tmpfs_create_file_run:
  fixes s :: "'a fs_kernel_scheme"
  assumes dir: "get_dir dir s = Some d" "mutexes s (header_mutex (dir_header d)) = Some mx" "num_files d < max_files d"
    and heap: "heap_upto m (heap_pages s)" "dir_block k d (heap_pages s)" and nm: "length nm < 128"
    and room: "m + 21 + (unat sz + 63) div 64 + (8 * (unat (max_files d) + 32) + 63) div 64 \<le> length (heap_pages s)"
  obtains s' d' n f where "tmpfs_create_file dir nm sz s = Some (chunk_addr m, s')" "chunk_addr m \<noteq> NULL"
    "irq_enabled s' = irq_enabled s" "files d' = (files d)[free_index d := chunk_addr m] @ replicate n NULL"
    "unat (max_files d') = unat (max_files d) + n" "num_files d' = num_files d + 1"
    "num_files d' < max_files d'" "dir_header d' = dir_header d" "file_size f = sz" "file_header f = new_header 0 nm (chunk_addr (m + 20))"
    "tmpfs_objects s' = (tmpfs_objects s)(chunk_addr m \<mapsto> TmpfsFile f, dir \<mapsto> TmpfsDirectory d')"
proof -
  let ?s = "s\<lparr>irq_enabled := False\<rparr>"
  have "heap_upto m (heap_pages ?s)" "m + (unat (1256 :: u64) + 63) div 64 \<le> length (heap_pages ?s)"
    using heap(1) room by simp_all
  then obtain p h1 where p: "kmalloc_byte 1256 ?s = (p, ?s\<lparr>heap_pages := h1\<rparr>)"
    "heap_upto (m + 20) h1" "length h1 = length (heap_pages s)" "\<And>j. j < m \<Longrightarrow> h1 ! j = heap_pages s ! j"
    "p = chunk_addr m" "p \<noteq> NULL" by (rule kmalloc_byte_upto) simp_all
  let ?s1 = "?s\<lparr>heap_pages := h1\<rparr>"
  have "heap_upto (m + 20) (heap_pages ?s1)" "m + 20 + (unat (16 :: u64) + 63) div 64 \<le> length (heap_pages ?s1)"
    using p(2,3) room by simp_all
  then obtain x h2 where x: "kmalloc_byte 16 ?s1 = (x, ?s1\<lparr>heap_pages := h2\<rparr>)"
    "heap_upto (m + 20 + 1) h2" "length h2 = length (heap_pages s)" "\<And>j. j < m + 20 \<Longrightarrow> h2 ! j = h1 ! j"
    "x = chunk_addr (m + 20)" "x \<noteq> NULL" by (rule kmalloc_byte_upto) (simp_all add: p(3))
  let ?mx = "header_mutex (dir_header d)"
  let ?mxs = "(mutexes s)(x \<mapsto> \<lparr>locked = False, mutex_object = NULL\<rparr>)"
  obtain mx1 where mx1: "?mxs ?mx = Some mx1" using dir(2) by (cases "?mx = x") auto
  let ?s4 = "?s1\<lparr>heap_pages := h2, mutexes := ?mxs(?mx \<mapsto> mx1\<lparr>locked := True\<rparr>)\<rparr>"
  have "heap_upto (m + 21) (heap_pages ?s4)" "m + 21 + (unat sz + 63) div 64 \<le> length (heap_pages ?s4)"
    using x(2,3) room by (simp_all add: add.commute)
  then obtain a h3 where a: "kmalloc_byte sz ?s4 = (a, ?s4\<lparr>heap_pages := h3\<rparr>)"
    "heap_upto (m + 21 + (unat sz + 63) div 64) h3" "length h3 = length (heap_pages s)"
    "\<And>j. j < m + 21 \<Longrightarrow> h3 ! j = h2 ! j" by (rule kmalloc_byte_upto) (simp_all add: x(3))
  define f where "f = \<lparr>file_header = new_header 0 nm x, file_size = sz, file_data = a, open_count = 0\<rparr>"
  let ?s6 = "put_object p (TmpfsFile f) (?s4\<lparr>heap_pages := h3\<rparr>)"
  let ?d = "d\<lparr>files := (files d)[free_index d := p], num_files := num_files d + 1\<rparr>"
  have "k < m" using heap_prefix_block_end [of "heap_pages s" m k] heap unat_gt_0 [of "hp_alloc_length (heap_pages s ! k)"]
    by (auto simp: heap_upto_def dir_block_def)
  hence db: "dir_block k ?d (heap_pages ?s6)"
    using heap(2) a(3,4) x(4) p(4) by (simp add: dir_block_def put_object_def)
  have le: "num_files ?d \<le> max_files ?d"
    using dir(3) unat_succ [of "num_files d" "max_files d"] by (simp add: word_le_nat_alt word_less_nat_alt)
  have up: "heap_upto (m + 21 + (unat sz + 63) div 64) (heap_pages ?s6)"
    and rm: "m + 21 + (unat sz + 63) div 64 + (8 * (unat (max_files ?d) + 32) + 63) div 64 \<le> length (heap_pages ?s6)"
    using a(2,3) room by (simp_all add: put_object_def)
  obtain n hs b d' where d': "grow_files ?d ?s6 = Some (d', ?s6\<lparr>heap_pages := hs, kmem := b\<rparr>)"
    "files d' = files ?d @ replicate n NULL" "unat (max_files d') = unat (max_files ?d) + n"
    "num_files d' = num_files ?d" "num_files d' < max_files d'" "dir_header d' = dir_header ?d"
    by (rule grow_files_spec [OF up db rm le]) (rule that)
  let ?s7 = "put_object dir (TmpfsDirectory d') (?s6\<lparr>heap_pages := hs, kmem := b\<rparr>)"
  obtain s8 where s8: "unlock_at ?mx ?s7 = Some s8" "tmpfs_objects s8 = tmpfs_objects ?s7" "irq_enabled s8 = False"
    by (simp add: unlock_at_def put_object_def)
  have "tmpfs_create_file dir nm sz s = Some (p, irq_restore (Some (irq_enabled s)) s8)"
    using dir(1) p(1,6) x(1,6) nm mx1 a(1) d'(1,6) s8(1)
    by (simp add: tmpfs_create_file_def kmalloc_object_def lock_at_eq f_def get_dir_def Let_def del: irq_restore_Some)
  thus ?thesis
    using that [where s' = "irq_restore (Some (irq_enabled s)) s8" and d' = d' and n = n and f = f]
      p(5,6) x(5) d' s8(2,3) by (simp add: f_def put_object_def)
qed

text \<open>All objects lie in the used part of the heap.\<close>

definition objects_below :: "nat \<Rightarrow> 'a fs_kernel_scheme \<Rightarrow> bool" where
  "objects_below m s \<longleftrightarrow> (\<forall>a x. tmpfs_objects s a = Some x \<longrightarrow> (\<exists>j<m. a = chunk_addr j))"

lemma objects_below_fresh:
  assumes "objects_below m s" "m \<le> 2 ^ 20"
  shows "tmpfs_objects s (chunk_addr m) = None"
proof (rule ccontr)
  assume "tmpfs_objects s (chunk_addr m) \<noteq> None"
  then obtain j where "j < m" "chunk_addr m = chunk_addr j" using assms(1) by (auto simp: objects_below_def)
  thus False using assms(2) chunk_addr_unat [of m] chunk_addr_unat [of j] by simp
qed

lemma added_entry:
  fixes s s' :: "'a fs_kernel_scheme"
  assumes wf: "dir_wf s d" and p: "p \<noteq> NULL" "tmpfs_objects s p = None"
    and dir: "get_dir dir s = Some d"
    and d': "files d' = (files d)[free_index d := p] @ replicate n NULL" "num_files d' = num_files d + 1"
      "unat (max_files d') = unat (max_files d) + n" "num_files d' < max_files d'" "dir_header d' = dir_header d"
    and obj: "tmpfs_objects s' = (tmpfs_objects s)(p \<mapsto> x, dir \<mapsto> TmpfsDirectory d')"
  shows "dir_wf s' d'"
    and "\<And>nm j. j < unat (max_files d') \<Longrightarrow>
      named s' d' nm j \<longleftrightarrow> (if j = free_index d then name (object_header x) = nm
        else j < unat (max_files d) \<and> named s d nm j)"
proof -
  note fi = free_index_free [OF wf]
  have len: "length (files d) = unat (max_files d)" and ok: "\<forall>q\<in>set (files d). q \<noteq> NULL \<longrightarrow> tmpfs_objects s q \<noteq> None"
    and cnt: "unat (num_files d) = length (filter (\<lambda>q. q \<noteq> NULL) (files d))" "num_files d < max_files d"
    using wf by (simp_all add: dir_wf_def)
  have "unat (num_files d + 1) = unat (num_files d) + 1"
    using cnt(2) by (intro unat_succ [of _ "max_files d"]) (simp add: word_less_nat_alt)
  moreover have "\<forall>q\<in>set (files d'). q \<noteq> NULL \<longrightarrow> tmpfs_objects s' q \<noteq> None"
    using d'(1) ok obj set_update_subset_insert [of "files d" "free_index d" p] by auto
  ultimately show "dir_wf s' d'"
    unfolding dir_wf_def
    using d'(2-4) len cnt fi length_filter_update [of "free_index d" "files d" "\<lambda>q. q \<noteq> NULL" p] p(1)
    by (intro conjI) (simp_all add: d'(1))
  have pd: "p \<noteq> dir" using p(2) dir by (auto simp: get_dir_def)
  have same: "(\<exists>y. tmpfs_objects s' q = Some y \<and> name (object_header y) = nm) \<longleftrightarrow>
      (\<exists>y. tmpfs_objects s q = Some y \<and> name (object_header y) = nm)" if "q \<noteq> p" for q nm
    using that obj dir d'(5) by (cases "q = dir") (auto simp: get_dir_def object_header_def split: option.splits tmpfs_object.splits)
  show "named s' d' nm j \<longleftrightarrow> (if j = free_index d then name (object_header x) = nm
      else j < unat (max_files d) \<and> named s d nm j)" if j: "j < unat (max_files d')" for nm j
  proof (cases "j < unat (max_files d)")
    case True
    have "files d ! j \<noteq> p" if "files d ! j \<noteq> NULL" using ok p(2) that True len by (metis nth_mem)
    thus ?thesis using True fi len obj pd p(1) same [of "files d ! j" nm] d'(1)
      by (auto simp: named_def nth_append)
  next
    case False
    thus ?thesis using j d'(1,3) fi len by (auto simp: named_def nth_append)
  qed
qed

lemma lookup_none:
  assumes "get_dir dir s = Some d" "dir_wf s d" "tmpfs_lookup dir nm s = Some NULL"
  shows "\<forall>j<unat (max_files d). \<not> named s d nm j"
proof (cases "find (named s d nm) [0..<unat (max_files d)]")
  case None
  thus ?thesis by (simp add: find_upt_None_iff)
next
  case (Some i)
  hence "files d ! i = NULL" using assms(3) tmpfs_lookup_find [OF assms(1,2), of nm] by simp
  moreover have "named s d nm i" using Some by (simp add: find_upt_Some_iff)
  ultimately show ?thesis by (simp add: named_def)
qed

lemma lookup_added:
  assumes "\<And>j. j < unat (max_files d) \<Longrightarrow> named s d nm j \<longleftrightarrow> j = i"
    and "dir_wf s d" "get_dir dir s = Some d" "i < unat (max_files d)" "files d ! i = p"
  shows "tmpfs_lookup dir nm s = Some p"
proof -
  have "find (named s d nm) [0..<unat (max_files d)] = Some i"
    using assms(1,4) by (auto simp: find_upt_Some_iff)
  thus ?thesis using tmpfs_lookup_find [OF assms(3,2), of nm] assms(5) by simp
qed

lemma lookup_kept:
  assumes "get_dir dir s = Some d" "dir_wf s d" "get_dir dir s' = Some d'" "dir_wf s' d'"
    and le: "unat (max_files d) \<le> unat (max_files d')"
    and same: "\<And>j. j < unat (max_files d') \<Longrightarrow> named s' d' nm j \<longleftrightarrow> j < unat (max_files d) \<and> named s d nm j"
    and nth: "\<And>j. j < unat (max_files d) \<Longrightarrow> named s d nm j \<Longrightarrow> files d' ! j = files d ! j"
  shows "tmpfs_lookup dir nm s' = tmpfs_lookup dir nm s"
proof (cases "find (named s d nm) [0..<unat (max_files d)]")
  case None
  hence "find (named s' d' nm) [0..<unat (max_files d')] = None" using same by (auto simp: find_upt_None_iff)
  thus ?thesis using None tmpfs_lookup_find [OF assms(1,2)] tmpfs_lookup_find [OF assms(3,4)] by simp
next
  case (Some i)
  hence i: "i < unat (max_files d)" "named s d nm i" "\<forall>j<i. \<not> named s d nm j" by (auto simp: find_upt_Some_iff)
  hence "find (named s' d' nm) [0..<unat (max_files d')] = Some i" using same le by (auto simp: find_upt_Some_iff)
  thus ?thesis
    using Some i nth tmpfs_lookup_find [OF assms(1,2)] tmpfs_lookup_find [OF assms(3,4)] by simp
qed


lemma kfree_NULL:
  assumes "length (heap_pages s) \<le> 2 ^ 20"
  shows "kfree NULL s = None"
proof -
  have "unat (heap_index NULL) = 2 ^ 40"
    by (simp add: heap_index_def HEAP_START_VIRT_DEFINED_def HEAP_CHUNK_SIZE_DEFINED_def)
  thus ?thesis using assms by (simp add: kfree_def kfree_nodes_def heap_advance_spec)
qed

lemma scan_files_find_test:
  assumes "\<forall>i\<in>set is. files d ! i \<noteq> NULL \<longrightarrow> tmpfs_objects s (files d ! i) \<noteq> None"
  shows "scan_files test d s is =
    Some (find (\<lambda>i. files d ! i \<noteq> NULL \<and> test (object_header (the (tmpfs_objects s (files d ! i))))) is)"
  using assms by (induction "is") auto

text \<open>Deleting an empty file never returns.  A file created with size 0 has no data block, and
  \<open>tmpfs_delete_file\<close> passes its NULL pointer to \<open>kfree\<close>, which walks the node list to an index
  behind its end.  In a well-formed directory in which every regular file of the name has size
  and data 0 and is not open, and at least one exists, the deletion of that name does not go on.\<close>
lemma deleting_empty_file_faults:
  assumes dir: "get_dir dir s = Some d" "dir_wf s d" and len: "length (heap_pages s) \<le> 2 ^ 20"
    and i: "i < unat (max_files d)" "files d ! i \<noteq> NULL" "get_file (files d ! i) s = Some f"
      "name (file_header f) = nm" "type (file_header f) = 0"
    and all: "\<And>j g. j < unat (max_files d) \<Longrightarrow> tmpfs_objects s (files d ! j) = Some g \<Longrightarrow>
      name (object_header g) = nm \<Longrightarrow> type (object_header g) = 0 \<Longrightarrow>
      \<exists>e. g = TmpfsFile e \<and> file_data e = NULL \<and> open_count e = 0"
  shows "tmpfs_delete_file dir nm s = None"
proof -
  let ?P = "\<lambda>j. files d ! j \<noteq> NULL \<and> name (object_header (the (tmpfs_objects s (files d ! j)))) = nm \<and>
    type (object_header (the (tmpfs_objects s (files d ! j)))) = 0"
  have ok: "files d ! j \<noteq> NULL \<longrightarrow> tmpfs_objects s (files d ! j) \<noteq> None" if "j < unat (max_files d)" for j
    using dir(2) that by (auto simp: dir_wf_def)
  have "?P i" using i by (auto simp: get_file_def object_header_def split: option.splits tmpfs_object.splits)
  then obtain j where j: "find ?P [0..<unat (max_files d)] = Some j" "j < unat (max_files d)" "?P j"
    using i(1) by (cases "find ?P [0..<unat (max_files d)]") (auto simp: find_upt_None_iff find_upt_Some_iff)
  moreover obtain e where "tmpfs_objects s (files d ! j) = Some (TmpfsFile e)" "file_data e = NULL" "open_count e = 0"
    using ok [OF j(2)] j(3) all [OF j(2)] by auto
  moreover have "find_entry (\<lambda>h. name h = nm \<and> type h = 0) d s = Some (Some j)"
    using j(1) ok by (simp add: find_entry_def scan_files_find_test)
  ultimately show ?thesis
    using dir(1) kfree_NULL [OF len] by (simp add: tmpfs_delete_file_def get_file_def)
qed

section \<open>Concrete file systems\<close>

definition sample_nodes :: "heap_page list" where
  "sample_nodes = kmalloc_commit (kmalloc_commit (replicate 300 new_heap_page) 0 4) 4 1"

definition sample_file :: "u64 \<Rightarrow> u64 \<Rightarrow> tmpfs_file" where
  "sample_file sz dat = \<lparr>file_header = new_header 0 (bytes_of ''a'') 0x20, file_size = sz,
     file_data = dat, open_count = 0\<rparr>"

definition sample_dir :: tmpfs_directory where
  "sample_dir = \<lparr>dir_header = new_header 1 (bytes_of ''d'') 0x10, files = chunk_addr 3 # replicate 31 NULL,
     files_ptr = chunk_addr 0, max_files = 32, num_files = 1\<rparr>"

definition sample_fs :: "u64 \<Rightarrow> u64 \<Rightarrow> fs_kernel" where
  "sample_fs sz dat = sched_kernel.extend
     (sync_kernel.extend (sample_sync\<lparr>heap_pages := sample_nodes, kmem := (\<lambda>a. ucast a)\<rparr>) (sched_kernel.fields NULL))
     (fs_kernel.fields [0x10 \<mapsto> \<lparr>locked = False, mutex_object = NULL\<rparr>, 0x20 \<mapsto> \<lparr>locked = False, mutex_object = NULL\<rparr>]
        [chunk_addr 2 \<mapsto> TmpfsDirectory sample_dir, chunk_addr 3 \<mapsto> TmpfsFile (sample_file sz dat)]
        Map.empty Map.empty NULL)"

lemma sample_fs_fields [simp]:
  "heap_pages (sample_fs sz dat) = sample_nodes" "kmem (sample_fs sz dat) = (\<lambda>a. ucast a)"
  "mutexes (sample_fs sz dat) 0x10 = Some \<lparr>locked = False, mutex_object = NULL\<rparr>"
  "mutexes (sample_fs sz dat) 0x20 = Some \<lparr>locked = False, mutex_object = NULL\<rparr>"
  "tmpfs_objects (sample_fs sz dat) =
     [chunk_addr 2 \<mapsto> TmpfsDirectory sample_dir, chunk_addr 3 \<mapsto> TmpfsFile (sample_file sz dat)]"
  by (simp_all add: sample_fs_def sync_kernel.defs sched_kernel.defs fs_kernel.defs)

lemma sample_chunks [simp]: "chunk_addr 2 \<noteq> chunk_addr 3" "chunk_addr 3 \<noteq> NULL"
  using chunk_addr_unat [of 2] chunk_addr_unat [of 3] by auto

lemma sample_objects [simp]:
  "get_dir (chunk_addr 2) (sample_fs sz dat) = Some sample_dir"
  "get_file (chunk_addr 3) (sample_fs sz dat) = Some (sample_file sz dat)"
  by (simp_all add: get_dir_def get_file_def)

lemma sample_nodes_upto: "heap_upto 5 sample_nodes" "length sample_nodes = 300"
proof -
  let ?h0 = "replicate 300 new_heap_page"
  let ?h1 = "kmalloc_commit ?h0 0 4"
  have f0: "fits_at ?h0 (unat (4 :: u64)) 0" using heap_prefix_fits_at [OF heap_prefix_fresh] by simp
  have p1: "heap_prefix 4 ?h1" using heap_prefix_commit [OF heap_prefix_fresh, of 4 300] by simp
  have l1: "length ?h1 = 300" "length (kmalloc_commit ?h1 4 1) = 300" by (simp_all add: kmalloc_commit_def Let_def)
  have f1: "fits_at ?h1 (unat (1 :: u64)) 4" using heap_prefix_fits_at [OF p1] l1 by simp
  have "heap_wf ?h1" by (rule heap_wf_commit [OF heap_wf_fresh f0]) simp
  hence "heap_wf sample_nodes" unfolding sample_nodes_def by (rule heap_wf_commit [OF _ f1]) simp
  moreover have "heap_prefix 5 sample_nodes" using heap_prefix_commit [OF p1, of 1] l1 by (simp add: sample_nodes_def)
  ultimately show "heap_upto 5 sample_nodes" "length sample_nodes = 300"
    using l1 by (simp_all add: heap_upto_def sample_nodes_def)
qed

lemma sample_blocks: "hp_alloc_length (sample_nodes ! 0) = 4" "hp_alloc_length (sample_nodes ! 4) = 1"
  by (simp_all add: sample_nodes_def nth_kmalloc_commit)

theorem tmpfs_write_refines_splice_witness:
  "\<exists>s' f'. tmpfs_write_to_file (chunk_addr 3) 0x1000 100 8 (sample_fs 10 (chunk_addr 4)) = Some s' \<and>
    get_file (chunk_addr 3) s' = Some f' \<and>
    file_content s' f' = take 8 (file_content (sample_fs 10 (chunk_addr 4)) (sample_file 10 (chunk_addr 4))) @
      read_bytes (\<lambda>a. ucast a) 0x1000 100"
proof -
  let ?s = "sample_fs 10 (chunk_addr 4)" and ?f = "sample_file 10 (chunk_addr 4)"
  have h: "heap_wf (heap_pages ?s)" "heap_prefix 5 (heap_pages ?s)" "length (heap_pages ?s) \<le> 2 ^ 20"
    using sample_nodes_upto by (simp_all add: heap_upto_def)
  have m: "mutexes ?s (header_mutex (file_header ?f)) = Some \<lparr>locked = False, mutex_object = NULL\<rparr>"
    by (simp add: sample_file_def new_header_def)
  have b: "file_block 4 ?f (heap_pages ?s)"
    using sample_nodes_upto(2) sample_blocks by (simp add: file_block_def sample_file_def)
  have u: "unat (chunk_addr 4) = 0xffffc00000000000 + 256" "unat (chunk_addr 5) = 0xffffc00000000000 + 320"
    by (simp_all add: chunk_addr_unat)
  have "\<exists>s' f'. tmpfs_write_to_file (chunk_addr 3) 0x1000 100 8 ?s = Some s' \<and> get_file (chunk_addr 3) s' = Some f' \<and>
    file_content s' f' = take (unat (8 :: u64)) (file_content ?s ?f) @ read_bytes (kmem ?s) 0x1000 (unat (100 :: u64)) @
      drop 108 (file_content ?s ?f) \<and> irq_enabled s' = irq_enabled ?s"
    using sample_nodes_upto(2) u
    by (intro tmpfs_write_refines_splice [OF sample_objects(2) m h b])
      (simp_all add: sample_file_def no_wrap_def disjoint_ranges_def)
  moreover have "drop 108 (file_content ?s ?f) = []" by (simp add: file_content_def sample_file_def)
  ultimately show ?thesis by auto
qed

theorem tmpfs_read_returns_content_witness:
  "\<exists>s'. tmpfs_read_from_file (chunk_addr 3) 0x1000 4 8 (sample_fs 10 (chunk_addr 4)) = Some (2, s') \<and>
    read_bytes (kmem s') 0x1000 2 =
      drop 8 (file_content (sample_fs 10 (chunk_addr 4)) (sample_file 10 (chunk_addr 4)))"
proof -
  let ?s = "sample_fs 10 (chunk_addr 4)" and ?f = "sample_file 10 (chunk_addr 4)"
  have m: "mutexes ?s (header_mutex (file_header ?f)) = Some \<lparr>locked = False, mutex_object = NULL\<rparr>"
    by (simp add: sample_file_def new_header_def)
  have u: "unat (chunk_addr 4) = 0xffffc00000000000 + 256" by (simp add: chunk_addr_unat)
  obtain r s' where r: "tmpfs_read_from_file (chunk_addr 3) 0x1000 4 8 ?s = Some (r, s')"
    "8 < file_size ?f \<longrightarrow> unat r = min (unat (4 :: u64)) (unat (file_size ?f) - unat (8 :: u64)) \<and>
       read_bytes (kmem s') 0x1000 (unat r) = take (unat (4 :: u64)) (drop (unat (8 :: u64)) (file_content ?s ?f))"
    using tmpfs_read_returns_content [OF sample_objects(2) m, of "0x1000" 4 8] u
    by (auto simp: sample_file_def no_wrap_def disjoint_ranges_def)
  hence "unat r = 2" "read_bytes (kmem s') 0x1000 2 = drop 8 (file_content ?s ?f)"
    by (auto simp: sample_file_def file_content_def)
  moreover have "r = 2" using calculation(1) by (simp add: word_unat_eq_iff)
  ultimately show ?thesis using r(1) by blast
qed

lemma sample_dir_wf: "dir_wf (sample_fs sz dat) sample_dir"
  by (auto simp: dir_wf_def sample_dir_def)


lemma deleting_empty_file_faults_witness:
  "tmpfs_delete_file (chunk_addr 2) (bytes_of ''a'') (sample_fs 0 NULL) = None"
proof (rule deleting_empty_file_faults [OF sample_objects(1) sample_dir_wf, where i = 0])
  show "length (heap_pages (sample_fs 0 NULL)) \<le> 2 ^ 20" using sample_nodes_upto(2) by simp
  show "get_file (files sample_dir ! 0) (sample_fs 0 NULL) = Some (sample_file 0 NULL)"
    by (simp add: sample_dir_def)
  show "\<exists>e. g = TmpfsFile e \<and> file_data e = NULL \<and> open_count e = 0"
    if "tmpfs_objects (sample_fs 0 NULL) (files sample_dir ! j) = Some g" "type (object_header g) = 0" for j g
    using that by (auto simp: sample_file_def sample_dir_def object_header_def new_header_def split: if_splits)
qed (simp_all add: sample_dir_def sample_file_def new_header_def)

end
