(* ===== verification/Nanoprintf.thy ===== *)
theory Nanoprintf
  imports Sync Kutils "HOL-Library.Monad_Syntax"
begin

text \<open>
  Formatted output: nanoprintf (nanoprintf-0.5.4/nanoprintf.h) as main.c configures it (field width,
  precision, large and binary conversions; no floating point and no write back), and the kernel's
  \<open>kprintf\<close> on top of it (main.c).  A format is the list of the bytes of a C string, without its
  terminator; the arguments are the 8-byte slots \<open>va_arg\<close> takes from, and a conversion that finds no
  slot left has no value.  Strings are read as they are before the call: a string argument does not
  overlap the buffer that is printed into.  What the callback \<open>pc\<close> is called with is a list of bytes.  An \<open>int\<close> is an
  unbounded integer: widths, precisions and lengths stay far below the range in which C overflows.
\<close>

section \<open>Format specifications\<close>

datatype npf_opt = NPF_FMT_SPEC_OPT_NONE | NPF_FMT_SPEC_OPT_LITERAL | NPF_FMT_SPEC_OPT_STAR

datatype npf_len_mod = NPF_FMT_SPEC_LEN_MOD_NONE | NPF_FMT_SPEC_LEN_MOD_SHORT
  | NPF_FMT_SPEC_LEN_MOD_LONG_DOUBLE | NPF_FMT_SPEC_LEN_MOD_CHAR | NPF_FMT_SPEC_LEN_MOD_LONG
  | NPF_FMT_SPEC_LEN_MOD_LARGE_LONG_LONG | NPF_FMT_SPEC_LEN_MOD_LARGE_INTMAX
  | NPF_FMT_SPEC_LEN_MOD_LARGE_SIZET | NPF_FMT_SPEC_LEN_MOD_LARGE_PTRDIFFT

datatype npf_conv = NPF_FMT_SPEC_CONV_NONE | NPF_FMT_SPEC_CONV_PERCENT | NPF_FMT_SPEC_CONV_CHAR
  | NPF_FMT_SPEC_CONV_STRING | NPF_FMT_SPEC_CONV_SIGNED_INT | NPF_FMT_SPEC_CONV_BINARY
  | NPF_FMT_SPEC_CONV_OCTAL | NPF_FMT_SPEC_CONV_HEX_INT | NPF_FMT_SPEC_CONV_UNSIGNED_INT
  | NPF_FMT_SPEC_CONV_POINTER

record npf_format_spec =
  field_width :: int
  field_width_opt :: npf_opt
  left_justified :: bool
  leading_zero_pad :: bool
  prec :: int
  prec_opt :: npf_opt
  prepend :: u8
  alt_form :: bool
  case_adjust :: u8
  length_modifier :: npf_len_mod
  conv_spec :: npf_conv

definition byte_of :: "char \<Rightarrow> u8" where
  "byte_of c = of_nat (of_char c)"

definition peek :: "u8 list \<Rightarrow> u8" where
  "peek cs = (case cs of [] \<Rightarrow> 0 | c # _ \<Rightarrow> c)"

definition spec_start :: npf_format_spec where
  "spec_start = \<lparr>field_width = 0, field_width_opt = NPF_FMT_SPEC_OPT_NONE, left_justified = False,
     leading_zero_pad = False, prec = 0, prec_opt = NPF_FMT_SPEC_OPT_NONE, prepend = 0, alt_form = False,
     case_adjust = 32, length_modifier = NPF_FMT_SPEC_LEN_MOD_NONE, conv_spec = NPF_FMT_SPEC_CONV_NONE\<rparr>"

fun parse_flags :: "u8 list \<Rightarrow> npf_format_spec \<Rightarrow> u8 list \<times> npf_format_spec" where
  "parse_flags [] fs = ([], fs)"
| "parse_flags (c # cs) fs =
     (if c = byte_of CHR ''-'' then parse_flags cs (fs\<lparr>left_justified := True, leading_zero_pad := False\<rparr>)
      else if c = byte_of CHR ''0'' then parse_flags cs (fs\<lparr>leading_zero_pad := \<not> left_justified fs\<rparr>)
      else if c = byte_of CHR ''+'' then parse_flags cs (fs\<lparr>prepend := byte_of CHR ''+''\<rparr>)
      else if c = byte_of CHR '' '' then
        parse_flags cs (if prepend fs = 0 then fs\<lparr>prepend := byte_of CHR '' ''\<rparr> else fs)
      else if c = byte_of CHR ''#'' then parse_flags cs (fs\<lparr>alt_form := True\<rparr>)
      else (c # cs, fs))"

fun parse_number :: "u8 list \<Rightarrow> int \<Rightarrow> u8 list \<times> int" where
  "parse_number [] n = ([], n)"
| "parse_number (c # cs) n =
     (if is_digit c then parse_number cs (n * 10 + (uint c - 48)) else (c # cs, n))"

definition parse_width :: "u8 list \<Rightarrow> npf_format_spec \<Rightarrow> u8 list \<times> npf_format_spec" where
  "parse_width cs fs =
     (if peek cs = byte_of CHR ''*'' then (tl cs, fs\<lparr>field_width_opt := NPF_FMT_SPEC_OPT_STAR\<rparr>)
      else if is_digit (peek cs) then
        (let (cs', n) = parse_number cs 0
         in (cs', fs\<lparr>field_width := n, field_width_opt := NPF_FMT_SPEC_OPT_LITERAL\<rparr>))
      else (cs, fs))"

definition parse_prec :: "u8 list \<Rightarrow> npf_format_spec \<Rightarrow> u8 list \<times> npf_format_spec" where
  "parse_prec cs fs =
     (if peek cs = byte_of CHR ''.'' then
        (let c1 = tl cs in
         if peek c1 = byte_of CHR ''*'' then (tl c1, fs\<lparr>prec_opt := NPF_FMT_SPEC_OPT_STAR\<rparr>)
         else
           (let (c2, fs2) = (if peek c1 = byte_of CHR ''-'' then (tl c1, fs)
                             else (c1, fs\<lparr>prec_opt := NPF_FMT_SPEC_OPT_LITERAL\<rparr>));
                (c3, n) = parse_number c2 0
            in (c3, fs2\<lparr>prec := n\<rparr>)))
      else (cs, fs))"

definition parse_length :: "u8 list \<Rightarrow> u8 list \<times> npf_len_mod" where
  "parse_length cs =
     (let c = peek cs; cs' = tl cs in
      if c = byte_of CHR ''h'' then
        (if peek cs' = byte_of CHR ''h'' then (tl cs', NPF_FMT_SPEC_LEN_MOD_CHAR)
         else (cs', NPF_FMT_SPEC_LEN_MOD_SHORT))
      else if c = byte_of CHR ''l'' then
        (if peek cs' = byte_of CHR ''l'' then (tl cs', NPF_FMT_SPEC_LEN_MOD_LARGE_LONG_LONG)
         else (cs', NPF_FMT_SPEC_LEN_MOD_LONG))
      else if c = byte_of CHR ''j'' then (cs', NPF_FMT_SPEC_LEN_MOD_LARGE_INTMAX)
      else if c = byte_of CHR ''z'' then (cs', NPF_FMT_SPEC_LEN_MOD_LARGE_SIZET)
      else if c = byte_of CHR ''t'' then (cs', NPF_FMT_SPEC_LEN_MOD_LARGE_PTRDIFFT)
      else (cs, NPF_FMT_SPEC_LEN_MOD_NONE))"

text \<open>The cases \<open>i d o u X x\<close> fall through to one another with the first match kept in \<open>tmp_conv\<close>.\<close>

definition integer_spec :: "npf_conv \<Rightarrow> npf_format_spec \<Rightarrow> npf_format_spec" where
  "integer_spec conv fs = fs\<lparr>conv_spec := conv,
     leading_zero_pad := (leading_zero_pad fs \<and> prec_opt fs = NPF_FMT_SPEC_OPT_NONE)\<rparr>"

definition parse_conv :: "u8 \<Rightarrow> npf_format_spec \<Rightarrow> npf_format_spec option" where
  "parse_conv c fs =
     (let np = fs\<lparr>prec_opt := NPF_FMT_SPEC_OPT_NONE\<rparr> in
      if c = byte_of CHR ''%'' then Some (np\<lparr>conv_spec := NPF_FMT_SPEC_CONV_PERCENT\<rparr>)
      else if c = byte_of CHR ''c'' then Some (np\<lparr>conv_spec := NPF_FMT_SPEC_CONV_CHAR\<rparr>)
      else if c = byte_of CHR ''s'' then
        Some (fs\<lparr>conv_spec := NPF_FMT_SPEC_CONV_STRING, leading_zero_pad := False\<rparr>)
      else if c = byte_of CHR ''i'' \<or> c = byte_of CHR ''d'' then
        Some (integer_spec NPF_FMT_SPEC_CONV_SIGNED_INT fs)
      else if c = byte_of CHR ''o'' then Some (integer_spec NPF_FMT_SPEC_CONV_OCTAL fs)
      else if c = byte_of CHR ''u'' then Some (integer_spec NPF_FMT_SPEC_CONV_UNSIGNED_INT fs)
      else if c = byte_of CHR ''X'' then Some (integer_spec NPF_FMT_SPEC_CONV_HEX_INT (fs\<lparr>case_adjust := 0\<rparr>))
      else if c = byte_of CHR ''x'' then Some (integer_spec NPF_FMT_SPEC_CONV_HEX_INT fs)
      else if c = byte_of CHR ''p'' then Some (np\<lparr>conv_spec := NPF_FMT_SPEC_CONV_POINTER\<rparr>)
      else if c = byte_of CHR ''B'' then
        Some (fs\<lparr>case_adjust := 0, conv_spec := NPF_FMT_SPEC_CONV_BINARY\<rparr>)
      else if c = byte_of CHR ''b'' then Some (fs\<lparr>conv_spec := NPF_FMT_SPEC_CONV_BINARY\<rparr>)
      else None)"

text \<open>The length of the specification, counted from the percent sign; 0 when it is not one.\<close>

definition npf_parse_format_spec :: "u8 list \<Rightarrow> nat \<times> npf_format_spec" where
  "npf_parse_format_spec format =
     (let (c1, f1) = parse_flags (tl format) spec_start;
          (c2, f2) = parse_width c1 f1;
          (c3, f3) = parse_prec c2 f2;
          (c4, lm) = parse_length c3;
          f4 = f3\<lparr>length_modifier := lm\<rparr>
      in case parse_conv (peek c4) f4 of
           None \<Rightarrow> (0, f4)
         | Some f5 \<Rightarrow> (length format - length (tl c4), f5))"

section \<open>Conversion of the arguments\<close>

definition npf_max :: "int \<Rightarrow> int \<Rightarrow> int" where
  "npf_max x y = (if x > y then x else y)"

definition utoa_digit :: "nat \<Rightarrow> u8 \<Rightarrow> u8" where
  "utoa_digit d case_adj = (if d < 10 then byte_of CHR ''0'' else byte_of CHR ''A'' - 10 + case_adj) + of_nat d"

text \<open>The loop ends because \<open>base\<close> is 8, 10 or 16; for a base below 2 the model stops after a digit.\<close>

function npf_utoa_rev :: "u64 \<Rightarrow> u64 \<Rightarrow> u8 \<Rightarrow> u8 list" where
  "npf_utoa_rev val base case_adj =
     utoa_digit (unat (val mod base)) case_adj #
     (if val div base = 0 \<or> base < 2 then [] else npf_utoa_rev (val div base) base case_adj)"
  by pat_completeness auto
termination
proof (relation "measure (\<lambda>(val, base, adj). unat val)", goal_cases)
  case (2 val base adj)
  hence "unat val \<noteq> 0" by (auto simp: unat_eq_zero)
  moreover have "1 < unat base" using 2 by (simp add: word_less_nat_alt linorder_not_less)
  ultimately show ?case by (simp add: unat_div)
qed simp

declare npf_utoa_rev.simps [simp del]

text \<open>The length in binary is 64 minus the number of leading zeros, which is what the loop for
  compilers without that builtin counts.\<close>

function bin_len_loop :: "u64 \<Rightarrow> nat" where
  "bin_len_loop u = (if u = 0 then 0 else Suc (bin_len_loop (drop_bit 1 u)))"
  by pat_completeness auto
termination
  by (relation "measure unat") (auto simp: drop_bit_eq_div unat_div unat_gt_0)

declare bin_len_loop.simps [simp del]

definition npf_bin_len :: "u64 \<Rightarrow> nat" where
  "npf_bin_len u = (if u = 0 then 1 else bin_len_loop u)"

text \<open>What a conversion leaves for the output: the characters (reversed for numbers), the value of a
  binary conversion, their number, the sign, the letter of a 0x prefix and whether the value was 0.\<close>

record npf_converted =
  cbuf :: "u8 list"
  binval :: u64
  cbuf_len :: nat
  sign_c :: u8
  need_0x :: u8
  zero :: bool

definition converted :: "u8 list \<Rightarrow> npf_converted" where
  "converted cs = \<lparr>cbuf = cs, binval = 0, cbuf_len = length cs, sign_c = 0, need_0x = 0, zero = False\<rparr>"

definition va_arg :: "u64 list \<Rightarrow> (u64 \<times> u64 list) option" where
  "va_arg args = (case args of [] \<Rightarrow> None | a # as \<Rightarrow> Some (a, as))"

definition arg_int :: "u64 \<Rightarrow> int" where
  "arg_int a = sint (ucast a :: 32 word)"

definition star_width :: "npf_format_spec \<Rightarrow> u64 list \<Rightarrow> (npf_format_spec \<times> u64 list) option" where
  "star_width fs args =
     (if field_width_opt fs = NPF_FMT_SPEC_OPT_STAR then do {
        (a, as) \<leftarrow> va_arg args;
        Some (if arg_int a < 0 then fs\<lparr>field_width := - arg_int a, left_justified := True\<rparr>
              else fs\<lparr>field_width := arg_int a\<rparr>, as)
      } else Some (fs, args))"

definition star_prec :: "npf_format_spec \<Rightarrow> u64 list \<Rightarrow> (npf_format_spec \<times> u64 list) option" where
  "star_prec fs args =
     (if prec_opt fs = NPF_FMT_SPEC_OPT_STAR then do {
        (a, as) \<leftarrow> va_arg args;
        Some (if arg_int a < 0 then fs\<lparr>prec := arg_int a, prec_opt := NPF_FMT_SPEC_OPT_NONE\<rparr>
              else fs\<lparr>prec := arg_int a\<rparr>, as)
      } else Some (fs, args))"

partial_function (option) string_span :: "mem \<Rightarrow> (nat \<Rightarrow> bool) \<Rightarrow> u64 \<Rightarrow> nat \<Rightarrow> nat option" where
  "string_span m within p n =
     (if within n \<and> m p \<noteq> 0 then string_span m within (p + 1) (n + 1) else Some n)"

definition signed_value :: "npf_len_mod \<Rightarrow> u64 \<Rightarrow> int" where
  "signed_value lm a =
     (case lm of
        NPF_FMT_SPEC_LEN_MOD_NONE \<Rightarrow> sint (ucast a :: 32 word)
      | NPF_FMT_SPEC_LEN_MOD_SHORT \<Rightarrow> sint (ucast a :: 16 word)
      | NPF_FMT_SPEC_LEN_MOD_LONG_DOUBLE \<Rightarrow> sint (ucast a :: 32 word)
      | NPF_FMT_SPEC_LEN_MOD_CHAR \<Rightarrow> sint (ucast a :: 8 word)
      | _ \<Rightarrow> sint a)"

definition unsigned_value :: "npf_len_mod \<Rightarrow> u64 \<Rightarrow> u64" where
  "unsigned_value lm a =
     (case lm of
        NPF_FMT_SPEC_LEN_MOD_NONE \<Rightarrow> ucast (ucast a :: 32 word)
      | NPF_FMT_SPEC_LEN_MOD_SHORT \<Rightarrow> ucast (ucast a :: 16 word)
      | NPF_FMT_SPEC_LEN_MOD_LONG_DOUBLE \<Rightarrow> ucast (ucast a :: 32 word)
      | NPF_FMT_SPEC_LEN_MOD_CHAR \<Rightarrow> ucast (ucast a :: 8 word)
      | _ \<Rightarrow> a)"

definition nothing_to_print :: "npf_format_spec \<Rightarrow> bool \<Rightarrow> bool" where
  "nothing_to_print fs z \<longleftrightarrow> z \<and> prec_opt fs \<noteq> NPF_FMT_SPEC_OPT_NONE \<and> prec fs = 0"

definition convert_signed :: "npf_format_spec \<Rightarrow> u64 \<Rightarrow> npf_converted" where
  "convert_signed fs a =
     (let val = signed_value (length_modifier fs) a;
          uval = (if val < 0 then 0 - word_of_int val else word_of_int val);
          cs = (if nothing_to_print fs (val = 0) then [] else npf_utoa_rev uval 10 (case_adjust fs))
      in (converted cs)\<lparr>sign_c := if val < 0 then byte_of CHR ''-'' else prepend fs, zero := (val = 0)\<rparr>)"

definition unsigned_base :: "npf_conv \<Rightarrow> u64" where
  "unsigned_base conv =
     (if conv = NPF_FMT_SPEC_CONV_OCTAL then 8 else if conv = NPF_FMT_SPEC_CONV_HEX_INT then 16 else 10)"

definition convert_unsigned :: "npf_format_spec \<Rightarrow> u64 \<Rightarrow> npf_format_spec \<times> npf_converted" where
  "convert_unsigned fs a =
     (let val = unsigned_value (length_modifier fs) a;
          octal = (conv_spec fs = NPF_FMT_SPEC_CONV_OCTAL);
          (fs1, c1) =
            (if nothing_to_print fs (val = 0)
             then (if octal \<and> alt_form fs then fs\<lparr>prec := 1\<rparr> else fs, converted [])
             else if conv_spec fs = NPF_FMT_SPEC_CONV_BINARY
             then (fs, (converted [])\<lparr>cbuf_len := npf_bin_len val, binval := val\<rparr>)
             else (fs, converted (npf_utoa_rev val (unsigned_base (conv_spec fs)) (case_adjust fs))));
          c2 = (if val \<noteq> 0 \<and> alt_form fs \<and> octal
                then c1\<lparr>cbuf := cbuf c1 @ [byte_of CHR ''0''], cbuf_len := cbuf_len c1 + 1\<rparr> else c1);
          x = (if conv_spec fs = NPF_FMT_SPEC_CONV_HEX_INT then byte_of CHR ''X''
               else if conv_spec fs = NPF_FMT_SPEC_CONV_BINARY then byte_of CHR ''B'' else 0);
          c3 = (if val \<noteq> 0 \<and> alt_form fs \<and> x \<noteq> 0 then c2\<lparr>need_0x := x + case_adjust fs\<rparr> else c2)
      in (fs1, c3\<lparr>zero := (val = 0)\<rparr>))"

definition npf_convert :: "mem \<Rightarrow> npf_format_spec \<Rightarrow> u64 list \<Rightarrow>
    (npf_format_spec \<times> npf_converted \<times> u64 list) option" where
  "npf_convert m fs args =
     (case conv_spec fs of
        NPF_FMT_SPEC_CONV_NONE \<Rightarrow> Some (fs, converted [], args)
      | NPF_FMT_SPEC_CONV_PERCENT \<Rightarrow> Some (fs, converted [byte_of CHR ''%''], args)
      | NPF_FMT_SPEC_CONV_CHAR \<Rightarrow> do {
          (a, as) \<leftarrow> va_arg args;
          Some (fs, converted [ucast a], as) }
      | NPF_FMT_SPEC_CONV_STRING \<Rightarrow> do {
          (a, as) \<leftarrow> va_arg args;
          n \<leftarrow> string_span m (\<lambda>n. prec_opt fs = NPF_FMT_SPEC_OPT_NONE \<or> int n < prec fs) a 0;
          Some (fs, converted (read_bytes m a n), as) }
      | NPF_FMT_SPEC_CONV_SIGNED_INT \<Rightarrow> do {
          (a, as) \<leftarrow> va_arg args;
          Some (fs, convert_signed fs a, as) }
      | NPF_FMT_SPEC_CONV_POINTER \<Rightarrow> do {
          (a, as) \<leftarrow> va_arg args;
          Some (fs, (converted (npf_utoa_rev a 16 32))\<lparr>need_0x := byte_of CHR ''x''\<rparr>, as) }
      | _ \<Rightarrow> do {
          (a, as) \<leftarrow> va_arg args;
          let (fs', c) = convert_unsigned fs a;
          Some (fs', c, as) })"

section \<open>Output\<close>

definition pad_char :: "npf_format_spec \<Rightarrow> bool \<Rightarrow> u8" where
  "pad_char fs z =
     (if field_width_opt fs \<noteq> NPF_FMT_SPEC_OPT_NONE then
        (if leading_zero_pad fs then
           (if conv_spec fs \<noteq> NPF_FMT_SPEC_CONV_STRING \<and> conv_spec fs \<noteq> NPF_FMT_SPEC_CONV_CHAR \<and>
               conv_spec fs \<noteq> NPF_FMT_SPEC_CONV_PERCENT
            then (if nothing_to_print fs z then byte_of CHR '' '' else byte_of CHR ''0'') else 0)
         else byte_of CHR '' '')
      else 0)"

definition prec_pad :: "npf_format_spec \<Rightarrow> npf_converted \<Rightarrow> int" where
  "prec_pad fs c = (if conv_spec fs \<noteq> NPF_FMT_SPEC_CONV_STRING
     then npf_max 0 (prec fs - int (cbuf_len c)) else 0)"

definition field_pad :: "npf_format_spec \<Rightarrow> npf_converted \<Rightarrow> int" where
  "field_pad fs c =
     npf_max 0 (field_width fs - int (cbuf_len c) - (if sign_c c \<noteq> 0 then 1 else 0)
       - (if need_0x c \<noteq> 0 then 2 else 0) - prec_pad fs c)"

definition prefix_0x :: "npf_converted \<Rightarrow> u8 list" where
  "prefix_0x c = (if need_0x c \<noteq> 0 then [byte_of CHR ''0'', need_0x c] else [])"

definition sign_text :: "npf_converted \<Rightarrow> u8 list" where
  "sign_text c = (if sign_c c \<noteq> 0 then [sign_c c] else [])"

definition payload :: "npf_format_spec \<Rightarrow> npf_converted \<Rightarrow> u8 list" where
  "payload fs c =
     (if conv_spec fs = NPF_FMT_SPEC_CONV_STRING then cbuf c
      else replicate (nat (prec_pad fs c)) (byte_of CHR ''0'') @
        (if conv_spec fs = NPF_FMT_SPEC_CONV_BINARY
         then map (\<lambda>i. byte_of CHR ''0'' + (if bit (binval c) i then 1 else 0)) (rev [0..<cbuf_len c])
         else rev (cbuf c)))"

definition npf_output :: "npf_format_spec \<Rightarrow> npf_converted \<Rightarrow> u8 list" where
  "npf_output fs c =
     (let pad_c = pad_char fs (zero c);
          pad = replicate (nat (field_pad fs c)) pad_c;
          right = (\<not> left_justified fs \<and> pad_c \<noteq> 0);
          sign_first = (right \<and> pad_c = byte_of CHR ''0'')
      in (if right then
            (if pad_c = byte_of CHR ''0'' then sign_text c @ prefix_0x c @ pad else pad @ prefix_0x c)
          else prefix_0x c) @
         (if conv_spec fs \<noteq> NPF_FMT_SPEC_CONV_STRING \<and> \<not> sign_first then sign_text c else []) @
         payload fs c @
         (if left_justified fs \<and> pad_c \<noteq> 0 then pad else []))"

function vpprintf_loop :: "mem \<Rightarrow> u8 list \<Rightarrow> u64 list \<Rightarrow> u8 list option" where
  "vpprintf_loop m [] args = Some []"
| "vpprintf_loop m (c # cs) args =
     (let (fs_len, fs) = (if c = byte_of CHR ''%'' then npf_parse_format_spec (c # cs) else (0, spec_start)) in
      if fs_len = 0 then map_option (\<lambda>out. c # out) (vpprintf_loop m cs args)
      else do {
        (f1, a1) \<leftarrow> star_width fs args;
        (f2, a2) \<leftarrow> star_prec f1 a1;
        (f3, conv, a3) \<leftarrow> npf_convert m f2 a2;
        out \<leftarrow> vpprintf_loop m (drop fs_len (c # cs)) a3;
        Some (npf_output f3 conv @ out)
      })"
  by pat_completeness auto
termination
  by (relation "measure (\<lambda>(m, format, args). length format)") auto

declare vpprintf_loop.simps(2) [simp del]

definition npf_vpprintf :: "mem \<Rightarrow> u8 list \<Rightarrow> u64 list \<Rightarrow> (u8 list \<times> int) option" where
  "npf_vpprintf m format args = map_option (\<lambda>out. (out, int (length out))) (vpprintf_loop m format args)"

record npf_bufputc_ctx =
  dst :: u64
  len :: u64
  cur :: u64

definition npf_bufputc :: "u8 \<Rightarrow> npf_bufputc_ctx \<times> mem \<Rightarrow> npf_bufputc_ctx \<times> mem" where
  "npf_bufputc c = (\<lambda>(bpc, m). if cur bpc < len bpc
     then (bpc\<lparr>cur := cur bpc + 1\<rparr>, m(dst bpc + cur bpc := c)) else (bpc, m))"

definition npf_bufputc_nop :: "u8 \<Rightarrow> npf_bufputc_ctx \<times> mem \<Rightarrow> npf_bufputc_ctx \<times> mem" where
  "npf_bufputc_nop c = (\<lambda>x. x)"

definition npf_vsnprintf :: "u64 \<Rightarrow> u64 \<Rightarrow> u8 list \<Rightarrow> u64 list \<Rightarrow> mem \<Rightarrow> (int \<times> mem) option" where
  "npf_vsnprintf buffer bufsz format args m = do {
     (out, n) \<leftarrow> npf_vpprintf m format args;
     let pc = (if buffer \<noteq> NULL then npf_bufputc else npf_bufputc_nop);
     let (bpc, m1) = fold pc (out @ [0]) (\<lparr>dst = buffer, len = bufsz, cur = 0\<rparr>, m);
     Some (n, if buffer \<noteq> NULL \<and> bufsz \<noteq> 0 then m1(buffer + (bufsz - 1) := 0) else m1)
   }"

definition npf_snprintf :: "u64 \<Rightarrow> u64 \<Rightarrow> u8 list \<Rightarrow> u64 list \<Rightarrow> mem \<Rightarrow> (int \<times> mem) option" where
  "npf_snprintf buffer bufsz format args m = npf_vsnprintf buffer bufsz format args m"

section \<open>The kernel console (main.c)\<close>

text \<open>\<open>kprintf\<close> measures the text, reserves \<open>str\<close> on the stack, prints into it and hands it to the
  terminal.  The address of the array is an argument, and what the terminal is given is the result.\<close>

definition kprintf_interruptable :: "u64 \<Rightarrow> u8 list \<Rightarrow> u64 list \<Rightarrow> mutex \<Rightarrow> 'a machine_scheme \<Rightarrow>
    (u8 list \<times> mutex \<times> 'a machine_scheme) option" where
  "kprintf_interruptable str fmt args ft_ctx_mutex s = do {
     (n, m0) \<leftarrow> npf_vsnprintf NULL 0 fmt args (kmem s);
     let sz = word_of_int n;
     (_, m1) \<leftarrow> npf_vsnprintf str (sz + 1) fmt args m0;
     (_, mx) \<leftarrow> acquire_mutex ft_ctx_mutex;
     Some (read_bytes m1 str (unat sz), snd (release_mutex mx), s\<lparr>kmem := m1\<rparr>)
   }"

definition kprintf :: "u64 \<Rightarrow> u8 list \<Rightarrow> u64 list \<Rightarrow> mutex \<Rightarrow> 'a machine_scheme \<Rightarrow>
    (u8 list \<times> mutex \<times> 'a machine_scheme) option" where
  "kprintf str fmt args ft_ctx_mutex s = do {
     let (irq_status, s1) = irq_disable_save s;
     (out, mx, s2) \<leftarrow> kprintf_interruptable str fmt args ft_ctx_mutex s1;
     Some (out, mx, irq_restore (Some irq_status) s2)
   }"

section \<open>Characters and digits\<close>

lemma byte_of_simps:
  shows "byte_of CHR ''%'' = 37"
    "byte_of CHR ''-'' = 45"
    "byte_of CHR ''0'' = 48"
    "byte_of CHR ''+'' = 43"
    "byte_of CHR '' '' = 32"
    "byte_of CHR ''#'' = 35"
    "byte_of CHR ''*'' = 42"
    "byte_of CHR ''.'' = 46"
    "byte_of CHR ''h'' = 104"
    "byte_of CHR ''l'' = 108"
    "byte_of CHR ''j'' = 106"
    "byte_of CHR ''z'' = 122"
    "byte_of CHR ''t'' = 116"
    "byte_of CHR ''c'' = 99"
    "byte_of CHR ''s'' = 115"
    "byte_of CHR ''i'' = 105"
    "byte_of CHR ''a'' = 97"
    "byte_of CHR ''d'' = 100"
    "byte_of CHR ''u'' = 117"
    "byte_of CHR ''o'' = 111"
    "byte_of CHR ''X'' = 88"
    "byte_of CHR ''x'' = 120"
    "byte_of CHR ''p'' = 112"
    "byte_of CHR ''B'' = 66"
    "byte_of CHR ''b'' = 98"
    "byte_of CHR ''A'' = 65"
  by code_simp+

lemma bytes_of_simps [simp]: "bytes_of [] = []" "bytes_of (c # cs) = byte_of c # bytes_of cs"
  by (simp_all add: bytes_of_def byte_of_def)

text \<open>The digits of a number in a base, least significant first.\<close>

function nat_digits :: "nat \<Rightarrow> nat \<Rightarrow> nat list" where
  "nat_digits b n = n mod b # (if n div b = 0 \<or> b < 2 then [] else nat_digits b (n div b))"
  by pat_completeness auto
termination
  by (relation "measure snd") (auto intro!: div_less_dividend gr0I)

declare nat_digits.simps [simp del]

definition digits_nat :: "nat \<Rightarrow> nat list \<Rightarrow> nat" where
  "digits_nat b ds = foldr (\<lambda>d v. d + b * v) ds 0"

lemma nat_digits_value: "2 \<le> b \<Longrightarrow> digits_nat b (nat_digits b n) = n"
proof (induction b n rule: nat_digits.induct)
  case (1 b n)
  thus ?case by (subst nat_digits.simps) (auto simp: digits_nat_def div_eq_0_iff)
qed

lemma nat_digits_less: "2 \<le> b \<Longrightarrow> d \<in> set (nat_digits b n) \<Longrightarrow> d < b"
proof (induction b n rule: nat_digits.induct)
  case (1 b n)
  thus ?case by (subst (asm) nat_digits.simps) (auto split: if_splits)
qed

lemma nat_digits_length: "2 \<le> b \<Longrightarrow> n < b ^ Suc k \<Longrightarrow> length (nat_digits b n) \<le> Suc k"
proof (induction k arbitrary: n)
  case (Suc k)
  hence "n div b < b ^ Suc k" by (auto simp: less_mult_imp_div_less mult.commute)
  thus ?case using Suc by (subst nat_digits.simps) auto
qed (subst nat_digits.simps, simp)

lemma npf_utoa_rev_digits:
  "npf_utoa_rev val base adj = map (\<lambda>d. utoa_digit d adj) (nat_digits (unat base) (unat val))"
proof (induction val base adj rule: npf_utoa_rev.induct)
  case (1 val base adj)
  have c: "val div base = 0 \<or> base < 2 \<longleftrightarrow> unat val div unat base = 0 \<or> unat base < 2"
    by (simp add: word_less_nat_alt unat_eq_zero [symmetric] unat_div del: unat_eq_zero)
  have IH: "npf_utoa_rev (val div base) base adj =
      map (\<lambda>d. utoa_digit d adj) (nat_digits (unat base) (unat val div unat base))"
    if "\<not> (unat val div unat base = 0 \<or> unat base < 2)"
    using 1 that c by (simp add: unat_div)
  show ?case
    using c IH
    by (subst npf_utoa_rev.simps, subst nat_digits.simps) (auto simp: unat_mod)
qed

lemma utoa_digit_dec: "d < 10 \<Longrightarrow> utoa_digit d adj = of_nat (48 + d)"
  by (simp add: utoa_digit_def byte_of_simps)

lemma nat_digits_dec: "n \<noteq> 0 \<Longrightarrow> map (\<lambda>d. utoa_digit d adj) (nat_digits 10 n) = dec_digits n"
proof (induction n rule: dec_digits.induct)
  case (1 n)
  thus ?case
    by (subst nat_digits.simps, subst dec_digits.simps)
      (cases "n div 10 = 0", auto simp: utoa_digit_dec dec_digits.simps [of 0] simp del: of_nat_add)
qed

lemma npf_utoa_rev_dec: "npf_utoa_rev val 10 adj = rev (dec_string val)"
proof (cases "val = 0")
  case True
  thus ?thesis
    by (simp add: npf_utoa_rev_digits nat_digits.simps [of 10 0] dec_string_def utoa_digit_dec del: of_nat_add)
next
  case False
  thus ?thesis by (simp add: npf_utoa_rev_digits nat_digits_dec dec_string_def unat_eq_zero)
qed

lemma npf_utoa_rev_length: "base = 8 \<or> base = 10 \<or> base = 16 \<Longrightarrow> length (npf_utoa_rev val base adj) \<le> 22"
  using less_le_trans [OF unat_u64_bound [of val], of "unat base ^ 22"] nat_digits_length [of "unat base" "unat val" 21]
  by (auto simp: npf_utoa_rev_digits)

section \<open>Printing into a buffer\<close>

lemma fold_bufputc:
  assumes "length bs \<le> unat l"
  shows "fold npf_bufputc cs (\<lparr>dst = p, len = l, cur = of_nat (length bs)\<rparr>, put_bytes p bs m) =
    (\<lparr>dst = p, len = l, cur = of_nat (min (unat l) (length bs + length cs))\<rparr>, put_bytes p (take (unat l) (bs @ cs)) m)"
  using assms
proof (induction cs arbitrary: bs)
  case (Cons c cs)
  have b: "length bs < 2 ^ 64" using le_less_trans [OF Cons.prems unat_u64_bound] by simp
  have u: "unat (of_nat (length bs) :: u64) = length bs" using b by (rule unat_of_nat_u64)
  show ?case
  proof (cases "length bs < unat l")
    case True
    have "fold npf_bufputc (c # cs) (\<lparr>dst = p, len = l, cur = of_nat (length bs)\<rparr>, put_bytes p bs m) =
        fold npf_bufputc cs (\<lparr>dst = p, len = l, cur = of_nat (length (bs @ [c]))\<rparr>, put_bytes p (bs @ [c]) m)"
      using True u b by (simp add: npf_bufputc_def word_less_nat_alt put_bytes_snoc add.commute)
    thus ?thesis using Cons.IH [of "bs @ [c]"] True by simp
  next
    case False
    hence "length bs = unat l" using Cons.prems by simp
    moreover have "fold npf_bufputc (c # cs) (\<lparr>dst = p, len = l, cur = of_nat (length bs)\<rparr>, put_bytes p bs m) =
        fold npf_bufputc cs (\<lparr>dst = p, len = l, cur = of_nat (length bs)\<rparr>, put_bytes p bs m)"
      using False u by (simp add: npf_bufputc_def word_less_nat_alt)
    ultimately show ?thesis using Cons.IH [of bs] by simp
  qed
qed simp

lemma fold_bufputc_nop: "fold npf_bufputc_nop cs x = x"
  by (induction cs) (simp_all add: npf_bufputc_nop_def)

lemma npf_vsnprintf_measures:
  "vpprintf_loop m format args = Some out \<Longrightarrow> npf_vsnprintf NULL sz format args m = Some (int (length out), m)"
  by (simp add: npf_vsnprintf_def npf_vpprintf_def fold_bufputc_nop npf_bufputc_nop_def)

lemma npf_vsnprintf_prints:
  assumes "vpprintf_loop m format args = Some out" "buffer \<noteq> NULL" "bufsz \<noteq> 0"
  shows "npf_vsnprintf buffer bufsz format args m = Some (int (length out),
    (put_bytes buffer (take (unat bufsz) (out @ [0])) m)(buffer + of_nat (unat bufsz - 1) := 0))"
proof -
  have "unat bufsz \<noteq> 0" using assms(3) by (simp add: unat_eq_zero)
  hence "bufsz - 1 = of_nat (unat bufsz - 1)" by (simp add: of_nat_diff)
  thus ?thesis
    using assms fold_bufputc [of "[]" bufsz "out @ [0]" buffer m]
    by (simp add: npf_vsnprintf_def npf_vpprintf_def del: take_append)
qed

lemma read_terminated:
  assumes "0 < n" "n < 2 ^ 64"
  shows "read_bytes ((put_bytes p (take n (out @ [0])) m)(p + of_nat (n - 1) := 0)) p (Suc (min (length out) (n - 1))) =
    take (n - 1) out @ [0]"
proof (rule nth_equalityI)
  fix i
  assume "i < length (read_bytes ((put_bytes p (take n (out @ [0])) m)(p + of_nat (n - 1) := 0)) p
    (Suc (min (length out) (n - 1))))"
  hence i: "i < Suc (min (length out) (n - 1))" by simp
  have "p + of_nat i = p + of_nat (n - 1) \<longleftrightarrow> i = n - 1"
    using of_nat_inj_u64 [of i "n - 1"] i assms by auto
  thus "read_bytes ((put_bytes p (take n (out @ [0])) m)(p + of_nat (n - 1) := 0)) p
      (Suc (min (length out) (n - 1))) ! i = (take (n - 1) out @ [0]) ! i"
    using i assms by (auto simp: nth_read_bytes put_bytes_at nth_append min_def simp del: read_bytes.simps of_nat_diff)
qed simp

lemma in_range_mono: "in_range p n a \<Longrightarrow> n \<le> k \<Longrightarrow> in_range p k a"
  by (simp add: in_range_def)

lemma in_range_offset: "k < n \<Longrightarrow> n \<le> 2 ^ 64 \<Longrightarrow> in_range p n (p + of_nat k)"
  by (simp add: in_range_def unat_of_nat_u64)

section \<open>Conversions\<close>

lemma va_arg_simps [simp]: "va_arg [] = None" "va_arg (a # as) = Some (a, as)"
  by (simp_all add: va_arg_def)

lemma converted_simps [simp]:
  "cbuf (converted cs) = cs" "cbuf_len (converted cs) = length cs" "sign_c (converted cs) = 0"
  "need_0x (converted cs) = 0" "zero (converted cs) = False" "binval (converted cs) = 0"
  by (simp_all add: converted_def)

lemma star_unused [simp]:
  "field_width_opt fs = NPF_FMT_SPEC_OPT_NONE \<Longrightarrow> star_width fs args = Some (fs, args)"
  "prec_opt fs = NPF_FMT_SPEC_OPT_NONE \<Longrightarrow> star_prec fs args = Some (fs, args)"
  by (simp_all add: star_width_def star_prec_def)

definition int_text :: "int \<Rightarrow> u8 list" where
  "int_text v = (if v < 0 then [byte_of CHR ''-''] else []) @ dec_string (word_of_int \<bar>v\<bar>)"

definition hex_text :: "u64 \<Rightarrow> u8 list" where
  "hex_text v = rev (map (\<lambda>d. utoa_digit d 32) (nat_digits 16 (unat v)))"

lemma vpprintf_literal:
  "byte_of CHR ''%'' \<notin> set lit \<Longrightarrow>
   vpprintf_loop m (lit @ format) args = map_option ((@) lit) (vpprintf_loop m format args)"
proof (induction lit)
  case (Cons c lit)
  thus ?case by (auto simp: vpprintf_loop.simps(2) option.map_comp comp_def)
qed (cases "vpprintf_loop m format args"; simp)

lemma npf_bin_len_pos: "0 < npf_bin_len u"
  by (simp add: npf_bin_len_def bin_len_loop.simps)

lemma payload_length:
  assumes "npf_convert m fs args = Some (fs', c, as)"
  shows "int (length (payload fs' c)) = int (cbuf_len c) + prec_pad fs' c"
    and "conv_spec fs' = NPF_FMT_SPEC_CONV_STRING \<Longrightarrow> sign_c c = 0 \<and> need_0x c = 0"
  using assms
  by (auto simp: npf_convert_def convert_signed_def convert_unsigned_def payload_def prec_pad_def npf_max_def
      Let_def bind_eq_Some_conv split: npf_conv.splits if_splits)

lemma npf_output_length:
  assumes "int (length (payload fs c)) = int (cbuf_len c) + prec_pad fs c"
    and "conv_spec fs = NPF_FMT_SPEC_CONV_STRING \<Longrightarrow> sign_c c = 0 \<and> need_0x c = 0"
  shows "int (length (npf_output fs c)) = int (length (sign_text c @ prefix_0x c @ payload fs c)) +
    (if pad_char fs (zero c) = 0 then 0 else field_pad fs c)"
proof -
  have "0 \<le> field_pad fs c" by (simp add: field_pad_def npf_max_def)
  thus ?thesis using assms(2)
    by (auto simp: npf_output_def Let_def sign_text_def byte_of_simps)
qed

lemma pad_char_zero_iff:
  "pad_char fs z = 0 \<longleftrightarrow> field_width_opt fs = NPF_FMT_SPEC_OPT_NONE \<or> leading_zero_pad fs \<and>
     conv_spec fs \<in> {NPF_FMT_SPEC_CONV_STRING, NPF_FMT_SPEC_CONV_CHAR, NPF_FMT_SPEC_CONV_PERCENT}"
  by (auto simp: pad_char_def byte_of_simps)

lemma plain_output:
  assumes "field_width_opt fs = NPF_FMT_SPEC_OPT_NONE"
  shows "npf_output fs c = prefix_0x c @
    (if conv_spec fs = NPF_FMT_SPEC_CONV_STRING then [] else sign_text c) @ payload fs c"
  using assms by (simp add: npf_output_def pad_char_def)

lemma nothing_to_print_plain [simp]: "prec_opt fs = NPF_FMT_SPEC_OPT_NONE \<Longrightarrow> nothing_to_print fs z = False"
  by (simp add: nothing_to_print_def)

lemmas plain_simps = plain_output prefix_0x_def sign_text_def payload_def prec_pad_def npf_max_def Let_def

lemma parse_plain:
  "npf_parse_format_spec (byte_of CHR ''%'' # byte_of CHR ''d'' # rest) =
     (Suc 1, spec_start\<lparr>conv_spec := NPF_FMT_SPEC_CONV_SIGNED_INT\<rparr>)"
  "npf_parse_format_spec (byte_of CHR ''%'' # byte_of CHR ''s'' # rest) =
     (Suc 1, spec_start\<lparr>conv_spec := NPF_FMT_SPEC_CONV_STRING\<rparr>)"
  "npf_parse_format_spec (byte_of CHR ''%'' # byte_of CHR ''l'' # byte_of CHR ''l'' # byte_of CHR ''u'' # rest) =
     (Suc 3, spec_start\<lparr>conv_spec := NPF_FMT_SPEC_CONV_UNSIGNED_INT,
        length_modifier := NPF_FMT_SPEC_LEN_MOD_LARGE_LONG_LONG\<rparr>)"
  "npf_parse_format_spec (byte_of CHR ''%'' # byte_of CHR ''l'' # byte_of CHR ''l'' # byte_of CHR ''x'' # rest) =
     (Suc 3, spec_start\<lparr>conv_spec := NPF_FMT_SPEC_CONV_HEX_INT,
        length_modifier := NPF_FMT_SPEC_LEN_MOD_LARGE_LONG_LONG\<rparr>)"
  by (simp_all add: npf_parse_format_spec_def parse_width_def parse_prec_def parse_length_def parse_conv_def
      integer_spec_def spec_start_def peek_def byte_of_simps is_digit_def)

lemma vpprintf_spec:
  assumes "npf_parse_format_spec (byte_of CHR ''%'' # rest) = (Suc n, fs)"
    and "field_width_opt fs = NPF_FMT_SPEC_OPT_NONE" "prec_opt fs = NPF_FMT_SPEC_OPT_NONE"
    and "npf_convert m fs args = Some (fs', c, as)"
  shows "vpprintf_loop m (byte_of CHR ''%'' # rest) args =
    map_option ((@) (npf_output fs' c)) (vpprintf_loop m (drop n rest) as)"
  using assms by (simp add: vpprintf_loop.simps(2) map_conv_bind_option comp_def)

lemma string_span_cstr:
  "read_bytes m a (Suc (length str)) = str @ [0] \<Longrightarrow> 0 \<notin> set str \<Longrightarrow>
   string_span m (\<lambda>_. True) a n = Some (n + length str)"
proof (induction str arbitrary: a n)
  case Nil
  thus ?case by (subst string_span.simps) simp
next
  case (Cons c str)
  thus ?case by (subst string_span.simps) auto
qed

lemma npf_convert_simps:
  "conv_spec fs = NPF_FMT_SPEC_CONV_SIGNED_INT \<Longrightarrow> npf_convert m fs (a # as) = Some (fs, convert_signed fs a, as)"
  "conv_spec fs \<in> {NPF_FMT_SPEC_CONV_UNSIGNED_INT, NPF_FMT_SPEC_CONV_HEX_INT} \<Longrightarrow>
     npf_convert m fs (a # as) = Some (fst (convert_unsigned fs a), snd (convert_unsigned fs a), as)"
  by (auto simp: npf_convert_def case_prod_unfold Let_def)

lemmas convert_simps = convert_signed_def convert_unsigned_def spec_start_def plain_simps
  signed_value_def unsigned_value_def unsigned_base_def

lemma format_d:
  "vpprintf_loop m (byte_of CHR ''%'' # byte_of CHR ''d'' # format) (v # args) =
   map_option ((@) (int_text (sint (ucast v :: 32 word)))) (vpprintf_loop m format args)"
  by (subst vpprintf_spec [OF parse_plain(1) _ _ npf_convert_simps(1)])
    (simp_all add: convert_simps npf_utoa_rev_dec int_text_def byte_of_simps)

lemma format_llu:
  "vpprintf_loop m (byte_of CHR ''%'' # byte_of CHR ''l'' # byte_of CHR ''l'' # byte_of CHR ''u'' # format) (v # args) =
   map_option ((@) (dec_string v)) (vpprintf_loop m format args)"
  by (subst vpprintf_spec [OF parse_plain(3) _ _ npf_convert_simps(2)])
    (simp_all add: convert_simps npf_utoa_rev_dec)

lemma format_llx:
  "vpprintf_loop m (byte_of CHR ''%'' # byte_of CHR ''l'' # byte_of CHR ''l'' # byte_of CHR ''x'' # format) (v # args) =
   map_option ((@) (hex_text v)) (vpprintf_loop m format args)"
  by (subst vpprintf_spec [OF parse_plain(4) _ _ npf_convert_simps(2)])
    (simp_all add: convert_simps npf_utoa_rev_digits hex_text_def)

lemma format_s:
  assumes "read_bytes m a (Suc (length str)) = str @ [0]" "0 \<notin> set str"
  shows "vpprintf_loop m (byte_of CHR ''%'' # byte_of CHR ''s'' # format) (a # args) =
   map_option ((@) str) (vpprintf_loop m format args)"
proof -
  let ?fs = "spec_start\<lparr>conv_spec := NPF_FMT_SPEC_CONV_STRING\<rparr>"
  have "read_bytes m a (length str) = str"
    using arg_cong [OF assms(1), of "take (length str)"] by (simp add: take_read_bytes del: read_bytes.simps)
  hence "npf_convert m ?fs (a # args) = Some (?fs, converted str, args)"
    using string_span_cstr [OF assms, of 0] by (simp add: npf_convert_def spec_start_def)
  thus ?thesis
    by (subst vpprintf_spec [OF parse_plain(2) _ _ \<open>npf_convert m ?fs (a # args) = _\<close>]) (simp_all add: convert_simps)
qed

lemma utoa_length [simp]:
  "length (npf_utoa_rev val 16 adj) \<le> 23" "length (npf_utoa_rev val 10 adj) \<le> 23"
  "length (npf_utoa_rev val (unsigned_base conv) adj) \<le> 22" "length (npf_utoa_rev val (unsigned_base conv) adj) \<le> 23"
  using npf_utoa_rev_length [of 16 val adj] npf_utoa_rev_length [of 10 val adj]
    npf_utoa_rev_length [of "unsigned_base conv" val adj]
  by (auto simp: unsigned_base_def)

lemma convert_lengths:
  "length (cbuf (convert_signed fs a)) \<le> 23" "length (cbuf (snd (convert_unsigned fs a))) \<le> 23"
  by (simp_all add: convert_signed_def convert_unsigned_def Let_def)

lemma vsnprintf_into:
  assumes "vpprintf_loop m format args = Some out" "buffer \<noteq> NULL" "bufsz \<noteq> 0"
  shows "\<exists>m'. npf_vsnprintf buffer bufsz format args m = Some (int (length out), m') \<and>
    read_bytes m' buffer (Suc (min (length out) (unat bufsz - 1))) = take (unat bufsz - 1) out @ [0] \<and>
    (\<forall>a. \<not> in_range buffer (unat bufsz) a \<longrightarrow> m' a = m a)"
proof -
  have n: "0 < unat bufsz" "unat bufsz < 2 ^ 64" using assms(3) by (simp_all add: unat_gt_0)
  have "\<not> in_range buffer (unat bufsz) a \<Longrightarrow>
      ((put_bytes buffer (take (unat bufsz) (out @ [0])) m)(buffer + of_nat (unat bufsz - 1) := 0)) a = m a" for a
    using in_range_offset [OF _ less_imp_le [OF n(2)], of "unat bufsz - 1" buffer] n(1) in_range_mono
    by (auto simp: put_bytes_def simp del: of_nat_diff)
  thus ?thesis using npf_vsnprintf_prints [OF assms] read_terminated [OF n] by blast
qed

section \<open>Properties\<close>

text \<open>C32: Formatting substitutes.  Literal text is copied, and \<open>%d\<close>, \<open>%llu\<close>, \<open>%llx\<close> and \<open>%s\<close> are
  replaced by the decimal notation of the next argument as an int, the decimal and the hexadecimal
  notation of it as 64 bits, and the string it points to; the rest of the format goes on with the
  arguments behind it.\<close>
theorem vpprintf_substitutes:
  assumes "byte_of CHR ''%'' \<notin> set lit" "read_bytes m a (Suc (length str)) = str @ [0]" "0 \<notin> set str"
  shows "vpprintf_loop m (lit @ bytes_of ''%d'' @ format) (v # args) =
      map_option (\<lambda>out. lit @ int_text (sint (ucast v :: 32 word)) @ out) (vpprintf_loop m format args) \<and>
    vpprintf_loop m (lit @ bytes_of ''%llu'' @ format) (v # args) =
      map_option (\<lambda>out. lit @ dec_string v @ out) (vpprintf_loop m format args) \<and>
    vpprintf_loop m (lit @ bytes_of ''%llx'' @ format) (v # args) =
      map_option (\<lambda>out. lit @ hex_text v @ out) (vpprintf_loop m format args) \<and>
    vpprintf_loop m (lit @ bytes_of ''%s'' @ format) (a # args) =
      map_option (\<lambda>out. lit @ str @ out) (vpprintf_loop m format args)"
  by (simp add: vpprintf_literal [OF assms(1)] format_d format_llu format_llx format_s [OF assms(2,3)]
      option.map_comp comp_def)

theorem vpprintf_substitutes_witness:
  "vpprintf_loop (\<lambda>_. 0) (bytes_of ''path: '' @ bytes_of ''%d'' @ []) [7] =
     Some (bytes_of ''path: '' @ int_text 7)"
proof -
  have "byte_of CHR ''%'' \<notin> set (bytes_of ''path: '')" by code_simp
  from vpprintf_substitutes [OF this, of "\<lambda>_. 0" 0 "[]" "[]" 7 "[]"] show ?thesis by (simp add: comp_def)
qed

text \<open>C33: \<open>npf_vsnprintf\<close> stays inside its buffer: it stores as much of the text as fits, always
  terminates it, writes no byte outside the buffer, and returns the length of the whole text.\<close>
theorem vsnprintf_truncates:
  assumes "vpprintf_loop m format args = Some out" "buffer \<noteq> NULL" "bufsz \<noteq> 0"
  shows "\<exists>m'. npf_vsnprintf buffer bufsz format args m = Some (int (length out), m') \<and>
    read_bytes m' buffer (Suc (min (length out) (unat bufsz - 1))) = take (unat bufsz - 1) out @ [0] \<and>
    (\<forall>a. \<not> in_range buffer (unat bufsz) a \<longrightarrow> m' a = m a)"
  using assms by (rule vsnprintf_into)

theorem vsnprintf_truncates_witness:
  "\<exists>m'. npf_vsnprintf 0x1000 4 (bytes_of ''willow'') [] (\<lambda>_. 7) = Some (6, m') \<and>
    read_bytes m' 0x1000 (Suc (Suc (Suc (Suc 0)))) = bytes_of ''wil'' @ [0] \<and> m' 0x1004 = 7"
proof -
  have "vpprintf_loop (\<lambda>_. 7) (bytes_of ''willow'') [] = Some (bytes_of ''willow'')" by code_simp
  from vsnprintf_truncates [OF this, where buffer = "0x1000" and bufsz = 4] show ?thesis
    by (auto simp: in_range_def simp del: read_bytes.simps)
qed

text \<open>C34: The conversion buffer is large enough: every conversion but that of a string, whose
  characters stay where they are, produces at most 23 characters.\<close>
theorem conversion_fits_buffer:
  assumes "npf_convert m fs args = Some (fs', c, as)" "conv_spec fs \<noteq> NPF_FMT_SPEC_CONV_STRING"
  shows "length (cbuf c) \<le> 23"
  using assms convert_lengths
  by (auto simp: npf_convert_def bind_eq_Some_conv case_prod_unfold Let_def split: npf_conv.splits)

theorem conversion_fits_buffer_witness:
  "\<exists>fs' c as. npf_convert (\<lambda>_. 0) (spec_start\<lparr>conv_spec := NPF_FMT_SPEC_CONV_OCTAL, alt_form := True,
     length_modifier := NPF_FMT_SPEC_LEN_MOD_LONG\<rparr>) [- 1] = Some (fs', c, as) \<and> length (cbuf c) \<le> 23"
proof -
  let ?fs = "spec_start\<lparr>conv_spec := NPF_FMT_SPEC_CONV_OCTAL, alt_form := True,
    length_modifier := NPF_FMT_SPEC_LEN_MOD_LONG\<rparr>"
  have c: "npf_convert (\<lambda>_. 0) ?fs [- 1] =
      Some (fst (convert_unsigned ?fs (- 1)), snd (convert_unsigned ?fs (- 1)), [])"
    by (simp add: npf_convert_def case_prod_unfold Let_def)
  from conversion_fits_buffer [OF this] c show ?thesis by (simp add: spec_start_def)
qed

text \<open>A field width is a minimum: with one given, the output of a conversion is as long as the
  text without padding, or as the field where that is longer.  Only a 0 flag on characters, strings and
  percent signs turns it off.\<close>
lemma field_width_is_minimum:
  assumes "npf_convert m fs args = Some (fs', c, as)" "field_width_opt fs' \<noteq> NPF_FMT_SPEC_OPT_NONE"
    and "leading_zero_pad fs' \<Longrightarrow>
      conv_spec fs' \<notin> {NPF_FMT_SPEC_CONV_STRING, NPF_FMT_SPEC_CONV_CHAR, NPF_FMT_SPEC_CONV_PERCENT}"
  shows "int (length (npf_output fs' c)) =
    max (field_width fs') (int (length (sign_text c @ prefix_0x c @ payload fs' c)))"
proof -
  have "pad_char fs' (zero c) \<noteq> 0" using assms(2,3) by (auto simp: pad_char_zero_iff)
  thus ?thesis
    using npf_output_length [OF payload_length [OF assms(1)]] payload_length(1) [OF assms(1)]
    by (simp add: field_pad_def npf_max_def sign_text_def prefix_0x_def)
qed

lemma field_width_is_minimum_witness:
  "length (npf_output (spec_start\<lparr>conv_spec := NPF_FMT_SPEC_CONV_CHAR, field_width := 5,
     field_width_opt := NPF_FMT_SPEC_OPT_LITERAL\<rparr>) (converted [65])) = 5"
proof -
  let ?fs = "spec_start\<lparr>conv_spec := NPF_FMT_SPEC_CONV_CHAR, field_width := 5,
    field_width_opt := NPF_FMT_SPEC_OPT_LITERAL\<rparr>"
  have "npf_convert (\<lambda>_. 0) ?fs [65] = Some (?fs, converted [65], [])" by (simp add: npf_convert_def)
  from field_width_is_minimum [OF this] show ?thesis by (simp add: spec_start_def plain_simps)
qed

text \<open>C35: \<open>kprintf\<close> hands the terminal exactly the formatted text and restores the interrupt flag, but
  the array it prints into has no room for the terminator: the byte behind it is set to 0.\<close>
theorem kprintf_overruns_by_one:
  assumes "vpprintf_loop (kmem s) fmt args = Some out" "str \<noteq> NULL" "length out < 2 ^ 31"
  shows "\<exists>mx' s'. kprintf str fmt args mx s = Some (out, mx', s') \<and> \<not> locked mx' \<and>
    irq_enabled s' = irq_enabled s \<and> kmem s' (str + of_nat (length out)) = 0 \<and>
    (\<forall>a. \<not> in_range str (Suc (length out)) a \<longrightarrow> kmem s' a = kmem s a)"
proof -
  let ?n = "Suc (length out)"
  have n: "unat (of_nat (length out) + 1 :: u64) = ?n" "?n < 2 ^ 64"
    using unat_of_nat_u64 [of ?n] assms(3) by (simp_all add: add.commute)
  have nz: "of_nat (length out) + 1 \<noteq> (0 :: u64)" using n(1) by (auto simp del: of_nat_Suc)
  let ?m = "(put_bytes str (out @ [0]) (kmem s))(str + of_nat (length out) := 0)"
  have "read_bytes ?m str (length out) = out"
    using arg_cong [OF read_terminated [of ?n str out "kmem s"], of "take (length out)"] n(2)
    by (simp add: take_read_bytes del: read_bytes.simps)
  moreover have "npf_vsnprintf str (of_nat (length out) + 1) fmt args (kmem s) = Some (int (length out), ?m)"
    using npf_vsnprintf_prints [OF assms(1,2) nz] n by simp
  ultimately have "kprintf str fmt args mx s = Some (out, mx\<lparr>locked := False\<rparr>,
      irq_restore (Some (irq_enabled s)) (s\<lparr>irq_enabled := False, kmem := ?m\<rparr>))"
    using assms n(2)
    by (simp add: kprintf_def kprintf_interruptable_def npf_vsnprintf_measures acquire_mutex_returns release_mutex_def
        atomic_compare_exchange_def Let_def unat_of_nat_u64)
  moreover have "?m a = kmem s a" if "\<not> in_range str ?n a" for a
    using that in_range_offset [of "length out" ?n str] n(2) by (auto simp: put_bytes_def)
  ultimately show ?thesis by simp
qed

theorem kprintf_overruns_by_one_witness:
  "\<exists>mx' s'. kprintf 0x1000 (bytes_of ''ab'') [] \<lparr>locked = False, mutex_object = NULL\<rparr>
      \<lparr>irq_enabled = True, kmem = (\<lambda>_. 7)\<rparr> = Some (bytes_of ''ab'', mx', s') \<and> kmem s' 0x1002 = 0"
proof -
  let ?s = "\<lparr>irq_enabled = True, kmem = (\<lambda>_. 7)\<rparr>"
  have "vpprintf_loop (kmem ?s) (bytes_of ''ab'') [] = Some (bytes_of ''ab'')" by code_simp
  from kprintf_overruns_by_one [OF this, where str = "0x1000" and mx = "\<lparr>locked = False, mutex_object = NULL\<rparr>"]
  show ?thesis by auto
qed

end
