(* ===== verification/Vfs.thy ===== *)
theory Vfs
  imports Tmpfs Nanoprintf
begin

text \<open>
  The virtual file system (vfs.c, vfs.h): resolving paths to vnodes, open files and the descriptor
  table of a thread, which maps the decimal text of a descriptor to an open file.  Paths and the keys
  of the table are C strings in the kernel memory; open files are records in a store.  An operation
  called through a table that does not fill it in, a failed assertion and the end of a function that
  should return a value leave the model without a value.
\<close>

section \<open>Data (vfs.h)\<close>

record vfs_file =
  vf_vnode :: u64
  vf_mutex :: mutex
  vf_file_ops :: u64
  vf_flags :: int
  vf_mode :: int
  vf_position :: u64
  vf_abs_path :: u64

record vfs_kernel = fs_kernel +
  vfs_files :: "u64 \<Rightarrow> vfs_file option"
  tmpfs_root :: u64
  tarball_ptr :: u64

text \<open>Addresses of the string literals and of the thread function vfs.c refers to.\<close>

record vfs_symbols =
  sym_slash :: u64
  sym_test :: u64
  sym_initial_thread :: u64

section \<open>Calls through a vnode\<close>

definition vnode_lookup :: "u64 \<Rightarrow> u64 \<Rightarrow> u8 list \<Rightarrow> 'a fs_kernel_scheme \<Rightarrow>
    (u64 \<times> 'a fs_kernel_scheme) option" where
  "vnode_lookup via vnode nm s = do {
     v \<leftarrow> vnodes s via;
     (case vnode_table v of Directory_Ops \<Rightarrow> vnode_tmpfs_lookup vnode nm s | _ \<Rightarrow> None)
   }"

definition vnode_rd :: "u64 \<Rightarrow> u64 \<Rightarrow> u64 \<Rightarrow> u64 \<Rightarrow> 'a fs_kernel_scheme \<Rightarrow>
    (u64 \<times> 'a fs_kernel_scheme) option" where
  "vnode_rd vnode buf sz offset s = do {
     v \<leftarrow> vnodes s vnode;
     (case vnode_table v of File_Ops \<Rightarrow> vnode_tmpfs_read_from_file vnode buf sz offset s | _ \<Rightarrow> None)
   }"

definition vnode_wr :: "u64 \<Rightarrow> u64 \<Rightarrow> u64 \<Rightarrow> u64 \<Rightarrow> 'a fs_kernel_scheme \<Rightarrow> 'a fs_kernel_scheme option" where
  "vnode_wr vnode dat sz offset s = do {
     v \<leftarrow> vnodes s vnode;
     (case vnode_table v of File_Ops \<Rightarrow> vnode_tmpfs_write_to_file vnode dat sz offset s | _ \<Rightarrow> None)
   }"

definition vnode_create :: "u64 \<Rightarrow> u64 \<Rightarrow> u8 list \<Rightarrow> u64 \<Rightarrow> 'a fs_kernel_scheme \<Rightarrow>
    (u64 \<times> 'a fs_kernel_scheme) option" where
  "vnode_create via vnode nm sz s = do {
     v \<leftarrow> vnodes s via;
     (case vnode_table v of Directory_Ops \<Rightarrow> vnode_tmpfs_create_file vnode nm sz s | _ \<Rightarrow> None)
   }"

section \<open>Paths\<close>

definition c_string :: "mem \<Rightarrow> u64 \<Rightarrow> u8 list option" where
  "c_string m p = map_option (\<lambda>l. read_bytes m p (unat l)) (strlen m p)"

partial_function (option) resolve_loop :: "u64 \<Rightarrow> u64 \<Rightarrow> u64 \<Rightarrow> u64 \<Rightarrow> u64 \<Rightarrow> 'a fs_kernel_scheme \<Rightarrow>
    (u64 \<times> 'a fs_kernel_scheme) option" where
  "resolve_loop slash root_dir ret tok save s =
     (if tok = NULL then Some (ret, s)
      else do {
        nm \<leftarrow> c_string (kmem s) tok;
        (v, s1) \<leftarrow> vnode_lookup root_dir ret nm s;
        (tok', save', m) \<leftarrow> strtok_r NULL slash save (kmem s1);
        resolve_loop slash root_dir v tok' save' (s1\<lparr>kmem := m\<rparr>)
      })"

definition vfs_resolve_path :: "u64 \<Rightarrow> u64 \<Rightarrow> u64 \<Rightarrow> 'a vfs_kernel_scheme \<Rightarrow>
    (u64 \<times> 'a vfs_kernel_scheme) option" where
  "vfs_resolve_path slash root_dir path s =
     (if path = NULL then None
      else do {
        let root = (if kmem s path = byte_of CHR ''/'' then tmpfs_root s else root_dir);
        (p, s1) \<leftarrow> strdup path s;
        if p = NULL then None
        else do {
          (tok, save, m) \<leftarrow> strtok_r p slash NULL (kmem s1);
          (v, s2) \<leftarrow> resolve_loop slash root root tok save (s1\<lparr>kmem := m\<rparr>);
          s3 \<leftarrow> kfree p s2;
          Some (v, s3)
        }
      })"

section \<open>Descriptors\<close>

text \<open>The table of the current thread, and the key under which a descriptor is filed.\<close>

definition current_fd_table :: "'a kernel_scheme \<Rightarrow> (u64 \<times> oa_hash) option" where
  "current_fd_table s = do {
     t \<leftarrow> threads s (get_current_thread s);
     ht \<leftarrow> fd_tables s (fd_table t);
     Some (fd_table t, ht)
   }"

definition fd_key :: "u64 \<Rightarrow> u64 \<Rightarrow> 'a machine_scheme \<Rightarrow> (u64 \<times> 'a machine_scheme) option" where
  "fd_key buf fd s = do {
     (len, m) \<leftarrow> npf_snprintf buf 64 (bytes_of ''%d'') [fd] (kmem s);
     Some (word_of_int len, s\<lparr>kmem := m\<rparr>)
   }"

definition vfs_int_fd_to_vfs_file :: "int \<Rightarrow> 'a kernel_scheme \<Rightarrow> (u64 \<times> 'a kernel_scheme) option" where
  "vfs_int_fd_to_vfs_file fd s = do {
     (_, ht) \<leftarrow> current_fd_table s;
     let (buf, s1) = kmalloc_byte 64 s;
     (len, s2) \<leftarrow> fd_key buf (word_of_int fd) s1;
     let file = oa_hash_get (kmem s2) ht buf len;
     if file = NULL then None
     else do {
       s3 \<leftarrow> kfree buf s2;
       Some (file, s3)
     }
   }"

definition pread :: "u64 \<Rightarrow> u64 \<Rightarrow> u64 \<Rightarrow> u64 \<Rightarrow> 'a vfs_kernel_scheme \<Rightarrow> (u64 \<times> 'a vfs_kernel_scheme) option" where
  "pread file buf sz offset s = do {
     f \<leftarrow> vfs_files s file;
     vnode_rd (vf_vnode f) buf sz offset s
   }"

definition fd_pread :: "int \<Rightarrow> u64 \<Rightarrow> u64 \<Rightarrow> u64 \<Rightarrow> 'a vfs_kernel_scheme \<Rightarrow> (u64 \<times> 'a vfs_kernel_scheme) option" where
  "fd_pread fd buf sz offset s = do {
     (file, s1) \<leftarrow> vfs_int_fd_to_vfs_file fd s;
     f \<leftarrow> vfs_files s1 file;
     vnode_rd (vf_vnode f) buf sz offset s1
   }"

definition pwrite :: "u64 \<Rightarrow> u64 \<Rightarrow> u64 \<Rightarrow> u64 \<Rightarrow> 'a vfs_kernel_scheme \<Rightarrow> 'a vfs_kernel_scheme option" where
  "pwrite file dat sz offset s = do {
     f \<leftarrow> vfs_files s file;
     vnode_wr (vf_vnode f) dat sz offset s
   }"

definition fd_pwrite :: "int \<Rightarrow> u64 \<Rightarrow> u64 \<Rightarrow> u64 \<Rightarrow> 'a vfs_kernel_scheme \<Rightarrow> 'a vfs_kernel_scheme option" where
  "fd_pwrite fd dat sz offset s = do {
     (file, s1) \<leftarrow> vfs_int_fd_to_vfs_file fd s;
     f \<leftarrow> vfs_files s1 file;
     vnode_wr (vf_vnode f) dat sz offset s1
   }"

section \<open>Opening and closing\<close>

text \<open>A relative path has the current directory appended to it, behind the copy \<open>strdup\<close> made room
  for.\<close>

definition resolve_for_open :: "vfs_symbols \<Rightarrow> u64 \<Rightarrow> 'a vfs_kernel_scheme \<Rightarrow>
    (u64 \<times> 'a vfs_kernel_scheme) option" where
  "resolve_for_open vs path s =
     (if path = NULL then None
      else if kmem s path = byte_of CHR ''/'' then vfs_resolve_path (sym_slash vs) (tmpfs_root s) path s
      else do {
        (p, s1) \<leftarrow> strdup path s;
        t \<leftarrow> threads s1 (get_current_thread s1);
        if p = NULL then None
        else do {
          m \<leftarrow> strcat p (current_dir t) (kmem s1);
          (v, s2) \<leftarrow> vfs_resolve_path (sym_slash vs) (tmpfs_root s1) p (s1\<lparr>kmem := m\<rparr>);
          s3 \<leftarrow> kfree p s2;
          Some (v, s3)
        }
      })"

text \<open>The table grows when it holds 33 entries.  \<open>oa_hash_rehash\<close> has set the new array when the
  assertion compares it with the old one.\<close>

definition grow_fd_table :: "oa_hash \<Rightarrow> 'a vmm_scheme \<Rightarrow> (oa_hash \<times> 'a vmm_scheme) option" where
  "grow_fd_table ht s =
     (if ht_length ht = 33 then
        (let (new_buckets, s1) = kmalloc_byte (32 * (ht_capacity ht + 32)) s;
             (old_buckets, ht1) = oa_hash_rehash (kmem s1) ht new_buckets (ht_capacity ht + 32)
         in if old_buckets \<noteq> NULL then
              (if old_buckets = ht_buckets_ptr ht1
               then map_option (Pair (ht1\<lparr>ht_buckets_ptr := new_buckets\<rparr>)) (kfree old_buckets s1) else None)
            else map_option (Pair ht1) (kfree new_buckets s1))
      else Some (ht, s))"

definition put_fd_table :: "u64 \<Rightarrow> oa_hash \<Rightarrow> 'a kernel_scheme \<Rightarrow> 'a kernel_scheme" where
  "put_fd_table p ht s = s\<lparr>fd_tables := (fd_tables s)(p \<mapsto> ht)\<rparr>"

fun free_fd_loop :: "u64 \<Rightarrow> oa_hash \<Rightarrow> u64 \<Rightarrow> u64 \<Rightarrow> nat list \<Rightarrow> 'a kernel_scheme \<Rightarrow>
    (int \<times> 'a kernel_scheme) option" where
  "free_fd_loop tab ht buf fd [] s = None"
| "free_fd_loop tab ht buf fd (i # is) s = do {
     (len, s1) \<leftarrow> fd_key buf (of_nat i) (s\<lparr>kmem := memset buf 0 64 (kmem s)\<rparr>);
     if oa_hash_get (kmem s1) ht buf len = NULL then do {
       let (_, ht') = oa_hash_set (kmem s1) ht buf len fd;
       s2 \<leftarrow> kfree buf (put_fd_table tab ht' s1);
       Some (int i, s2)
     } else free_fd_loop tab ht buf fd is s1
   }"

definition install_fd :: "u64 \<Rightarrow> 'a kernel_scheme \<Rightarrow> (int \<times> 'a kernel_scheme) option" where
  "install_fd fd s = do {
     (tab, ht0) \<leftarrow> current_fd_table s;
     (ht, s1) \<leftarrow> grow_fd_table ht0 s;
     let (buf, s2) = kmalloc_byte 64 (put_fd_table tab ht s1);
     let htlen = (ucast (ht_length ht) :: 32 word);
     (len, s3) \<leftarrow> fd_key buf (ucast htlen) s2;
     if oa_hash_get_entry (kmem s3) ht buf len = None then
       (let (_, ht') = oa_hash_set (kmem s3) ht buf len fd in Some (sint htlen, put_fd_table tab ht' s3))
     else free_fd_loop tab ht buf fd [0..<unat (ht_capacity ht)] s3
   }"

definition vfs_fdopen :: "vfs_symbols \<Rightarrow> u64 \<Rightarrow> int \<Rightarrow> int \<Rightarrow> 'a vfs_kernel_scheme \<Rightarrow>
    (int \<times> 'a vfs_kernel_scheme) option" where
  "vfs_fdopen vs path flags mode s =
     (if \<not> scheduling_started s then Some (- 1, s)
      else do {
        (v, s1) \<leftarrow> resolve_for_open vs path s;
        if v = NULL then None
        else do {
          (fd, s2) \<leftarrow> kmalloc_object 56 s1;
          let (ops, s3) = kmalloc_byte 48 s2;
          install_fd fd (s3\<lparr>vfs_files := (vfs_files s3)(fd \<mapsto>
            \<lparr>vf_vnode = v, vf_mutex = \<lparr>locked = False, mutex_object = NULL\<rparr>, vf_file_ops = ops,
             vf_flags = flags, vf_mode = mode, vf_position = 0, vf_abs_path = NULL\<rparr>)\<rparr>)
        }
      })"

definition fd_open :: "vfs_symbols \<Rightarrow> u64 \<Rightarrow> int \<Rightarrow> int \<Rightarrow> 'a vfs_kernel_scheme \<Rightarrow>
    (int \<times> 'a vfs_kernel_scheme) option" where
  "fd_open vs path flags mode s = vfs_fdopen vs path flags mode s"

definition kfree_unless_NULL :: "u64 \<Rightarrow> 'a vmm_scheme \<Rightarrow> 'a vmm_scheme option" where
  "kfree_unless_NULL p s = (if p \<noteq> NULL then kfree p s else Some s)"

text \<open>Neither of the two closing functions returns the value it declares.\<close>

definition vfs_fdclose :: "int \<Rightarrow> 'a vfs_kernel_scheme \<Rightarrow> 'a vfs_kernel_scheme option" where
  "vfs_fdclose fd s = do {
     (tab, ht) \<leftarrow> current_fd_table s;
     let (buf, s1) = kmalloc_byte 64 s;
     (len, s2) \<leftarrow> fd_key buf (word_of_int fd) s1;
     let file = oa_hash_get (kmem s2) ht buf len;
     (_, ht', s3) \<leftarrow> oa_hash_remove ht buf len s2;
     s4 \<leftarrow> kfree buf (put_fd_table tab ht' s3);
     if file \<noteq> NULL then do {
       f \<leftarrow> vfs_files s4 file;
       s5 \<leftarrow> kfree_unless_NULL (vf_abs_path f) s4;
       s6 \<leftarrow> kfree_unless_NULL (vf_file_ops f) s5;
       s7 \<leftarrow> kfree file s6;
       Some (s7\<lparr>vfs_files := (vfs_files s7)(file := None)\<rparr>)
     } else Some s4
   }"

definition fd_close :: "int \<Rightarrow> 'a vfs_kernel_scheme \<Rightarrow> 'a vfs_kernel_scheme option" where
  "fd_close fd s = vfs_fdclose fd s"

section \<open>Mounting and starting\<close>

definition vnode_mount_vfs :: "u64 \<Rightarrow> u64 \<Rightarrow> 'a fs_kernel_scheme \<Rightarrow> 'a fs_kernel_scheme option" where
  "vnode_mount_vfs parent_vnode v s = do {
     p \<leftarrow> vnodes s parent_vnode;
     Some (s\<lparr>vnodes := (vnodes s)(parent_vnode \<mapsto> p\<lparr>mounted_vfs := v\<rparr>)\<rparr>)
   }"

text \<open>The first thread runs the program of the archive; its loop on \<open>reschedule\<close> follows.\<close>

definition initial_thread :: "code_symbols \<Rightarrow> vfs_symbols \<Rightarrow> 'a vfs_kernel_scheme \<Rightarrow> 'a vfs_kernel_scheme option" where
  "initial_thread cs vs s = do {
     (_, ptr) \<leftarrow> tar_lookup_bin (kmem s) (tarball_ptr s) (sym_test vs);
     testt_ptr \<leftarrow> ptr;
     hot_exec_elf cs 480 testt_ptr s
   }"

text \<open>The modules of the boot loader are pairs of a path and an address; the one that holds the
  archive ends the loop, since the code loops on \<open>reschedule\<close> there.\<close>

fun start_from_module :: "code_symbols \<Rightarrow> vfs_symbols \<Rightarrow> (nat \<Rightarrow> u64) \<Rightarrow> u64 \<Rightarrow> (u8 list \<times> u64) list \<Rightarrow>
    'a vfs_kernel_scheme \<Rightarrow> 'a vfs_kernel_scheme option" where
  "start_from_module cs vs clock ret [] s = Some s"
| "start_from_module cs vs clock ret ((path, address) # ms) s =
     (if path = bytes_of ''/boot/tmpfs.tar'' then do {
        (n, s1) \<leftarrow> get_new_pid (s\<lparr>tarball_ptr := address\<rparr>);
        s2 \<leftarrow> hot_create_and_push_thread cs n (sym_initial_thread vs) s1;
        reschedule_loop clock ret 0 s2
      } else start_from_module cs vs clock ret ms s)"

definition init_vfs :: "code_symbols \<Rightarrow> vfs_symbols \<Rightarrow> (nat \<Rightarrow> u64) \<Rightarrow> u64 \<Rightarrow> (u8 list \<times> u64) list \<Rightarrow>
    'a vfs_kernel_scheme \<Rightarrow> 'a vfs_kernel_scheme option" where
  "init_vfs cs vs clock ret modules s = do {
     (tmpfs, s1) \<leftarrow> init_tmpfs s;
     v \<leftarrow> vfs_store s1 tmpfs;
     let root = vnode_covered v;
     let s2 = s1\<lparr>tmpfs_root := root\<rparr>;
     r \<leftarrow> vnodes s2 root;
     _ \<leftarrow> tmpfs_list_files (vnode_data r) s2;
     (_, s3) \<leftarrow> vnode_create root root (bytes_of ''hi.txt'') 4096 s2;
     _ \<leftarrow> tmpfs_list_files (vnode_data r) s3;
     (_, s4) \<leftarrow> vnode_lookup root root (bytes_of ''hi.txt'') s3;
     start_from_module cs vs clock ret modules s4
   }"

section \<open>Strings and tokens\<close>

definition str_at :: "mem \<Rightarrow> u64 \<Rightarrow> u8 list \<Rightarrow> bool" where
  "str_at m p bs \<longleftrightarrow> read_bytes m p (Suc (length bs)) = bs @ [0] \<and> 0 \<notin> set bs"

lemma str_at_Nil [simp]: "str_at m p [] \<longleftrightarrow> m p = 0"
  by (simp add: str_at_def)

lemma str_at_Cons [simp]: "str_at m p (b # bs) \<longleftrightarrow> m p = b \<and> b \<noteq> 0 \<and> str_at m (p + 1) bs"
  by (auto simp: str_at_def)

lemma str_at_append: "str_at m p (xs @ ys) \<Longrightarrow> str_at m (p + of_nat (length xs)) ys"
  by (induction xs arbitrary: p) (auto simp: add.assoc [symmetric])

lemma str_at_drop:
  assumes "str_at m p bs"
  shows "str_at m (p + of_nat (length (takeWhile P bs))) (dropWhile P bs)"
  using str_at_append [of m p "takeWhile P bs" "dropWhile P bs"] assms by simp

lemma c_string_str_at:
  assumes "str_at m p bs" "length bs < 2 ^ 64"
  shows "c_string m p = Some bs"
proof -
  have "take (length bs) (read_bytes m p (Suc (length bs))) = take (length bs) (bs @ [0])"
    using assms(1) by (simp only: str_at_def)
  hence "read_bytes m p (length bs) = bs" by (simp add: take_read_bytes del: read_bytes.simps)
  thus ?thesis
    using strlen_cstr [OF read_cstr [of m p bs]] assms
    by (simp add: str_at_def c_string_def unat_of_nat_u64 del: read_bytes.simps)
qed

lemma str_at_cong:
  assumes "str_at m p bs" "\<And>i. i \<le> length bs \<Longrightarrow> m' (p + of_nat i) = m (p + of_nat i)"
  shows "str_at m' p bs"
  using assms
proof (induction bs arbitrary: p)
  case Nil
  thus ?case using Nil(2) [of 0] by simp
next
  case (Cons b bs)
  have "m' (p + 1 + of_nat i) = m (p + 1 + of_nat i)" if "i \<le> length bs" for i
    using Cons.prems(2) [of "Suc i"] that by (simp add: add.assoc)
  thus ?case using Cons.prems Cons.prems(2) [of 0] Cons.IH [of "p + 1"] by simp
qed

lemma str_at_truncate:
  assumes "str_at m p (xs @ ys)" "length (xs @ ys) < 2 ^ 64"
  shows "str_at (m(p + of_nat (length xs) := 0)) p xs"
  using assms
proof (induction xs arbitrary: p)
  case (Cons x xs)
  have "p \<noteq> p + of_nat (length (x # xs))"
    using of_nat_inj_u64 [of 0 "length (x # xs)"] Cons.prems(2) by (simp del: length_Cons)
  thus ?case using Cons by (simp add: add.assoc [symmetric])
qed simp

definition is_slash :: "mem \<Rightarrow> u64 \<Rightarrow> bool" where
  "is_slash m p \<longleftrightarrow> m p = byte_of CHR ''/'' \<and> m (p + 1) = 0"

lemma in_slash: "is_slash m slash \<Longrightarrow> in_bytes m slash x = Some (x = byte_of CHR ''/'')"
  by (subst in_bytes.simps, subst in_bytes.simps) (auto simp: is_slash_def byte_of_def)

lemma strtok_skip_str:
  "is_slash m slash \<Longrightarrow> str_at m p bs \<Longrightarrow>
   strtok_skip m p slash = Some (p + of_nat (length (takeWhile (\<lambda>b. b = byte_of CHR ''/'') bs)))"
proof (induction bs arbitrary: p)
  case Nil
  thus ?case by (subst strtok_skip.simps) (simp add: in_slash byte_of_def)
next
  case (Cons b bs)
  thus ?case by (subst strtok_skip.simps) (simp add: in_slash)
qed

lemma strtok_scan_str:
  "is_slash m slash \<Longrightarrow> str_at m p bs \<Longrightarrow>
   strtok_scan m p slash = Some (p + of_nat (length (takeWhile (\<lambda>b. b \<noteq> byte_of CHR ''/'') bs)))"
proof (induction bs arbitrary: p)
  case Nil
  thus ?case by (subst strtok_scan.simps) (simp add: in_slash byte_of_def)
next
  case (Cons b bs)
  thus ?case by (subst strtok_scan.simps) (simp add: in_slash)
qed

lemma dropWhile_ConsD: "dropWhile P xs = x # ys \<Longrightarrow> \<not> P x"
  by (simp add: dropWhile_eq_Cons_conv)

text \<open>The components of a path.\<close>

function components :: "u8 list \<Rightarrow> u8 list list" where
  "components bs =
     (let r = dropWhile (\<lambda>b. b = byte_of CHR ''/'') bs in
      if r = [] then []
      else takeWhile (\<lambda>b. b \<noteq> byte_of CHR ''/'') r # components (dropWhile (\<lambda>b. b \<noteq> byte_of CHR ''/'') r))"
  by pat_completeness auto
termination
proof (relation "measure length", goal_cases)
  case (2 bs r)
  obtain b r' where r: "r = b # r'" using 2(2) by (cases r) simp_all
  have "dropWhile (\<lambda>b. b = byte_of CHR ''/'') bs = b # r'" using 2(1) r by simp
  hence "b \<noteq> byte_of CHR ''/''" by (rule dropWhile_ConsD)
  hence "length (dropWhile (\<lambda>b. b \<noteq> byte_of CHR ''/'') r) < length r"
    using length_dropWhile_le [of "\<lambda>b. b \<noteq> byte_of CHR ''/''" r'] r by simp
  also have "length r \<le> length bs" using 2(1) by (simp add: length_dropWhile_le)
  finally show ?case by simp
qed simp

declare components.simps [simp del]

lemma components_slash: "components (byte_of CHR ''/'' # bs) = components bs"
  by (simp add: components.simps [of bs] components.simps [of "_ # bs"])

lemma strtok_r_step:
  assumes str: "str_at m p bs" and sl: "is_slash m slash"
    and p: "(if s0 = NULL then save else s0) = p" "p \<noteq> NULL" and nw: "unat p + length bs < 2 ^ 64"
  obtains
    (none) "components bs = []" "strtok_r s0 slash save m = Some (NULL, NULL, m)"
  | (final) c tok where "components bs = [c]" "strtok_r s0 slash save m = Some (tok, NULL, m)" "tok \<noteq> NULL"
      "str_at m tok c" "length c \<le> length bs"
  | (more) c tok k bs' m' where "components bs = c # components bs'" "m' = m(p + of_nat k := 0)"
      "strtok_r s0 slash save m = Some (tok, p + of_nat (Suc k), m')" "tok \<noteq> NULL"
      "str_at m' tok c" "str_at m' (p + of_nat (Suc k)) bs'" "length bs = Suc k + length bs'" "length c \<le> length bs"
proof -
  let ?P = "\<lambda>b. b = byte_of CHR ''/''" and ?Q = "\<lambda>b. b \<noteq> byte_of CHR ''/''"
  define k r where "k = length (takeWhile ?P bs)" and "r = dropWhile ?P bs"
  let ?tok = "p + of_nat k"
  have bs: "length bs = k + length r" unfolding k_def r_def by (metis length_append takeWhile_dropWhile_id)
  have sr: "str_at m ?tok r" using str_at_drop [OF str] by (simp add: k_def r_def)
  have tok: "unat ?tok = unat p + k" if "r \<noteq> []"
    using unat_add_no_wrap [of p "of_nat k"] nw bs that by (simp add: unat_of_nat_u64)
  have "unat p \<noteq> 0" using p(2) by (simp add: unat_eq_zero)
  hence tn: "?tok \<noteq> NULL" if "r \<noteq> []" using tok that by auto
  have s1: "strtok_skip m p slash = Some ?tok" using strtok_skip_str [OF sl str] by (simp add: k_def)
  show ?thesis
  proof (cases r)
    case Nil
    have "m ?tok = 0" using Nil sr by simp
    moreover have "components bs = []" using Nil by (simp add: components.simps [of bs] r_def)
    ultimately show ?thesis using none s1 p by (simp add: strtok_r_def)
  next
    case (Cons b r')
    have b: "b \<noteq> byte_of CHR ''/''" using dropWhile_ConsD [of ?P bs b r'] Cons by (simp add: r_def)
    let ?c = "b # takeWhile ?Q r'" and ?rest = "dropWhile ?Q r'" and ?k = "k + Suc (length (takeWhile ?Q r'))"
    have sc: "strtok_scan m (?tok + 1) slash = Some (p + of_nat ?k)"
      using strtok_scan_str [OF sl, of "?tok + 1" r'] sr Cons by (simp add: ac_simps)
    have comp: "components bs = ?c # components ?rest"
      using Cons b by (simp add: components.simps [of bs] r_def)
    have er: "str_at m (p + of_nat ?k) ?rest"
      using str_at_append [of m ?tok ?c ?rest] sr Cons by (simp add: ac_simps)
    have len: "length bs = ?k + length ?rest" using bs Cons by (simp flip: length_append)
    have mt: "m ?tok \<noteq> 0" using sr Cons by simp
    show ?thesis
    proof (cases ?rest)
      case Nil
      hence all: "takeWhile ?Q r' = r'" by (simp add: dropWhile_eq_Nil_conv takeWhile_eq_all_conv)
      have "str_at m ?tok ?c" unfolding all using sr Cons by simp
      moreover have "strtok_r s0 slash save m = Some (?tok, NULL, m)"
        using s1 sc er Nil mt p by (simp add: strtok_r_def)
      moreover have "components bs = [?c]" using comp Nil by (simp add: components.simps [of "[]"])
      ultimately show ?thesis using final [of ?c ?tok] tn Cons len by simp
    next
      case (Cons x bs')
      hence x: "x = byte_of CHR ''/''" using dropWhile_ConsD [of ?Q r' x bs'] by simp
      have me: "m (p + of_nat ?k) \<noteq> 0" using er Cons by simp
      let ?m = "m(p + of_nat ?k := 0)"
      have "str_at ?m ?tok ?c"
        using str_at_truncate [of m ?tok ?c ?rest] sr \<open>r = b # r'\<close> nw bs by (simp add: ac_simps)
      moreover have "str_at ?m (p + of_nat (Suc ?k)) bs'"
      proof (rule str_at_cong [of m])
        show "str_at m (p + of_nat (Suc ?k)) bs'" using er Cons by (simp add: ac_simps)
        fix i assume "i \<le> length bs'"
        hence "p + of_nat (Suc ?k + i) \<noteq> p + of_nat ?k"
          using of_nat_inj_u64 [of "Suc ?k + i" ?k] len Cons nw by auto
        thus "?m (p + of_nat (Suc ?k) + of_nat i) = m (p + of_nat (Suc ?k) + of_nat i)" by (simp add: ac_simps)
      qed
      ultimately show ?thesis
        using more [of ?c bs' ?m ?k ?tok] comp s1 sc mt me p tn len Cons x \<open>r = b # r'\<close>
        by (simp add: strtok_r_def components_slash ac_simps)
    qed
  qed
qed

section \<open>Walking a path\<close>

text \<open>The object a list of names leads to from a directory.\<close>

fun tmpfs_walk :: "u64 \<Rightarrow> u8 list list \<Rightarrow> 'a fs_kernel_scheme \<Rightarrow> u64 option" where
  "tmpfs_walk dir [] s = Some dir"
| "tmpfs_walk dir (c # cs) s = do {
     p \<leftarrow> tmpfs_lookup dir c s;
     if p = NULL then None else tmpfs_walk p cs s
   }"

definition types_ok :: "'a fs_kernel_scheme \<Rightarrow> bool" where
  "types_ok s \<longleftrightarrow> (\<forall>p x. tmpfs_objects s p = Some x \<longrightarrow> type (object_header x) = 0 \<or> type (object_header x) = 1)"

text \<open>The part of the heap behind its first \<open>n\<close> nodes has never been written.\<close>

definition heap_blank :: "nat \<Rightarrow> 'a vmm_scheme \<Rightarrow> bool" where
  "heap_blank n s \<longleftrightarrow> (\<forall>a. unat (chunk_addr n) \<le> unat a \<and>
     unat a < unat (chunk_addr (length (heap_pages s))) \<longrightarrow> kmem s a = 0)"

lemma tmpfs_lookup_cong: "tmpfs_objects s = tmpfs_objects t \<Longrightarrow> tmpfs_lookup dir c s = tmpfs_lookup dir c t"
proof -
  assume eq: "tmpfs_objects s = tmpfs_objects t"
  have "scan_files P d s is = scan_files P d t is" for P d "is"
    by (induction "is") (simp_all add: eq cong: option.case_cong if_cong)
  thus ?thesis by (simp add: tmpfs_lookup_def find_entry_def get_dir_def eq)
qed

lemma tmpfs_walk_cong: "tmpfs_objects s = tmpfs_objects t \<Longrightarrow> tmpfs_walk dir cs s = tmpfs_walk dir cs t"
  by (induction cs arbitrary: dir) (simp_all add: tmpfs_lookup_cong [of s t] cong: if_cong)

lemma load64_zeros:
  assumes "\<And>i. i < 8 \<Longrightarrow> m (a + of_nat i) = 0"
  shows "load64 m a = 0"
proof -
  have "foldr (\<lambda>i acc. ucast (m (a + of_nat i)) OR push_bit 8 acc) is 0 = (0 :: u64)"
    if "\<forall>i\<in>set is. i < 8" for "is" using that by (induction "is") (simp_all add: assms)
  thus ?thesis by (simp add: load64_def)
qed

lemma tmpfs_link_vnode_upto:
  assumes h: "heap_upto n (heap_pages s)" "n + 3 \<le> length (heap_pages s)" and b: "heap_blank n s"
  obtains hs v where "tmpfs_link_vnode p t s =
      Some (chunk_addr n, s\<lparr>heap_pages := hs, vnodes := (vnodes s)(chunk_addr n \<mapsto> v)\<rparr>)"
    "vnode_data v = p" "mounted_vfs v = NULL" "heap_upto (n + 3) hs" "length hs = length (heap_pages s)"
proof -
  have len: "length (heap_pages s) \<le> 2 ^ 20" using h(1) by (simp add: heap_upto_def)
  obtain a1 hs1 where a1: "kmalloc_byte 56 s = (a1, s\<lparr>heap_pages := hs1\<rparr>)" "heap_upto (n + 1) hs1"
      "length hs1 = length (heap_pages s)" "a1 = chunk_addr n" "a1 \<noteq> NULL"
    by (rule kmalloc_byte_upto [OF h(1), of 56]) (use h(2) in auto)
  obtain a2 hs2 where a2: "kmalloc_byte 72 (s\<lparr>heap_pages := hs1\<rparr>) = (a2, s\<lparr>heap_pages := hs2\<rparr>)"
      "heap_upto (n + 3) hs2" "length hs2 = length (heap_pages s)" "a2 \<noteq> NULL"
    by (rule kmalloc_byte_upto [of "n + 1" "s\<lparr>heap_pages := hs1\<rparr>" 72]) (use a1 h(2) in \<open>auto simp: numeral_3_eq_3\<close>)
  have u: "unat (chunk_addr n) = 0xffffc00000000000 + 64 * n"
      "unat (chunk_addr (length (heap_pages s))) = 0xffffc00000000000 + 64 * length (heap_pages s)"
    using len h(2) by (simp_all add: chunk_addr_unat)
  have "load64 (kmem s) (chunk_addr n + 48) = 0"
  proof (rule load64_zeros)
    fix i :: nat assume i: "i < 8"
    have "unat (chunk_addr n + of_nat (48 + i)) = unat (chunk_addr n) + (48 + i)"
      using u(1) len h(2) i by (intro unat_add_of_nat [of _ 64]) (auto simp: no_wrap_def)
    thus "kmem s (chunk_addr n + 48 + of_nat i) = 0"
      using b u h(2) i by (simp add: heap_blank_def add.assoc)
  qed
  thus ?thesis
    using that a1 a2 by (simp add: tmpfs_link_vnode_def kmalloc_object_def)
qed

lemma vnode_lookup_walk:
  assumes w: "tmpfs_lookup dir c s = Some p" "p \<noteq> NULL" "tmpfs_objects s p \<noteq> None" "types_ok s"
    and v: "vnodes s ret = Some rv" "vnode_data rv = dir" "mounted_vfs rv = NULL"
    and r: "vnodes s root = Some r0" "vnode_table r0 = Directory_Ops"
    and h: "heap_upto n (heap_pages s)" "n + 3 \<le> length (heap_pages s)" "heap_blank n s"
  obtains hs v where "vnode_lookup root ret c s =
      Some (chunk_addr n, s\<lparr>heap_pages := hs, vnodes := (vnodes s)(chunk_addr n \<mapsto> v)\<rparr>)"
    "vnode_data v = p" "mounted_vfs v = NULL" "heap_upto (n + 3) hs" "length hs = length (heap_pages s)"
proof -
  obtain x where x: "tmpfs_objects s p = Some x" using w(3) by auto
  let ?t = "if type (object_header x) = 0 then VREG else VDIR"
  have "vnode_lookup root ret c s = tmpfs_link_vnode p ?t s"
    using w(1,2,4) v r x by (auto simp: vnode_lookup_def vnode_tmpfs_lookup_def types_ok_def)
  thus ?thesis using tmpfs_link_vnode_upto [OF h, of p ?t] that by metis
qed

lemma tmpfs_lookup_object:
  assumes "tmpfs_lookup dir c s = Some p" "p \<noteq> NULL"
  shows "tmpfs_objects s p \<noteq> None"
proof -
  have "\<exists>x. tmpfs_objects s (files d ! i) = Some x" if "scan_files P d s is = Some (Some i)" for P d "is" i
    using that by (induction "is") (auto split: if_splits option.splits)
  thus ?thesis
    using assms by (auto simp: tmpfs_lookup_def find_entry_def bind_eq_Some_conv split: option.splits)
qed

text \<open>The rest of a path between two tokens, inside the copy that starts at \<open>lo\<close> and ends before
  \<open>hi\<close>.\<close>

definition rest_at :: "nat \<Rightarrow> nat \<Rightarrow> mem \<Rightarrow> u64 \<Rightarrow> u8 list list \<Rightarrow> bool" where
  "rest_at lo hi m save cs \<longleftrightarrow> (save = NULL \<and> cs = []) \<or>
     (save \<noteq> NULL \<and> lo \<le> unat save \<and>
      (\<exists>bs. str_at m save bs \<and> components bs = cs \<and> unat save + length bs < hi))"

lemma strtok_r_rest:
  assumes r: "rest_at lo hi m p cs" and sl: "is_slash m slash" and p: "(if s0 = NULL then save else s0) = p"
    and out: "unat slash + 1 < lo \<or> hi \<le> unat slash" "hi < 2 ^ 64" "unat slash < 2 ^ 64 - 1"
  obtains (none) save' where "cs = []" "strtok_r s0 slash save m = Some (NULL, save', m)"
  | (token) c cs' tok save' m' where "cs = c # cs'" "strtok_r s0 slash save m = Some (tok, save', m')"
      "tok \<noteq> NULL" "str_at m' tok c" "length c < 2 ^ 64" "rest_at lo hi m' save' cs'" "is_slash m' slash"
      "\<And>a. unat a < lo \<or> hi \<le> unat a \<Longrightarrow> m' a = m a"
proof (cases "p = NULL")
  case True
  thus ?thesis using none [of save] r p by (auto simp: rest_at_def strtok_r_def)
next
  case False
  then obtain bs where bs: "str_at m p bs" "components bs = cs" "unat p + length bs < hi" "lo \<le> unat p"
    using r by (auto simp: rest_at_def)
  have nw: "unat p + length bs < 2 ^ 64" using bs(3) out(2) by simp
  show ?thesis
  proof (cases rule: strtok_r_step [OF bs(1) sl p False nw, case_names nothing final more])
    case nothing
    thus ?thesis using none bs(2) by simp
  next
    case (final c tok)
    thus ?thesis using token [of c "[]" tok NULL m] bs nw sl by (simp add: rest_at_def)
  next
    case (more c tok k bs' m')
    have k: "k < length bs" using more(7) by simp
    have up: "unat (p + of_nat i) = unat p + i" if "i \<le> length bs" for i
      using that nw by (intro unat_add_of_nat [of _ "Suc (length bs)"]) (auto simp: no_wrap_def)
    have keep: "m' a = m a" if "unat a < lo \<or> hi \<le> unat a" for a
      using that up [of k] k bs(3,4) more(2) by auto
    have "unat (slash + 1) = unat slash + 1" using out(3) by (simp add: unat_add_no_wrap)
    hence "is_slash m' slash" using sl out(1) keep [of slash] keep [of "slash + 1"] by (auto simp: is_slash_def)
    moreover have "rest_at lo hi m' (p + of_nat (Suc k)) (components bs')"
      using more(6,7) up [of "Suc k"] k bs(3,4) False by (force simp: rest_at_def)
    ultimately show ?thesis
      using token [of c "components bs'" tok "p + of_nat (Suc k)" m'] more(1,3,4,5,8) bs(2) nw keep by simp
  qed
qed

lemma resolve_loop_token:
  assumes w: "tmpfs_walk dir (c # cs) s = Some x" "types_ok s"
    and v: "vnodes s ret = Some rv" "vnode_data rv = dir" "mounted_vfs rv = NULL"
    and r: "vnodes s root = Some r0" "vnode_table r0 = Directory_Ops"
    and h: "heap_upto n (heap_pages s)" "n + 3 \<le> length (heap_pages s)" "heap_blank n s"
    and t: "tok \<noteq> NULL" "str_at (kmem s) tok c" "length c < 2 ^ 64"
  obtains hs v p where "resolve_loop slash root ret tok save s = do {
       (tok', save', m) \<leftarrow> strtok_r NULL slash save (kmem s);
       resolve_loop slash root (chunk_addr n) tok' save'
         (s\<lparr>heap_pages := hs, vnodes := (vnodes s)(chunk_addr n \<mapsto> v), kmem := m\<rparr>)
     }" "vnode_data v = p" "mounted_vfs v = NULL" "heap_upto (n + 3) hs" "length hs = length (heap_pages s)"
    "tmpfs_walk p cs s = Some x"
proof -
  obtain p where p: "tmpfs_lookup dir c s = Some p" "p \<noteq> NULL" "tmpfs_walk p cs s = Some x"
    using w(1) by (auto simp: bind_eq_Some_conv split: if_splits)
  obtain hs v where "vnode_lookup root ret c s =
      Some (chunk_addr n, s\<lparr>heap_pages := hs, vnodes := (vnodes s)(chunk_addr n \<mapsto> v)\<rparr>)"
      "vnode_data v = p" "mounted_vfs v = NULL" "heap_upto (n + 3) hs" "length hs = length (heap_pages s)"
    by (rule vnode_lookup_walk [OF p(1,2) tmpfs_lookup_object [OF p(1,2)] w(2) v r h])
  thus ?thesis
    using that [where hs = hs and v = v and p = p] t p(3) by (simp add: resolve_loop.simps [of slash root ret] c_string_str_at)
qed

lemma resolve_loop_walk:
  fixes s :: "'a fs_kernel_scheme"
  assumes "tmpfs_walk dir (c # cs) s = Some x" "types_ok s"
    and "vnodes s ret = Some rv" "vnode_data rv = dir" "mounted_vfs rv = NULL"
    and "vnodes s root = Some r0" "vnode_table r0 = Directory_Ops" "unat root < hi"
    and "heap_upto n (heap_pages s)" "n + 3 * Suc (length cs) \<le> length (heap_pages s)" "heap_blank n s"
    and "tok \<noteq> NULL" "str_at (kmem s) tok c" "length c < 2 ^ 64"
    and "rest_at lo hi (kmem s) save cs" "is_slash (kmem s) slash"
    and "unat slash + 1 < lo \<or> hi \<le> unat slash" "hi \<le> unat (chunk_addr n)" "unat slash < 2 ^ 64 - 1"
  shows "\<exists>v s'. resolve_loop slash root ret tok save s = Some (v, s') \<and>
    (\<exists>vn. vnodes s' v = Some vn \<and> vnode_data vn = x) \<and>
    heap_wf (heap_pages s') \<and> length (heap_pages s') = length (heap_pages s)"
  using assms
proof (induction cs arbitrary: s dir c ret rv n tok save)
  case Nil
  obtain hs v p where st: "resolve_loop slash root ret tok save s = do {
       (tok', save', m) \<leftarrow> strtok_r NULL slash save (kmem s);
       resolve_loop slash root (chunk_addr n) tok' save'
         (s\<lparr>heap_pages := hs, vnodes := (vnodes s)(chunk_addr n \<mapsto> v), kmem := m\<rparr>)
     }" "vnode_data v = p" "heap_upto (n + 3) hs" "length hs = length (heap_pages s)" "tmpfs_walk p [] s = Some x"
    by (rule resolve_loop_token [OF Nil(1-7,9) _ Nil(11-14)]) (use Nil(10) in auto)
  have hi: "hi < 2 ^ 64" using le_less_trans [OF Nil(18) unat_u64_bound] by simp
  have e: "(if NULL = NULL then save else NULL) = save" by simp
  show ?case
  proof (cases rule: strtok_r_rest [OF Nil(15,16) e Nil(17) hi Nil(19), case_names none token])
    case (none save')
    thus ?thesis using st by (auto simp: resolve_loop.simps [of _ _ _ NULL] heap_upto_def)
  qed simp_all
next
  case (Cons c' cs)
  obtain hs v p where st: "resolve_loop slash root ret tok save s = do {
       (tok', save', m) \<leftarrow> strtok_r NULL slash save (kmem s);
       resolve_loop slash root (chunk_addr n) tok' save'
         (s\<lparr>heap_pages := hs, vnodes := (vnodes s)(chunk_addr n \<mapsto> v), kmem := m\<rparr>)
     }" "vnode_data v = p" "mounted_vfs v = NULL" "heap_upto (n + 3) hs" "length hs = length (heap_pages s)"
      "tmpfs_walk p (c' # cs) s = Some x"
    by (rule resolve_loop_token [OF Cons(2-8,10) _ Cons(12-15)]) (use Cons(11) in auto)
  have hi: "hi < 2 ^ 64" using le_less_trans [OF Cons(19) unat_u64_bound] by simp
  have len: "length (heap_pages s) \<le> 2 ^ 20" using Cons(10) by (simp add: heap_upto_def)
  have u: "unat (chunk_addr n) \<le> unat (chunk_addr (n + 3))" using len Cons(11) by (simp add: chunk_addr_unat)
  have e: "(if NULL = NULL then save else NULL) = save" by simp
  show ?case
  proof (cases rule: strtok_r_rest [OF Cons(16,17) e Cons(18) hi Cons(20), case_names none token])
    case (token c2 cs2 tok2 save2 m2)
    let ?s = "s\<lparr>heap_pages := hs, vnodes := (vnodes s)(chunk_addr n \<mapsto> v), kmem := m2\<rparr>"
    have c: "c2 = c'" "cs2 = cs" using token(1) by simp_all
    have "heap_blank (n + 3) ?s"
      using Cons(12,19) u token(8) st(5) by (auto simp: heap_blank_def)
    moreover have "tmpfs_walk p (c' # cs) ?s = Some x" using st(6) tmpfs_walk_cong [of ?s s] by simp
    ultimately have "\<exists>v s'. resolve_loop slash root (chunk_addr n) tok2 save2 ?s = Some (v, s') \<and>
        (\<exists>vn. vnodes s' v = Some vn \<and> vnode_data vn = x) \<and>
        heap_wf (heap_pages s') \<and> length (heap_pages s') = length (heap_pages ?s)"
      using Cons.prems(2,6-8,10,17-19) st(2-5) token(3-7) c u
      by (intro Cons.IH [where dir = p and c = c' and rv = v and n = "n + 3"]) (auto simp: types_ok_def)
    thus ?thesis using st(1,5) token(2) by simp
  qed simp_all
qed

text \<open>A range of memory that does not meet the part of the heap behind its first \<open>n\<close> nodes.\<close>

definition outside_heap :: "nat \<Rightarrow> 'a vmm_scheme \<Rightarrow> u64 \<Rightarrow> nat \<Rightarrow> bool" where
  "outside_heap n s p k \<longleftrightarrow> no_wrap p k \<and> disjoint_ranges p k (chunk_addr n) (64 * (length (heap_pages s) - n))"

lemma heap_bounds:
  assumes "heap_upto n (heap_pages s)" "n + j \<le> length (heap_pages s)"
  shows "unat (chunk_addr (n + j)) = unat (chunk_addr n) + 64 * j" "unat (chunk_addr n) + 64 * j < 2 ^ 64"
    "unat (chunk_addr (length (heap_pages s))) = unat (chunk_addr n) + 64 * (length (heap_pages s) - n)"
    "chunk_addr n \<noteq> NULL" "unat (chunk_addr n) = 0xffffc00000000000 + 64 * n"
  using assms chunk_addr_unat [of n] chunk_addr_unat [of "n + j"] chunk_addr_unat [of "length (heap_pages s)"]
    chunk_addr_neq_NULL [of n]
  by (auto simp: heap_upto_def)

lemma strdup_upto:
  assumes p: "str_at (kmem s) path bs" "outside_heap n s path (Suc (length bs))"
    and h: "heap_upto n (heap_pages s)" "n + (length bs + 64) div 64 \<le> length (heap_pages s)"
  obtains hs m where "strdup path s = Some (chunk_addr n, s\<lparr>heap_pages := hs, kmem := m\<rparr>)"
    "heap_upto (n + (length bs + 64) div 64) hs" "length hs = length (heap_pages s)" "str_at m (chunk_addr n) bs"
    "\<And>a. \<not> in_range (chunk_addr n) (Suc (length bs)) a \<Longrightarrow> m a = kmem s a"
proof -
  let ?k = "(length bs + 64) div 64"
  have k: "Suc (length bs) \<le> 64 * ?k" by presburger
  have b: "unat (chunk_addr n) + 64 * ?k < 2 ^ 64" using heap_bounds(2) [OF h] .
  have lb: "length bs < 2 ^ 64" using b k by simp
  have sz: "unat (of_nat (length bs) + 1 :: u64) = Suc (length bs)"
    using unat_of_nat_u64 [of "Suc (length bs)"] b k by (simp add: add.commute)
  obtain a hs where al: "kmalloc_byte (of_nat (length bs) + 1) s = (a, s\<lparr>heap_pages := hs\<rparr>)"
      "heap_upto (n + (Suc (length bs) + 63) div 64) hs" "length hs = length (heap_pages s)"
      "(of_nat (length bs) + 1 :: u64) \<noteq> 0 \<Longrightarrow> a = chunk_addr n \<and> a \<noteq> NULL"
    by (rule kmalloc_byte_upto [OF h(1), of "of_nat (length bs) + 1"]) (use sz h(2) in auto)
  have "(of_nat (length bs) + 1 :: u64) \<noteq> 0" using sz by (metis unat_0 nat.distinct(1))
  hence a: "a = chunk_addr n" "chunk_addr n \<noteq> NULL" using al(4) by auto
  let ?m = "memcpy (chunk_addr n) path (of_nat (length bs) + 1) (kmem s)"
  have "64 * ?k \<le> 64 * (length (heap_pages s) - n)" using h(2) by simp
  hence dj: "disjoint_ranges (chunk_addr n) (Suc (length bs)) path (Suc (length bs))"
      "no_wrap (chunk_addr n) (Suc (length bs))" "no_wrap path (Suc (length bs))"
    using p(2) b k by (auto simp: outside_heap_def disjoint_ranges_def no_wrap_def)
  have spec: "?m x = (if in_range (chunk_addr n) (Suc (length bs)) x then kmem s (path + (x - chunk_addr n)) else kmem s x)" for x
    using memcpy_spec [of "chunk_addr n" "of_nat (length bs) + 1" path] dj sz by simp
  have "?m (chunk_addr n + of_nat i) = kmem s (path + of_nat i)" if "i \<le> length bs" for i
    using that lb in_range_offset [of i "Suc (length bs)" "chunk_addr n"] by (simp add: spec)
  hence "read_bytes ?m (chunk_addr n) (Suc (length bs)) = read_bytes (kmem s) path (Suc (length bs))"
    by (intro read_bytes_cong) simp
  hence "str_at ?m (chunk_addr n) bs" using p(1) by (simp add: str_at_def del: read_bytes.simps)
  moreover have "strlen (kmem s) path = Some (of_nat (length bs))"
    using p(1) lb by (intro strlen_cstr read_cstr) (simp_all add: str_at_def)
  ultimately show ?thesis
    using that [where hs = hs and m = ?m] al(1,2,3) a spec by (simp add: strdup_def add.commute)
qed

lemma resolve_copy:
  fixes s :: "'a fs_kernel_scheme"
  assumes d: "str_at (kmem s) d bs" "is_slash (kmem s) slash" "lo = unat d" "unat d + length bs < hi" "d \<noteq> NULL"
    and w: "tmpfs_walk (vnode_data r0) (components bs) s = Some x" "types_ok s"
    and r: "vnodes s root = Some r0" "mounted_vfs r0 = NULL" "vnode_table r0 = Directory_Ops" "unat root < hi"
    and h: "heap_upto n (heap_pages s)" "n + 3 * length (components bs) \<le> length (heap_pages s)" "heap_blank n s"
    and sl: "unat slash + 1 < lo \<or> hi \<le> unat slash" "hi \<le> unat (chunk_addr n)" "unat slash < 2 ^ 64 - 1"
  obtains tok save m v s' vn where "strtok_r d slash NULL (kmem s) = Some (tok, save, m)"
    "resolve_loop slash root root tok save (s\<lparr>kmem := m\<rparr>) = Some (v, s')"
    "vnodes s' v = Some vn" "vnode_data vn = x" "heap_wf (heap_pages s')"
    "length (heap_pages s') = length (heap_pages s)"
proof -
  have hi: "hi < 2 ^ 64" using le_less_trans [OF sl(2) unat_u64_bound] by simp
  have ra: "rest_at lo hi (kmem s) d (components bs)" using d by (auto simp: rest_at_def)
  have e: "(if d = NULL then NULL else d) = d" by simp
  show ?thesis
  proof (cases rule: strtok_r_rest [OF ra d(2) e sl(1) hi sl(3), case_names none token])
    case (none save')
    have l: "resolve_loop slash root root NULL save' (s\<lparr>kmem := kmem s\<rparr>) = Some (root, s)"
      by (simp add: resolve_loop.simps)
    show ?thesis using that [OF none(2) l r(1)] w(1) h(1) none(1) by (simp add: heap_upto_def)
  next
    case (token c cs tok save m)
    let ?s = "s\<lparr>kmem := m\<rparr>"
    have b: "heap_blank n ?s" using h(3) token(8) sl(2) by (auto simp: heap_blank_def)
    have "tmpfs_walk (vnode_data r0) (c # cs) ?s = Some x" using w(1) token(1) tmpfs_walk_cong [of ?s s] by simp
    hence "\<exists>v s'. resolve_loop slash root root tok save ?s = Some (v, s') \<and>
        (\<exists>vn. vnodes s' v = Some vn \<and> vnode_data vn = x) \<and>
        heap_wf (heap_pages s') \<and> length (heap_pages s') = length (heap_pages ?s)"
      using w(2) r h(1,2) b token sl
      by (intro resolve_loop_walk [where rv = r0 and n = n and hi = hi and lo = lo]) (auto simp: types_ok_def)
    thus ?thesis using that [OF token(2)] by auto
  qed
qed

section \<open>The table of descriptors\<close>

text \<open>The keys of a table and the table itself only depend on the bytes of the occupied keys.\<close>

definition keys_outside :: "nat \<Rightarrow> oa_hash \<Rightarrow> 'a vmm_scheme \<Rightarrow> bool" where
  "keys_outside n ht s \<longleftrightarrow>
     (\<forall>e\<in>set (ht_buckets ht). occupied e \<longrightarrow> outside_heap n s (key_buf e) (unat (key_length e)))"

lemma table_cong:
  assumes "\<And>e. e \<in> set (ht_buckets ht) \<Longrightarrow> occupied e \<Longrightarrow> entry_key m' e = entry_key m e"
  shows "ht_wf m' ht = ht_wf m ht" "ht_map m' ht = ht_map m ht"
proof -
  have h: "holds_key m' k e = holds_key m k e" if "e \<in> set (ht_buckets ht)" for k e
    using assms [OF that] by (auto simp: holds_key_def)
  have "find (holds_key m' k) (ht_buckets ht) = find (holds_key m k) (ht_buckets ht)" for k
    by (rule find_cong) (simp_all add: h)
  thus "ht_map m' ht = ht_map m ht" by (simp add: ht_map_def fun_eq_iff)
  have "buckets_wf m' (ht_buckets ht) = buckets_wf m (ht_buckets ht)"
    by (simp add: buckets_wf_def assms h cong: conj_cong imp_cong)
  thus "ht_wf m' ht = ht_wf m ht" by (simp add: ht_wf_def)
qed

definition fd_text :: "u64 \<Rightarrow> u8 list" where
  "fd_text v = int_text (sint (ucast v :: 32 word))"

lemma fd_text_length: "0 < length (fd_text v)" "length (fd_text v) < 63"
  using dec_string_length [of "word_of_int \<bar>sint (ucast v :: 32 word)\<bar>"]
  by (auto simp: fd_text_def int_text_def simp del: of_int_abs)

lemma fd_key_text:
  assumes "buf \<noteq> NULL"
  obtains m len where "fd_key buf v s = Some (len, s\<lparr>kmem := m\<rparr>)" "len \<noteq> 0"
    "read_bytes m buf (unat len) = fd_text v" "\<And>a. \<not> in_range buf 64 a \<Longrightarrow> m a = kmem s a"
proof -
  let ?t = "fd_text v" and ?l = "word_of_int (int (length (fd_text v))) :: u64"
  have out: "vpprintf_loop (kmem s) (bytes_of ''%d'') [v] = Some ?t"
    using format_d [of "kmem s" "[]" v "[]"] by (simp add: fd_text_def)
  note l = fd_text_length [of v]
  obtain m where m: "npf_vsnprintf buf 64 (bytes_of ''%d'') [v] (kmem s) = Some (int (length ?t), m)"
      "read_bytes m buf (Suc (min (length ?t) 63)) = take 63 ?t @ [0]" "\<forall>a. \<not> in_range buf 64 a \<longrightarrow> m a = kmem s a"
    using vsnprintf_into [OF out assms, of 64] by auto
  have u: "unat ?l = length ?t" using l(2) by (simp add: unat_of_nat_u64)
  have "take (length ?t) (read_bytes m buf (Suc (length ?t))) = ?t" using m(2) l(2) by (simp del: read_bytes.simps)
  hence "read_bytes m buf (unat ?l) = ?t" by (simp only: u take_read_bytes) simp
  moreover have "?l \<noteq> 0" using u l(1) by (metis unat_0 less_irrefl)
  ultimately show ?thesis using that [where m = m and len = ?l] m(1,3) by (simp add: fd_key_def npf_snprintf_def)
qed

lemma outside_not_in:
  assumes "outside_heap n s p k" "heap_upto n (heap_pages s)" "n < length (heap_pages s)" "i < k"
  shows "\<not> in_range (chunk_addr n) 64 (p + of_nat i)"
proof -
  have "unat (p + of_nat i) = unat p + i" using assms(1,4) by (intro unat_add_of_nat) (simp_all add: outside_heap_def)
  moreover have "64 \<le> 64 * (length (heap_pages s) - n)" using assms(3) by simp
  moreover have "no_wrap (chunk_addr n) 64" using heap_bounds(2) [OF assms(2), of 1] assms(3) by (simp add: no_wrap_def)
  ultimately show ?thesis using assms(1,4) by (auto simp: in_range_iff outside_heap_def disjoint_ranges_def)
qed

text \<open>A key written into a fresh block leaves the table as it is.\<close>

lemma fresh_key:
  fixes s :: "'a vmm_scheme"
  assumes h: "heap_upto n (heap_pages s)" "n < length (heap_pages s)" and k: "keys_outside n ht s"
  obtains hs m len where "kmalloc_byte 64 s = (chunk_addr n, s\<lparr>heap_pages := hs\<rparr>)"
    "heap_upto (Suc n) hs" "length hs = length (heap_pages s)"
    "fd_key (chunk_addr n) v (s\<lparr>heap_pages := hs\<rparr>) = Some (len, s\<lparr>heap_pages := hs, kmem := m\<rparr>)"
    "key_ok (chunk_addr n, len)" "key_at m (chunk_addr n, len) = fd_text v" "unat len < 64"
    "ht_wf m ht = ht_wf (kmem s) ht" "ht_map m ht = ht_map (kmem s) ht"
proof -
  obtain hs where a: "kmalloc_byte 64 s = (chunk_addr n, s\<lparr>heap_pages := hs\<rparr>)" "heap_upto (Suc n) hs"
      "length hs = length (heap_pages s)" "chunk_addr n \<noteq> NULL"
    by (rule kmalloc_byte_upto [OF h(1), of 64]) (use h(2) in auto)
  obtain m len where m: "fd_key (chunk_addr n) v (s\<lparr>heap_pages := hs\<rparr>) = Some (len, s\<lparr>heap_pages := hs, kmem := m\<rparr>)"
      "len \<noteq> 0" "read_bytes m (chunk_addr n) (unat len) = fd_text v" "\<And>a. \<not> in_range (chunk_addr n) 64 a \<Longrightarrow> m a = kmem (s\<lparr>heap_pages := hs\<rparr>) a"
    by (rule fd_key_text [OF a(4), of v "s\<lparr>heap_pages := hs\<rparr>"]) (rule that)
  have "entry_key m e = entry_key (kmem s) e" if "e \<in> set (ht_buckets ht)" "occupied e" for e
    using k that m(4) outside_not_in [OF _ h] by (auto simp: keys_outside_def entry_key_def intro!: read_bytes_cong)
  note t = table_cong [of ht m "kmem s", OF this]
  have "unat len = length (fd_text v)" using arg_cong [OF m(3), of length] by simp
  thus ?thesis
    using that [where hs = hs and m = m and len = len] a m(1-3) t fd_text_length(2) [of v] by (simp add: key_ok_def key_at_def)
qed

lemma int_fd_lookup:
  fixes s :: "'a kernel_scheme"
  assumes tab: "current_fd_table s = Some (tab, ht)" "ht_wf (kmem s) ht"
    and heap: "heap_upto n (heap_pages s)" "n < length (heap_pages s)" "keys_outside n ht s"
  shows "ht_map (kmem s) ht (fd_text (word_of_int d)) = None \<Longrightarrow> vfs_int_fd_to_vfs_file d s = None"
    and "ht_map (kmem s) ht (fd_text (word_of_int d)) = Some fd \<Longrightarrow> fd \<noteq> NULL \<Longrightarrow>
      \<exists>s'. vfs_int_fd_to_vfs_file d s = Some (fd, s')"
proof -
  obtain hs m len where k: "kmalloc_byte 64 s = (chunk_addr n, s\<lparr>heap_pages := hs\<rparr>)"
      "heap_upto (Suc n) hs" "length hs = length (heap_pages s)"
      "fd_key (chunk_addr n) (word_of_int d) (s\<lparr>heap_pages := hs\<rparr>) = Some (len, s\<lparr>heap_pages := hs, kmem := m\<rparr>)"
      "key_ok (chunk_addr n, len)" "key_at m (chunk_addr n, len) = fd_text (word_of_int d)"
      "ht_wf m ht = ht_wf (kmem s) ht" "ht_map m ht = ht_map (kmem s) ht"
    by (rule fresh_key [OF heap, where v = "word_of_int d"]) (rule that)
  have l: "ht_lookup m ht (chunk_addr n, len) = ht_map (kmem s) ht (fd_text (word_of_int d))"
    using ht.lookup_abs [of m ht] tab(2) k(5-8) by simp
  have "n \<le> 2 ^ 20" using heap(1,2) by (simp add: heap_upto_def)
  hence f: "kfree (chunk_addr n) (s\<lparr>heap_pages := hs, kmem := m\<rparr>) \<noteq> None"
    using k(2,3) heap(2) by (simp add: kfree_spec heap_index_chunk_addr heap_upto_def)
  show "ht_map (kmem s) ht (fd_text (word_of_int d)) = None \<Longrightarrow> vfs_int_fd_to_vfs_file d s = None"
    using l tab(1) k(1,4) by (simp add: vfs_int_fd_to_vfs_file_def oa_hash_get_def ht_lookup_def)
  show "\<exists>s'. vfs_int_fd_to_vfs_file d s = Some (fd, s')"
    if "ht_map (kmem s) ht (fd_text (word_of_int d)) = Some fd" "fd \<noteq> NULL"
    using l tab(1) k(1,4) f that by (auto simp: vfs_int_fd_to_vfs_file_def oa_hash_get_def ht_lookup_def)
qed

lemma fd_text_int: "fd_text (ucast (ucast v :: 32 word)) = fd_text v"
  "fd_text (word_of_int (sint (ucast v :: 32 word))) = fd_text v"
proof -
  have "ucast (ucast w :: u64) = w" "ucast (scast w :: u64) = w" for w :: "32 word"
    by (rule bit_word_eqI; simp add: bit_simps)+
  thus "fd_text (ucast (ucast v :: 32 word)) = fd_text v" "fd_text (word_of_int (sint (ucast v :: 32 word))) = fd_text v"
    by (simp_all add: fd_text_def)
qed

lemma outside_heap_Suc:
  assumes "outside_heap n s p k" "heap_upto n (heap_pages s)" "n < length (heap_pages s)"
    and "length (heap_pages t) = length (heap_pages s)"
  shows "outside_heap (Suc n) t p k"
  using assms heap_bounds(1) [OF assms(2), of 1]
  by (auto simp: outside_heap_def disjoint_ranges_def)

lemma keys_outside_Suc:
  assumes "heap_upto n (heap_pages s)" "n + 2 \<le> length (heap_pages s)" "keys_outside n ht s"
    and "length hs = length (heap_pages s)" "heap_pages t = hs"
  shows "keys_outside (Suc n) ht t"
  using assms outside_heap_Suc [of n s _ _ t] by (auto simp: keys_outside_def)

lemma keys_outside_insert:
  assumes h: "heap_upto n (heap_pages s)" "n + 2 \<le> length (heap_pages s)" "keys_outside n ht s"
    and l: "length hs = length (heap_pages s)" "unat kl < 64" "heap_pages t = hs"
  shows "keys_outside (Suc n) (insert_at ht i (chunk_addr n) kl v) t"
proof -
  have "outside_heap (Suc n) t (chunk_addr n) (unat kl)"
    using heap_bounds(1,2) [OF h(1), of 1] h(2) l by (auto simp: outside_heap_def disjoint_ranges_def no_wrap_def)
  thus ?thesis
    using keys_outside_Suc [OF h l(1,3)]
    by (auto simp: keys_outside_def insert_at_def dest!: set_update_subset_insert [THEN subsetD])
qed

text \<open>\<open>install_fd\<close> up to the store into the table.\<close>

lemma install_fd_key:
  fixes s :: "'a kernel_scheme"
  assumes tab: "current_fd_table s = Some (tab, ht)" "ht_wf (kmem s) ht" "ht_length ht \<noteq> 33"
    and new: "ht_map (kmem s) ht (fd_text (ht_length ht)) = None"
    and heap: "heap_upto n (heap_pages s)" "n < length (heap_pages s)" "keys_outside n ht s"
  obtains hs m len where
    "install_fd fd s = Some (sint (ucast (ht_length ht) :: 32 word), put_fd_table tab
       (snd (oa_hash_set m ht (chunk_addr n) len fd)) (put_fd_table tab ht s\<lparr>heap_pages := hs, kmem := m\<rparr>))"
    "heap_upto (Suc n) hs" "length hs = length (heap_pages s)" "key_ok (chunk_addr n, len)"
    "key_at m (chunk_addr n, len) = fd_text (ht_length ht)" "unat len < 64"
    "ht_wf m ht" "ht_map m ht = ht_map (kmem s) ht"
proof -
  let ?s = "put_fd_table tab ht s" and ?v = "ucast (ucast (ht_length ht) :: 32 word) :: u64"
  have h: "heap_upto n (heap_pages ?s)" "n < length (heap_pages ?s)" "keys_outside n ht ?s"
    using heap by (simp_all add: put_fd_table_def keys_outside_def outside_heap_def)
  obtain hs m len where k: "kmalloc_byte 64 ?s = (chunk_addr n, ?s\<lparr>heap_pages := hs\<rparr>)"
      "heap_upto (Suc n) hs" "length hs = length (heap_pages ?s)"
      "fd_key (chunk_addr n) ?v (?s\<lparr>heap_pages := hs\<rparr>) = Some (len, ?s\<lparr>heap_pages := hs, kmem := m\<rparr>)"
      "key_ok (chunk_addr n, len)" "key_at m (chunk_addr n, len) = fd_text ?v" "unat len < 64"
      "ht_wf m ht = ht_wf (kmem ?s) ht" "ht_map m ht = ht_map (kmem ?s) ht"
    by (rule fresh_key [OF h, where v = ?v]) (rule that)
  have s: "kmem ?s = kmem s" "heap_pages ?s = heap_pages s" by (simp_all add: put_fd_table_def)
  have "ht_lookup m ht (chunk_addr n, len) = None"
    using ht.lookup_abs [of m ht] tab(2) new k(5,6,8,9) by (simp add: s fd_text_int)
  hence "oa_hash_get_entry m ht (chunk_addr n) len = None" by (simp add: ht_lookup_def)
  thus ?thesis
    using that [where hs = hs and m = m and len = len] k tab
    by (simp add: s fd_text_int install_fd_def grow_fd_table_def case_prod_unfold)
qed

section \<open>Concrete runs\<close>

text \<open>A kernel with a root directory that holds the file \<open>a\<close>, the path \<open>/a\<close> and the separator in
  memory, and a running thread with a given table of descriptors.\<close>

definition sample_vfs :: vfs_kernel where
  "sample_vfs = fs_kernel.extend
     (sample_fs 0 NULL\<lparr>kmem := put_bytes 0x1000 (bytes_of ''/a'' @ [0]) ((\<lambda>_. 0)(0x2000 := byte_of CHR ''/'')),
        vnodes := [chunk_addr 1 \<mapsto> \<lparr>vnode_type = VDIR, vnode_table = Directory_Ops, vnode_data = chunk_addr 2,
           vnode_vfsmountedhere = NULL, mounted_vfs = NULL\<rparr>]\<rparr>)
     (vfs_kernel.fields Map.empty (chunk_addr 1) NULL)"

definition sample_open :: "oa_hash \<Rightarrow> fs_kernel" where
  "sample_open ht = sample_fs 0 NULL\<lparr>threads := [0x500 \<mapsto> sample_thread\<lparr>fd_table := 0x600\<rparr>],
     fd_tables := [0x600 \<mapsto> ht], running_thread := 0x500\<rparr>"

lemma sample_vfs_fields [simp]:
  "kmem sample_vfs = put_bytes 0x1000 (bytes_of ''/a'' @ [0]) ((\<lambda>_. 0)(0x2000 := byte_of CHR ''/''))"
  "heap_pages sample_vfs = sample_nodes" "tmpfs_root sample_vfs = chunk_addr 1"
  "tmpfs_objects sample_vfs = [chunk_addr 2 \<mapsto> TmpfsDirectory sample_dir, chunk_addr 3 \<mapsto> TmpfsFile (sample_file 0 NULL)]"
  "vnodes sample_vfs (chunk_addr 1) = Some \<lparr>vnode_type = VDIR, vnode_table = Directory_Ops, vnode_data = chunk_addr 2,
     vnode_vfsmountedhere = NULL, mounted_vfs = NULL\<rparr>"
  using sample_fs_fields(5) [of 0 NULL] by (simp_all add: sample_vfs_def fs_kernel.defs vfs_kernel.defs)

lemma sample_open_fields [simp]:
  "kmem (sample_open ht) = (\<lambda>a. ucast a)" "heap_pages (sample_open ht) = sample_nodes"
  "current_fd_table (sample_open ht) = Some (0x600, ht)"
  by (simp_all add: sample_open_def current_fd_table_def get_current_thread_def sample_thread_def)

section \<open>Properties\<close>

text \<open>C27: \<open>vfs_resolve_path\<close> finds what the path names: where the components of the path, split at
  slashes, lead from the root directory to an object of the file system, it returns a vnode of that
  object.  The heap is one that has not had a block released, the memory behind the blocks is blank, and
  the strings lie outside it.\<close>
theorem vfs_resolve_path_finds:
  fixes s :: "'a vfs_kernel_scheme"
  assumes path: "str_at (kmem s) path bs" "path \<noteq> NULL" "outside_heap n s path (Suc (length bs))"
    and slash: "is_slash (kmem s) slash" "outside_heap n s slash 2"
    and root: "root = (if kmem s path = byte_of CHR ''/'' then tmpfs_root s else root_dir)"
      "vnodes s root = Some r0" "mounted_vfs r0 = NULL" "vnode_table r0 = Directory_Ops" "unat root < unat (chunk_addr n)"
    and walk: "tmpfs_walk (vnode_data r0) (components bs) s = Some x" "types_ok s"
    and heap: "heap_upto n (heap_pages s)" "heap_blank n s"
      "n + (length bs + 64) div 64 + 3 * length (components bs) \<le> length (heap_pages s)"
  shows "\<exists>v s' vn. vfs_resolve_path slash root_dir path s = Some (v, s') \<and> vnodes s' v = Some vn \<and> vnode_data vn = x"
proof -
  let ?k = "(length bs + 64) div 64"
  have room: "n + ?k \<le> length (heap_pages s)" using heap(3) by simp
  obtain hs m where dup: "strdup path s = Some (chunk_addr n, s\<lparr>heap_pages := hs, kmem := m\<rparr>)"
      "heap_upto (n + ?k) hs" "length hs = length (heap_pages s)" "str_at m (chunk_addr n) bs"
      "\<And>a. \<not> in_range (chunk_addr n) (Suc (length bs)) a \<Longrightarrow> m a = kmem s a"
    by (rule strdup_upto [OF path(1,3) heap(1) room]) (rule that)
  let ?s = "s\<lparr>heap_pages := hs, kmem := m\<rparr>"
  note hb = heap_bounds [OF heap(1) room]
  have k: "Suc (length bs) \<le> 64 * ?k" by presburger
  have keep: "m a = kmem s a" if "unat a < unat (chunk_addr n) \<or> unat (chunk_addr (n + ?k)) \<le> unat a" for a
    using dup(5) [of a] that hb(1,2) k by (auto simp: in_range_iff no_wrap_def)
  have mem: "64 * ?k \<le> 64 * (length (heap_pages s) - n)" using room by simp
  have sl: "unat slash + 1 < unat (chunk_addr n) \<or> unat (chunk_addr (n + ?k)) \<le> unat slash" "unat slash < 2 ^ 64 - 1"
    using slash(2) hb(1) mem by (auto simp: outside_heap_def disjoint_ranges_def no_wrap_def)
  have "unat (slash + 1) = unat slash + 1" using sl(2) by (simp add: unat_add_no_wrap)
  hence sm: "is_slash m slash" using slash(1) keep [of slash] keep [of "slash + 1"] sl(1) by (auto simp: is_slash_def)
  have "heap_blank (n + ?k) ?s" using heap(2) keep hb(1) dup(3) by (auto simp: heap_blank_def)
  moreover have "tmpfs_walk (vnode_data r0) (components bs) ?s = Some x" using walk(1) tmpfs_walk_cong [of ?s s] by simp
  ultimately obtain tok save m' v s' vn where l: "strtok_r (chunk_addr n) slash NULL (kmem ?s) = Some (tok, save, m')"
      "resolve_loop slash root root tok save (?s\<lparr>kmem := m'\<rparr>) = Some (v, s')"
      "vnodes s' v = Some vn" "vnode_data vn = x" "heap_wf (heap_pages s')" "length (heap_pages s') = length (heap_pages ?s)"
    using dup(2-4) sm walk(2) root(2-5) sl hb(1,4) heap(3) k
    by (elim resolve_copy [where s = ?s and n = "n + ?k" and lo = "unat (chunk_addr n)" and hi = "unat (chunk_addr (n + ?k))",
          rotated 5]) (auto simp: types_ok_def)
  have "n \<le> 2 ^ 20" using heap(1) room by (simp add: heap_upto_def)
  hence "kfree (chunk_addr n) s' \<noteq> None"
    using l(5,6) dup(3) room by (simp add: kfree_spec heap_index_chunk_addr)
  then obtain s'' where "kfree (chunk_addr n) s' = Some s''" "vnodes s'' = vnodes s'"
    using kfree_frame by fastforce
  thus ?thesis using path(2) root(1) dup(1) l hb(4) by (auto simp: vfs_resolve_path_def Let_def)
qed

theorem vfs_resolve_path_finds_witness:
  "\<exists>v s' vn. vfs_resolve_path 0x2000 NULL 0x1000 sample_vfs = Some (v, s') \<and> vnodes s' v = Some vn \<and>
     vnode_data vn = chunk_addr 3"
proof (rule vfs_resolve_path_finds [where bs = "bytes_of ''/a''" and n = 5])
  have u: "unat (chunk_addr 5) = 0xffffc00000000000 + 320" "unat (chunk_addr 1) = 0xffffc00000000000 + 64"
    by (simp_all add: chunk_addr_unat)
  have c: "components (bytes_of ''/a'') = [bytes_of ''a'']" by code_simp
  show "str_at (kmem sample_vfs) 0x1000 (bytes_of ''/a'')"
    by (simp add: put_bytes_def in_range_def byte_of_def)
  show "outside_heap 5 sample_vfs 0x1000 (Suc (length (bytes_of ''/a'')))" "outside_heap 5 sample_vfs 0x2000 2"
    using u by (simp_all add: outside_heap_def no_wrap_def disjoint_ranges_def)
  show "is_slash (kmem sample_vfs) 0x2000" by (simp add: is_slash_def put_bytes_def in_range_def)
  show "chunk_addr 1 = (if kmem sample_vfs 0x1000 = byte_of CHR ''/'' then tmpfs_root sample_vfs else NULL)"
    by (simp add: put_bytes_def in_range_def)
  show "tmpfs_walk (vnode_data \<lparr>vnode_type = VDIR, vnode_table = Directory_Ops, vnode_data = chunk_addr 2,
      vnode_vfsmountedhere = NULL, mounted_vfs = NULL\<rparr>) (components (bytes_of ''/a'')) sample_vfs = Some (chunk_addr 3)"
    unfolding c
    by (simp add: tmpfs_lookup_def find_entry_def get_dir_def sample_dir_def sample_file_def object_header_def
        new_header_def upt_conv_Cons)
  show "types_ok sample_vfs"
    by (auto simp: types_ok_def sample_dir_def sample_file_def object_header_def new_header_def split: if_splits)
  show "heap_upto 5 (heap_pages sample_vfs)" "5 + (length (bytes_of ''/a'') + 64) div 64 +
      3 * length (components (bytes_of ''/a'')) \<le> length (heap_pages sample_vfs)"
    using sample_nodes_upto c by simp_all
  show "heap_blank 5 sample_vfs"
    using u by (auto simp: heap_blank_def put_bytes_def in_range_iff no_wrap_def)
  show "unat (chunk_addr 1) < unat (chunk_addr 5)" using u by simp
  show "vnodes sample_vfs (chunk_addr 1) = Some \<lparr>vnode_type = VDIR, vnode_table = Directory_Ops,
      vnode_data = chunk_addr 2, vnode_vfsmountedhere = NULL, mounted_vfs = NULL\<rparr>" by (rule sample_vfs_fields)
qed simp_all



text \<open>C29: A full table loses a descriptor.  When every slot is taken \<open>install_fd\<close> still returns the
  number of entries as the new descriptor, but the file is not in the table and the next use of the
  descriptor fails its assertion.\<close>
theorem full_table_loses_descriptor:
  fixes s :: "'a kernel_scheme"
  assumes tab: "current_fd_table s = Some (tab, ht)" "ht_wf (kmem s) ht" "\<not> has_empty ht" "ht_length ht \<noteq> 33"
    and new: "ht_map (kmem s) ht (fd_text (ht_length ht)) = None"
    and heap: "heap_upto n (heap_pages s)" "n + 2 \<le> length (heap_pages s)" "keys_outside n ht s"
  shows "\<exists>d s'. install_fd fd s = Some (d, s') \<and> d = sint (ucast (ht_length ht) :: 32 word) \<and>
    vfs_int_fd_to_vfs_file d s' = None"
proof -
  have room: "n < length (heap_pages s)" using heap(2) by simp
  obtain hs m len where k: "install_fd fd s = Some (sint (ucast (ht_length ht) :: 32 word), put_fd_table tab
       (snd (oa_hash_set m ht (chunk_addr n) len fd)) (put_fd_table tab ht s\<lparr>heap_pages := hs, kmem := m\<rparr>))"
      "heap_upto (Suc n) hs" "length hs = length (heap_pages s)" "key_ok (chunk_addr n, len)"
      "key_at m (chunk_addr n, len) = fd_text (ht_length ht)" "unat len < 64" "ht_wf m ht" "ht_map m ht = ht_map (kmem s) ht"
    by (rule install_fd_key [OF tab(1,2,4) new heap(1) room heap(3), where fd = fd]) (rule that)
  have "oa_hash_set_entry m ht (chunk_addr n) len fd = None"
    using set_entry_full [of m ht "chunk_addr n" len] k(4,5,7,8) new tab(3) by (auto simp: key_ok_def key_at_def)
  hence i: "install_fd fd s = Some (sint (ucast (ht_length ht) :: 32 word),
      put_fd_table tab ht (put_fd_table tab ht s\<lparr>heap_pages := hs, kmem := m\<rparr>))"
    using k(1) by (simp add: oa_hash_set_def)
  define u where "u = put_fd_table tab ht (put_fd_table tab ht s\<lparr>heap_pages := hs, kmem := m\<rparr>)"
  have s: "kmem u = m" "heap_pages u = hs" "current_fd_table u = Some (tab, ht)"
    using tab(1) by (auto simp: u_def put_fd_table_def current_fd_table_def get_current_thread_def bind_eq_Some_conv)
  have "keys_outside (Suc n) ht u" by (rule keys_outside_Suc [OF heap(1,2,3) k(3) s(2)])
  hence "vfs_int_fd_to_vfs_file (sint (ucast (ht_length ht) :: 32 word)) u = None"
    using int_fd_lookup(1) [OF s(3), of "Suc n" "sint (ucast (ht_length ht) :: 32 word)"] fd_text_int(2) [of "ht_length ht"] k(2,3,7,8) heap(2) new by (simp add: s)
  thus ?thesis using i by (auto simp: u_def)
qed

theorem full_table_loses_descriptor_witness:
  "\<exists>s'. install_fd 0x900 (sample_open sample_table) = Some (1, s') \<and> vfs_int_fd_to_vfs_file 1 s' = None"
proof -
  have "\<not> has_empty sample_table" "ht_length sample_table = 1" by (simp_all add: has_empty_def sample_table_def)
  moreover have "ht_map (\<lambda>a. ucast a) sample_table (fd_text 1) = None" by code_simp
  moreover have "keys_outside 5 sample_table (sample_open sample_table)"
    using chunk_addr_unat [of 5]
    by (simp add: keys_outside_def sample_table_def outside_heap_def no_wrap_def disjoint_ranges_def HEAP_START_VIRT_DEFINED_def)
  ultimately show ?thesis
    using full_table_loses_descriptor [where s = "sample_open sample_table" and ht = sample_table and tab = "0x600" and fd = "0x900" and n = 5] sample_nodes_upto sample_table_wf
    by auto
qed

end
