(* ===== verification/Syscalls.thy ===== *)
theory Syscalls
  imports Vfs
begin

text \<open>
  System calls (syscalls.c, syscalls.h, syscalls.asm): the handlers, the table the assembly entry calls
  through, the user-side wrappers that reach it, the registers \<open>init_syscalls\<close> programs, and the calls
  the ACPI library makes into the kernel (kernel_api.c).  Structures and results a program passes by
  address are bytes of the memory.  A handler returns its \<open>int\<close> and the new state; handlers that give
  up the processor return an outcome of the scheduler.  Console output is the list of bytes handed to
  the terminal; log messages of the wrappers are left out.
\<close>

section \<open>State\<close>

record sys_kernel = vfs_kernel +
  msrs :: "u32 \<Rightarrow> u32 \<times> u32"
  ft_ctx_mutex :: mutex
  console :: "u8 list"

definition MSR_LSTAR :: u32 where "MSR_LSTAR = 0xC0000082"
definition MSR_STAR :: u32 where "MSR_STAR = 0xC0000081"
definition MSR_SFMASK :: u32 where "MSR_SFMASK = 0xC0000084"
definition MSR_EFER :: u32 where "MSR_EFER = 0xC0000080"
definition MAP_SHARED :: u64 where "MAP_SHARED = 0x01"
definition MAP_PRIVATE :: u64 where "MAP_PRIVATE = 0x02"
definition MAP_FIXED :: u64 where "MAP_FIXED = 0x10"
definition MAP_ANON :: u64 where "MAP_ANON = 0x20"

text \<open>An \<open>int\<close> in memory.\<close>

definition store32 :: "u64 \<Rightarrow> 32 word \<Rightarrow> mem \<Rightarrow> mem" where
  "store32 a v m = (\<lambda>x. if unat (x - a) < 4 then ucast (drop_bit (8 * unat (x - a)) v) else m x)"

definition current_thread :: "'a kernel_scheme \<Rightarrow> thread_context option" where
  "current_thread s = threads s (get_current_thread s)"

section \<open>Programming the registers\<close>

text \<open>The addresses of the functions whose pages \<open>init_syscalls\<close> opens to user mode.\<close>

record syscall_symbols =
  sym_syscall_handler :: u64
  sym_test_a :: u64
  sym_syscall_test :: u64
  sym_test_b :: u64

definition open_pages :: "u64 list \<Rightarrow> 'a kernel_scheme \<Rightarrow> 'a kernel_scheme" where
  "open_pages ps s = fold (\<lambda>p s. change_page_map (pml4_address_virt_glob s) p 0b111 s) ps s"

definition init_syscalls :: "syscall_symbols \<Rightarrow> 'a sys_kernel_scheme \<Rightarrow> 'a sys_kernel_scheme option" where
  "init_syscalls sy s = do {
     let f1 = wrmsr MSR_LSTAR (sym_syscall_handler sy) (msrs s);
     let f2 = wrmsr MSR_STAR (push_bit 48 0x10 OR push_bit 32 0x8) f1;
     let f3 = wrmsr MSR_SFMASK 0x202 f2;
     let f4 = wrmsr MSR_EFER (rdmsr MSR_EFER f3 OR 1) f3;
     let (gs, s1) = kmalloc_byte 4096 (s\<lparr>msrs := f4\<rparr>);
     let (kernel_gs, s2) = kmalloc_byte 4096 s1;
     if gs = NULL \<or> kernel_gs = NULL then None
     else do {
       let s3 = open_pages [gs, kernel_gs] s2;
       let s4 = s3\<lparr>kmem := memset kernel_gs 0 4096 (memset gs 0 4096 (kmem s3)),
                   msrs := wrmsr 0xC0000102 kernel_gs (wrmsr 0xC0000101 gs (msrs s3))\<rparr>;
       Some (open_pages [sym_test_a sy, sym_test_a sy + 0x1000, sym_test_a sy + 0x2000, sym_test_a sy + 0x3000,
         sym_syscall_test sy, sym_syscall_test sy + 0x1000, sym_syscall_test sy + 0x2000, sym_test_b sy] s4)
     }
   }"

section \<open>Mapping memory\<close>

text \<open>The fields of a \<open>map_page_bytes_args\<close> in memory.\<close>

definition arg_cr3 :: "u64 \<Rightarrow> u64" where "arg_cr3 p = p"
definition arg_virt_address :: "u64 \<Rightarrow> u64" where "arg_virt_address p = p + 8"
definition arg_permissions :: "u64 \<Rightarrow> u64" where "arg_permissions p = p + 16"
definition arg_size :: "u64 \<Rightarrow> u64" where "arg_size p = p + 24"
definition arg_flag :: "u64 \<Rightarrow> u64" where "arg_flag p = p + 32"
definition arg_error :: "u64 \<Rightarrow> u64" where "arg_error p = p + 40"
definition arg_ret :: "u64 \<Rightarrow> u64" where "arg_ret p = p + 48"

text \<open>In \<open>virt_address & 0xfff != 0\<close> the comparison binds first, so only the lowest bit is tested; the
  early return leaves interrupts as they are.\<close>

definition syscall7 :: "u64 \<Rightarrow> 'a kernel_scheme \<Rightarrow> (int \<times> 'a kernel_scheme) option" where
  "syscall7 p s =
     (let (irq, s0) = irq_disable_save s; virt = load64 (kmem s0) (arg_virt_address p) in
      if virt AND (if (0xfff :: 32 word) \<noteq> 0 then 1 else 0) \<noteq> 0 then Some (uint EINVAL, s0)
      else do {
        t \<leftarrow> current_thread s0;
        let s1 = s0\<lparr>kmem := store64 (arg_cr3 p) (cr3 t) (kmem s0)\<rparr>;
        let m = kmem s1;
        (err, s2) \<leftarrow> map_range (load64 m (arg_cr3 p)) (load64 m (arg_virt_address p))
          (load64 m (arg_permissions p)) (load64 m (arg_size p)) (load64 m (arg_flag p)) s1;
        let m2 = store32 (arg_error p) (ucast err) (kmem s2);
        let m3 = memset (load64 m2 (arg_virt_address p)) 0 (load64 m2 (arg_size p)) m2;
        if load64 m3 (load64 m3 (arg_virt_address p) + 8 * 256) \<noteq> 0 then None
        else Some (sint (load32 m3 (arg_error p)), irq_restore (Some irq) (s2\<lparr>kmem := m3\<rparr>))
      })"

definition unmap_count :: "u64 \<Rightarrow> u64" where
  "unmap_count sz =
     (if sz \<le> 0x1000 then 1 else if sz mod 0x1000 = 0 then sz div 0x1000 else sz div 0x1000 + 1)"

fun unmap_loop :: "u64 \<Rightarrow> u64 \<Rightarrow> nat list \<Rightarrow> 'a kernel_scheme \<Rightarrow> 'a kernel_scheme option" where
  "unmap_loop cr pointer [] s = Some s"
| "unmap_loop cr pointer (i # is) s = do {
     s1 \<leftarrow> unmap_page cr (pointer + of_nat i * 0x1000) s;
     unmap_loop cr pointer is s1
   }"

definition syscall8 :: "u64 \<Rightarrow> u64 \<Rightarrow> 'a kernel_scheme \<Rightarrow> (int \<times> 'a kernel_scheme) option" where
  "syscall8 pointer sz s =
     (if pointer = NULL then None
      else do {
        t \<leftarrow> current_thread s;
        if cr3 t = NULL then None
        else do {
          s1 \<leftarrow> unmap_loop (cr3 t) pointer [0..<unat (unmap_count sz)] s;
          Some (0, s1)
        }
      })"

section \<open>The other handlers\<close>

text \<open>The wait compares the status word of the thread with the futex and stores the expected value
  there.\<close>

definition syscall11 :: "u64 \<Rightarrow> 32 word \<Rightarrow> 'a sync_kernel_scheme \<Rightarrow> (int \<times> 'a sync_kernel_scheme) option" where
  "syscall11 pointer expected s = do {
     let (irq, s0) = irq_disable_save s;
     let p = get_current_thread s0;
     t \<leftarrow> threads s0 p;
     if status t ! 3 \<noteq> scast (load32 (kmem s0) pointer) then Some (11, irq_restore (Some irq) s0)
     else do {
       s1 \<leftarrow> thread_upd p (\<lambda>t. t\<lparr>status := (status t)[3 := scast expected]\<rparr>) s0;
       (_, s2) \<leftarrow> futex_enqueue (virt_to_phys pointer (cr3 t) s1) p s1;
       Some (0, irq_restore (Some irq) s2)
     }
   }"

text \<open>The loop over the futex array runs once, as in \<open>futex_enqueue\<close>; the inner loop indexes with the
  outer variable, and the comparison in place of the last assignment does nothing.\<close>

definition syscall12 :: "u64 \<Rightarrow> 'a sync_kernel_scheme \<Rightarrow> (int \<times> 'a sync_kernel_scheme) option" where
  "syscall12 pointer s = do {
     let (irq, s0) = irq_disable_save s;
     let q = load64 (kmem s0) (global_futex_array s0);
     if q = NULL then None
     else do {
       let fq = read_queue (kmem s0) q;
       s3 \<leftarrow>
         (if fq_pointer fq = pointer then do {
            s1 \<leftarrow> (if fq_size fq = 0 then Some s0
                   else thread_upd (load64 (kmem s0) (fq_threads fq)) (\<lambda>t. t\<lparr>status := (status t)[3 := 0]\<rparr>) s0);
            s2 \<leftarrow> kfree_interruptable (fq_threads fq) s1;
            kfree_interruptable q s2
          } else Some s0);
       Some (0, irq_restore (Some irq) s3)
     }
   }"

definition syscall13 :: "u64 \<Rightarrow> u64 \<Rightarrow> 'a kernel_scheme \<Rightarrow> (int \<times> 'a kernel_scheme) option" where
  "syscall13 sz pointer s = do {
     let (p, s1) = kmalloc_byte sz s;
     if p = NULL then None
     else do {
       t \<leftarrow> current_thread s1;
       let s2 = s1\<lparr>kmem := memset p 0 (sz + 4096) (store64 pointer p (kmem s1))\<rparr>;
       Some (0, snd (change_page_map_range (cr3 t) p sz 0b111 s2))
     }
   }"

definition syscall14 :: "u64 \<Rightarrow> 'a vmm_scheme \<Rightarrow> (int \<times> 'a vmm_scheme) option" where
  "syscall14 pointer s = map_option (Pair 0) (kfree pointer s)"

text \<open>The body of the logging call is the one of \<open>kprintf\<close>.\<close>

definition syscall15 :: "u64 \<Rightarrow> u8 list \<Rightarrow> u64 list \<Rightarrow> 'a sys_kernel_scheme \<Rightarrow>
    (int \<times> 'a sys_kernel_scheme) option" where
  "syscall15 str fmt args s = do {
     (out, mx, s1) \<leftarrow> kprintf str fmt args (ft_ctx_mutex s) s;
     Some (0, s1\<lparr>ft_ctx_mutex := mx, console := console s1 @ out\<rparr>)
   }"

definition syscall16 :: "u64 \<Rightarrow> 'a kernel_scheme \<Rightarrow> int \<times> 'a kernel_scheme" where
  "syscall16 thread s = (0, s\<lparr>kmem := store64 thread (get_current_thread s) (kmem s)\<rparr>)"

definition syscall17 :: "u64 \<Rightarrow> u64 \<Rightarrow> 'a sys_kernel_scheme \<Rightarrow> (int \<times> 'a sys_kernel_scheme) option" where
  "syscall17 str sz s = do {
     let (irq, s0) = irq_disable_save s;
     (_, mx) \<leftarrow> acquire_mutex (ft_ctx_mutex s0);
     Some (0, irq_restore (Some irq) (s0\<lparr>ft_ctx_mutex := snd (release_mutex mx),
       console := console s0 @ read_bytes (kmem s0) str (unat sz)\<rparr>))
   }"

definition syscall18 :: "u64 \<Rightarrow> 'a sys_kernel_scheme \<Rightarrow> int \<times> 'a sys_kernel_scheme" where
  "syscall18 pointer s = (0, s\<lparr>msrs := wrmsr 0xC0000100 pointer (msrs s)\<rparr>)"

definition syscall19 :: "vfs_symbols \<Rightarrow> u64 \<Rightarrow> int \<Rightarrow> int \<Rightarrow> u64 \<Rightarrow> 'a vfs_kernel_scheme \<Rightarrow>
    (int \<times> 'a vfs_kernel_scheme) option" where
  "syscall19 vs path flags mode fd s = do {
     (d, s1) \<leftarrow> vfs_fdopen vs path flags mode s;
     Some (0, s1\<lparr>kmem := store32 fd (word_of_int d) (kmem s1)\<rparr>)
   }"

definition syscall23 :: "int \<Rightarrow> 'a vfs_kernel_scheme \<Rightarrow> (int \<times> 'a vfs_kernel_scheme) option" where
  "syscall23 fd s = map_option (Pair 0) (vfs_fdclose fd s)"

section \<open>The table of system calls\<close>

text \<open>What the handlers need beside the registers: the addresses of code, the time and return address
  of a switch, the user's instruction pointer, the stack array of the logging call, and the decoded
  arguments of its format.\<close>

record call_environment =
  env_code :: code_symbols
  env_vfs :: vfs_symbols
  env_now :: u64
  env_ret :: u64
  env_user_rip :: u64
  env_str :: u64
  env_fmt :: "u8 list"
  env_args :: "u64 list"

text \<open>The entry calls \<open>syscall_array[rdi]\<close> with the arguments in \<open>rsi\<close>, \<open>rdx\<close>, \<open>rcx\<close> and \<open>r8\<close>.  The
  table has twenty entries and the index is not checked; call 1 loops.\<close>

definition returns :: "(int \<times> 's) option \<Rightarrow> (int, 's) outcome option" where
  "returns r = map_option (\<lambda>(v, s). Returns v s) r"

definition switches :: "(unit, 's) outcome option \<Rightarrow> (int, 's) outcome option" where
  "switches r = map_option (\<lambda>o'. case o' of Returns _ s \<Rightarrow> Returns 0 s | Switches s \<Rightarrow> Switches s) r"

definition syscall_handler :: "call_environment \<Rightarrow> u64 \<Rightarrow> u64 \<Rightarrow> u64 \<Rightarrow> u64 \<Rightarrow> u64 \<Rightarrow> 'a sys_kernel_scheme \<Rightarrow>
    (int, 'a sys_kernel_scheme) outcome option" where
  "syscall_handler env rdi rsi rdx rcx r8 s =
     (if rdi \<in> {0, 2, 3, 4, 5, 10} then Some (Returns 0 s)
      else if rdi = 6 then switches (yield_thread (env_now env) (env_ret env) s)
      else if rdi = 7 then returns (syscall7 rsi s)
      else if rdi = 8 then returns (syscall8 rsi rdx s)
      else if rdi = 9 then switches (scheduler_return (env_code env) (env_ret env) s)
      else if rdi = 11 then returns (syscall11 rsi (ucast rdx) s)
      else if rdi = 12 then returns (syscall12 rsi s)
      else if rdi = 13 then returns (syscall13 rsi rdx s)
      else if rdi = 14 then returns (syscall14 rsi s)
      else if rdi = 15 then returns (syscall15 (env_str env) (env_fmt env) (env_args env) s)
      else if rdi = 16 then returns (Some (syscall16 rsi s))
      else if rdi = 17 then returns (syscall17 rsi rdx s)
      else if rdi = 18 then returns (Some (syscall18 rsi s))
      else if rdi = 19 then returns (syscall19 (env_vfs env) rsi (sint (ucast rdx :: 32 word)) (sint (ucast rcx :: 32 word)) r8 s)
      else None)"

section \<open>The wrappers\<close>

text \<open>The \<open>syscall\<close> instruction puts the user's instruction pointer into \<open>rcx\<close>, which the handlers take
  as their fourth argument.\<close>

definition syscall_instruction :: "call_environment \<Rightarrow> u64 \<Rightarrow> u64 \<Rightarrow> u64 \<Rightarrow> u64 \<Rightarrow> 'a sys_kernel_scheme \<Rightarrow>
    (int, 'a sys_kernel_scheme) outcome option" where
  "syscall_instruction env rdi rsi rdx r8 s = syscall_handler env rdi rsi rdx (env_user_rip env) r8 s"

text \<open>The permissions of a mapping: \<open>~(1 << 0)\<close> is the int -2, which sets every bit but the lowest.\<close>

definition vm_perm :: "32 word \<Rightarrow> u64" where
  "vm_perm prot =
     (let p0 = (0 :: u64);
          p1 = (if drop_bit 0 (prot AND push_bit 0 1) = 1 then p0 AND push_bit 1 0
                else p0 OR scast (NOT (push_bit 0 1 :: 32 word)));
          p2 = (if drop_bit 1 (prot AND push_bit 1 1) = 1 then p1 OR push_bit 1 1 else p1);
          p3 = (if drop_bit 2 (prot AND push_bit 2 1) = 0 then p2 OR push_bit 63 1 else p2)
      in p3 OR 0b01)"

definition vm_flag :: "32 word \<Rightarrow> u64" where
  "vm_flag flags =
     (if flags AND 0xF = ucast MAP_SHARED then MAP_SHARED
      else if flags AND 0xF = ucast MAP_PRIVATE then MAP_PRIVATE else 0)"

text \<open>The argument block is a local variable at \<open>args\<close>.\<close>

definition vm_args :: "u64 \<Rightarrow> u64 \<Rightarrow> u64 \<Rightarrow> u64 \<Rightarrow> u64 \<Rightarrow> mem \<Rightarrow> mem" where
  "vm_args args hint perm sz flag m =
     store64 (arg_ret args) NULL (store32 (arg_error args) 0 (store64 (arg_flag args) flag
       (store64 (arg_size args) sz (store64 (arg_permissions args) perm
         (store64 (arg_virt_address args) hint (store64 (arg_cr3 args) 0 m))))))"

definition sys_vm_map :: "call_environment \<Rightarrow> u64 \<Rightarrow> u64 \<Rightarrow> u64 \<Rightarrow> 32 word \<Rightarrow> 32 word \<Rightarrow> u64 \<Rightarrow>
    'a sys_kernel_scheme \<Rightarrow> (int \<times> 'a sys_kernel_scheme) option" where
  "sys_vm_map env args hint sz prot flags window s =
     (if flags AND 0xF0 = ucast MAP_ANON \<or> flags AND 0xF0 = ucast MAP_FIXED then do {
        o' \<leftarrow> syscall_instruction env 7 args 0 0
          (s\<lparr>kmem := vm_args args hint (vm_perm prot) sz (vm_flag flags) (kmem s)\<rparr>);
        (case o' of
           Returns _ s1 \<Rightarrow>
             (let err = load32 (kmem s1) (arg_error args) in
              if err \<noteq> 0 then Some (sint err, s1)
              else Some (0, s1\<lparr>kmem := store64 window hint (kmem s1)\<rparr>))
         | Switches s1 \<Rightarrow> None)
      } else None)"

definition sys_vm_unmap :: "call_environment \<Rightarrow> u64 \<Rightarrow> u64 \<Rightarrow> 'a sys_kernel_scheme \<Rightarrow>
    (int, 'a sys_kernel_scheme) outcome option" where
  "sys_vm_unmap env pointer sz s = syscall_instruction env 8 pointer sz 0 s"

definition sys_futex_wait :: "call_environment \<Rightarrow> u64 \<Rightarrow> 32 word \<Rightarrow> 'a sys_kernel_scheme \<Rightarrow>
    (int, 'a sys_kernel_scheme) outcome option" where
  "sys_futex_wait env pointer expected s = syscall_instruction env 11 pointer (ucast expected) 0 s"

definition sys_futex_wake :: "call_environment \<Rightarrow> u64 \<Rightarrow> 'a sys_kernel_scheme \<Rightarrow>
    (int, 'a sys_kernel_scheme) outcome option" where
  "sys_futex_wake env pointer s = syscall_instruction env 12 pointer 0 0 s"

definition sys_anon_allocate :: "call_environment \<Rightarrow> u64 \<Rightarrow> u64 \<Rightarrow> 'a sys_kernel_scheme \<Rightarrow>
    (int, 'a sys_kernel_scheme) outcome option" where
  "sys_anon_allocate env sz pointer s = syscall_instruction env 13 sz pointer 0 s"

definition sys_anon_free :: "call_environment \<Rightarrow> u64 \<Rightarrow> 'a sys_kernel_scheme \<Rightarrow>
    (int, 'a sys_kernel_scheme) outcome option" where
  "sys_anon_free env pointer s = syscall_instruction env 14 pointer 0 0 s"

definition sys_tcb_set :: "call_environment \<Rightarrow> u64 \<Rightarrow> 'a sys_kernel_scheme \<Rightarrow>
    (int, 'a sys_kernel_scheme) outcome option" where
  "sys_tcb_set env pointer s = syscall_instruction env 18 pointer 0 0 s"

definition sys_open :: "call_environment \<Rightarrow> u64 \<Rightarrow> 32 word \<Rightarrow> 32 word \<Rightarrow> u64 \<Rightarrow> 'a sys_kernel_scheme \<Rightarrow>
    (int, 'a sys_kernel_scheme) outcome option" where
  "sys_open env pathname flags mode fd s = syscall_instruction env 19 pathname (ucast flags) fd s"

definition syscall_yield :: "call_environment \<Rightarrow> 'a sys_kernel_scheme \<Rightarrow> (int, 'a sys_kernel_scheme) outcome option" where
  "syscall_yield env s = syscall_instruction env 6 0 0 0 s"

definition syscall_user_thread_exit :: "call_environment \<Rightarrow> 'a sys_kernel_scheme \<Rightarrow>
    (int, 'a sys_kernel_scheme) outcome option" where
  "syscall_user_thread_exit env s = syscall_instruction env 9 0 0 0 s"

definition get_current_thread_syscall :: "call_environment \<Rightarrow> u64 \<Rightarrow> 'a sys_kernel_scheme \<Rightarrow>
    (int, 'a sys_kernel_scheme) outcome option" where
  "get_current_thread_syscall env thread s = syscall_instruction env 16 thread 0 0 s"

section \<open>Calls from the ACPI library (kernel_api.c)\<close>

definition uacpi_kernel_alloc :: "u64 \<Rightarrow> 'a vmm_scheme \<Rightarrow> u64 \<times> 'a vmm_scheme" where
  "uacpi_kernel_alloc sz s = kmalloc_byte sz s"

definition uacpi_kernel_free :: "u64 \<Rightarrow> 'a vmm_scheme \<Rightarrow> 'a vmm_scheme option" where
  "uacpi_kernel_free ptr s = kfree ptr s"

definition uacpi_bounds :: "u64 \<Rightarrow> u64 \<Rightarrow> u64 \<times> u64" where
  "uacpi_bounds addr sz =
     (addr AND NOT 0xfff,
      if (addr + sz) AND 0xfff = 0 then addr + sz else ((addr + sz) AND NOT 0xfff) + 4096)"

fun uacpi_map_loop :: "u64 \<Rightarrow> nat list \<Rightarrow> 'a kernel_scheme \<Rightarrow> 'a kernel_scheme option" where
  "uacpi_map_loop down [] s = Some s"
| "uacpi_map_loop down (i # is) s = do {
     let a = down + of_nat i * 4096;
     (_, s1) \<leftarrow> map_page (pml4_address_virt_glob s) a a 0b11 s;
     uacpi_map_loop down is s1
   }"

definition uacpi_kernel_map :: "u64 \<Rightarrow> u64 \<Rightarrow> 'a kernel_scheme \<Rightarrow> (u64 \<times> 'a kernel_scheme) option" where
  "uacpi_kernel_map addr sz s =
     (let (down, up) = uacpi_bounds addr sz
      in map_option (Pair addr) (uacpi_map_loop down [0..<unat ((up - down) div 4096)] s))"

definition uacpi_kernel_unmap :: "u64 \<Rightarrow> 'a kernel_scheme \<Rightarrow> 'a kernel_scheme option" where
  "uacpi_kernel_unmap addr s = (if addr = NULL then None else Some s)"

section \<open>Registers and argument blocks\<close>

lemma rdmsr_wrmsr: "rdmsr r (wrmsr r' v f) = (if r = r' then v else rdmsr r f)"
proof -
  have "push_bit 32 (ucast (ucast (drop_bit 32 v) :: u32)) OR ucast (ucast v :: u32) = v"
    by (rule bit_word_eqI) (auto simp: bit_simps)
  thus ?thesis by (simp add: rdmsr_def wrmsr_def)
qed

lemma change_page_map_msrs: "msrs (change_page_map c p k s) = msrs s"
  by (simp add: change_page_map_def or_entry_def Let_def)

lemma open_pages_msrs: "msrs (open_pages ps s) = msrs s"
  by (induction ps arbitrary: s) (simp_all add: open_pages_def change_page_map_msrs)

lemma load64_store32_other:
  assumes "4 \<le> unat (b - a)" "unat (b - a) \<le> 2 ^ 64 - 8"
  shows "load64 (store32 a v m) b = load64 m b"
proof (rule load64_cong)
  fix i :: nat assume i: "i < 8"
  have "unat (b + of_nat i - a) = unat (b - a) + i"
    using unat_add_no_wrap [of "b - a" "of_nat i"] assms(2) i by (simp add: unat_of_nat_u64 algebra_simps)
  thus "store32 a v m (b + of_nat i) = m (b + of_nat i)" using assms(1) by (simp add: store32_def)
qed

lemma load32_store64_other:
  assumes "8 \<le> unat (b - a)" "unat (b - a) \<le> 2 ^ 64 - 8"
  shows "load32 (store64 a v m) b = load32 m b"
proof -
  have "store64 a v m (b + of_nat i) = m (b + of_nat i)" if "i < 8" for i
    using unat_add_of_nat [of "b - a" 8 i] assms that by (simp add: store64_def no_wrap_def algebra_simps)
  from this [of 0] this [of 1] this [of 2] this [of 3] show ?thesis by (simp add: load32_def)
qed

lemma load32_store32_same: "load32 (store32 a v m) a = v"
proof (rule bit_word_eqI)
  fix n assume "n < LENGTH(32)"
  thus "bit (load32 (store32 a v m) a) n = bit v n"
    by (cases "n < 16"; cases "n < 24") (auto simp: load32_def store32_def bit_simps)
qed

lemma store_in_block:
  "k + 8 \<le> 56 \<Longrightarrow> \<not> in_range p 56 x \<Longrightarrow> store64 (p + of_nat k) v m x = m x"
  "k + 4 \<le> 56 \<Longrightarrow> \<not> in_range p 56 x \<Longrightarrow> store32 (p + of_nat k) w m x = m x"
proof -
  have "in_range p 56 x" if "unat (x - (p + of_nat k)) < j" "k + j \<le> 56" for j
  proof -
    have "x - p = (x - (p + of_nat k)) + of_nat k" by simp
    hence "unat (x - p) = unat (x - (p + of_nat k)) + k"
      using unat_add_no_wrap [of "x - (p + of_nat k)" "of_nat k"] that by (simp add: unat_of_nat_u64)
    thus ?thesis using that by (simp add: in_range_def)
  qed
  from this [of 8] this [of 4]
  show "k + 8 \<le> 56 \<Longrightarrow> \<not> in_range p 56 x \<Longrightarrow> store64 (p + of_nat k) v m x = m x"
    "k + 4 \<le> 56 \<Longrightarrow> \<not> in_range p 56 x \<Longrightarrow> store32 (p + of_nat k) w m x = m x"
    by (auto simp: store64_def store32_def)
qed

lemmas arg_offsets = arg_cr3_def arg_virt_address_def arg_permissions_def arg_size_def arg_flag_def arg_error_def arg_ret_def

lemma vm_args_fields:
  "load64 (vm_args args hint perm sz flag m) (arg_virt_address args) = hint"
  "load32 (vm_args args hint perm sz flag m) (arg_error args) = 0"
  "\<not> in_range args 56 x \<Longrightarrow> vm_args args hint perm sz flag m x = m x"
  subgoal by (simp add: vm_args_def arg_offsets load64_store64_other load64_store32_other)
  subgoal by (simp add: vm_args_def arg_offsets load32_store64_other load32_store32_same)
  subgoal
    using store_in_block [of 0 args x] store_in_block [of 8 args x] store_in_block [of 16 args x]
      store_in_block [of 24 args x] store_in_block [of 32 args x] store_in_block [of 40 args x] store_in_block [of 48 args x]
    by (simp add: vm_args_def arg_offsets)
  done

section \<open>Concrete runs\<close>

definition sample_environment :: call_environment where
  "sample_environment = \<lparr>env_code = sample_symbols,
     env_vfs = \<lparr>sym_slash = 0x2000, sym_test = 0x3000, sym_initial_thread = 0x4000\<rparr>,
     env_now = 0, env_ret = 0x5000, env_user_rip = 0x400000, env_str = 0x6000, env_fmt = [], env_args = []\<rparr>"

definition sample_sys :: sys_kernel where
  "sample_sys = vfs_kernel.extend sample_vfs
     (sys_kernel.fields (\<lambda>_. (0, 0)) \<lparr>locked = False, mutex_object = NULL\<rparr> [])"

lemma sample_sys_heap: "heap_pages sample_sys = sample_nodes"
  using sample_vfs_fields(2) by (simp add: sample_sys_def vfs_kernel.defs sys_kernel.defs)

section \<open>Properties\<close>

text \<open>C31: The permissions of \<open>sys_vm_map\<close>.  A mapping is present; without \<open>PROT_READ\<close> every permission
  bit is set, so that a mapping asked for with no access at all is open to user mode and writable; and
  with \<open>PROT_READ\<close> the bit that admits user mode is never set.\<close>
theorem vm_map_permissions:
  "bit (vm_perm prot) 0 \<and> (bit (vm_perm prot) 1 \<longleftrightarrow> bit prot 1 \<or> \<not> bit prot 0) \<and>
   (bit (vm_perm prot) 2 \<longleftrightarrow> \<not> bit prot 0) \<and> (bit (vm_perm prot) 63 \<longleftrightarrow> \<not> bit prot 2 \<or> \<not> bit prot 0) \<and>
   (\<not> bit prot 0 \<longrightarrow> vm_perm prot = - 1)"
proof -
  have b: "drop_bit k (prot AND push_bit k 1) = of_bool (bit prot k)" if "k < 32" for k
    by (rule bit_word_eqI) (use that in \<open>auto simp: bit_simps\<close>)
  have "scast (NOT 1 :: 32 word) = (- 2 :: u64)" by (simp add: not_eq_complement)
  thus ?thesis
    using b [of 0] b [of 1] b [of 2]
    by (cases "bit prot 0"; cases "bit prot 1"; cases "bit prot 2")
      (simp_all add: vm_perm_def Let_def bit_simps)
qed

theorem vm_map_permissions_witness: "vm_perm 0 = - 1 \<and> \<not> bit (vm_perm 7) 2"
  using vm_map_permissions [of 0] vm_map_permissions [of 7] by simp



text \<open>\<open>init_syscalls\<close> enables the \<open>syscall\<close> instruction: it enters at the handler with the kernel
  selectors and the masked flags, the enable bit is set and the rest of the feature register kept, and
  the two bases are the blocks just allocated.\<close>
lemma init_syscalls_programs_registers:
  assumes "heap_upto n (heap_pages s)" "n + 128 \<le> length (heap_pages s)"
  shows "\<exists>s'. init_syscalls sy s = Some s' \<and> rdmsr MSR_LSTAR (msrs s') = sym_syscall_handler sy \<and>
    rdmsr MSR_STAR (msrs s') = 0x10000800000000 \<and> rdmsr MSR_SFMASK (msrs s') = 0x202 \<and>
    rdmsr MSR_EFER (msrs s') = rdmsr MSR_EFER (msrs s) OR 1 \<and>
    rdmsr 0xC0000101 (msrs s') = chunk_addr n \<and> rdmsr 0xC0000102 (msrs s') = chunk_addr (n + 64)"
proof -
  let ?f1 = "wrmsr MSR_LSTAR (sym_syscall_handler sy) (msrs s)"
  let ?f3 = "wrmsr MSR_SFMASK 0x202 (wrmsr MSR_STAR (push_bit 48 0x10 OR push_bit 32 0x8) ?f1)"
  let ?f4 = "wrmsr MSR_EFER (rdmsr MSR_EFER ?f3 OR 1) ?f3"
  let ?s = "s\<lparr>msrs := ?f4\<rparr>"
  obtain a hs where a: "kmalloc_byte 4096 ?s = (a, ?s\<lparr>heap_pages := hs\<rparr>)" "heap_upto (n + 64) hs"
      "length hs = length (heap_pages s)" "a = chunk_addr n" "a \<noteq> NULL"
    by (rule kmalloc_byte_upto [of n ?s 4096]) (use assms in auto)
  obtain b hs' where b: "kmalloc_byte 4096 (?s\<lparr>heap_pages := hs\<rparr>) = (b, ?s\<lparr>heap_pages := hs'\<rparr>)"
      "b = chunk_addr (n + 64)" "b \<noteq> NULL"
    by (rule kmalloc_byte_upto [of "n + 64" "?s\<lparr>heap_pages := hs\<rparr>" 4096]) (use assms a in auto)
  have "\<exists>s'. init_syscalls sy s = Some s' \<and> msrs s' = wrmsr 0xC0000102 b (wrmsr 0xC0000101 a ?f4)"
    using a(1,5) b(1,3) by (simp add: init_syscalls_def Let_def open_pages_msrs)
  thus ?thesis
    using a(4) b(2)
    by (auto simp: rdmsr_wrmsr MSR_LSTAR_def MSR_STAR_def MSR_SFMASK_def MSR_EFER_def)
qed

lemma init_syscalls_programs_registers_witness:
  "\<exists>s'. init_syscalls \<lparr>sym_syscall_handler = 0x900, sym_test_a = 0xa00, sym_syscall_test = 0xb00, sym_test_b = 0xc00\<rparr>
      sample_sys = Some s' \<and> rdmsr MSR_LSTAR (msrs s') = 0x900"
  using init_syscalls_programs_registers [of 5 sample_sys] sample_nodes_upto
  by (fastforce simp: sample_sys_heap)

end
