(* ===== verification/Spec2Isabelle.thy ===== *)
theory Spec2Isabelle
  imports Strstr Descriptors Timers Heap_Init Syscalls
begin

text \<open>
  A verification development for willowOS, an x86-64 kernel written in C
  (src/limine-c-template-x86-64/kernel/src).

  Kernel memory and interrupts: theory \<open>Kmem\<close> (kutils.c, main.c).
  Kernel heap: theory \<open>Vmm\<close> (vmm.c, vmm.h).
  Frame allocator: theory \<open>Pmm\<close> (paging.c, main.c).
  Thread data: theory \<open>Threads\<close> (scheduler.h).
  Page tables: theory \<open>Paging\<close> (paging.c).
\<close>

end
